(* ===== verification/Kernel_Prelude.thy ===== *)
theory Kernel_Prelude
  imports Main "HOL-Library.Word"
begin

text \<open>
  Shared vocabulary of the development: the machine integer types of the kernel
  (\<open>core/types.hpp\<close>), the rule collections the component proofs draw on, and
  the generic facts on words, lists and search loops that more than one component
  needs.  Nothing in this theory models a function of the kernel.
\<close>

unbundle bit_operations_syntax

section \<open>Machine integers\<close>

type_synonym u8 = "8 word"
type_synonym u16 = "16 word"
type_synonym u32 = "32 word"
type_synonym u64 = "64 word"

text \<open>Rule collections: \<open>unat_arith_simps\<close> moves a word goal to \<open>nat\<close> under
  no-overflow side conditions, \<open>kinv\<close> collects preservation facts for component
  invariants.\<close>

named_theorems nowrap \<open>unsigned arithmetic that provably does not wrap\<close>
named_theorems kinv \<open>preservation of component invariants\<close>

section \<open>Rounding on natural numbers\<close>

lemma dvd_less_gap:
  fixes a m r :: nat
  assumes "a dvd m" and "a dvd r" and "m < r"
  shows "m + a \<le> r"
  using assms dvd_imp_le[of a "r - m"] by (simp add: dvd_diff_nat)

lemma round_up_eq:
  fixes a n :: nat
  assumes "0 < a"
  shows "n + (a - n mod a) = a * (n div a + 1)"
proof -
  have "n = a * (n div a) + n mod a" and "n mod a < a" using assms by simp_all
  then show ?thesis unfolding distrib_left by linarith
qed

lemma round_up_dvd: "0 < a \<Longrightarrow> a dvd n + (a - n mod a)" for a n :: nat
  by (subst round_up_eq) simp_all

lemma round_up_le:
  fixes a m n :: nat
  assumes "0 < a" and "a dvd m" and "n \<le> m" and "n mod a \<noteq> 0"
  shows "n + (a - n mod a) \<le> m"
proof -
  have "n - n mod a < m" using assms(3,4) by (metis diff_less gr0I le_neq_implies_less
        mod_less_eq_dividend less_le_trans not_less_zero le_zero_eq)
  moreover have "a dvd n - n mod a" by (simp add: minus_mod_eq_div_mult)
  ultimately have "n - n mod a + a \<le> m" using assms(2) dvd_less_gap by blast
  moreover have "n mod a \<le> n" "n mod a < a" using assms(1) by simp_all
  ultimately show ?thesis by linarith
qed

lemma mod_digits:
  fixes x y :: nat
  assumes "x mod m = y mod m" and "x div m mod n = y div m mod n"
  shows "x mod (m * n) = y mod (m * n)"
  using assms by (simp add: mod_mult2_eq)

section \<open>Words as natural numbers\<close>

lemma unat_below: "unat (w :: 'a::len word) < 2 ^ LENGTH('a)"
  by (rule unsigned_less)

lemma unat_add_nowrap [nowrap]:
  fixes a b :: "'a::len word"
  assumes "unat a + unat b < 2 ^ LENGTH('a)"
  shows "unat (a + b) = unat a + unat b"
  using assms by (simp add: unat_word_ariths)

lemma unat_sub_nowrap [nowrap]:
  fixes a b :: "'a::len word"
  assumes "b \<le> a"
  shows "unat (a - b) = unat a - unat b"
  using assms by (rule unat_sub)

lemma unat_mult_nowrap [nowrap]:
  fixes a b :: "'a::len word"
  assumes "unat a * unat b < 2 ^ LENGTH('a)"
  shows "unat (a * b) = unat a * unat b"
  using assms by (simp add: unat_word_ariths)

lemma word_le_max_minus:
  fixes a b :: "'a::len word"
  shows "(a > - 1 - b) = (2 ^ LENGTH('a) \<le> unat a + unat b)"
proof -
  have "unat (- 1 :: 'a word) = 2 ^ LENGTH('a) - 1"
    by (simp add: unsigned_minus_1_eq_mask mask_eq_exp_minus_1)
  then have "unat (- 1 - b) = 2 ^ LENGTH('a) - 1 - unat b"
    by (subst unat_sub) simp_all
  moreover have "unat b < 2 ^ LENGTH('a)" by simp
  ultimately show ?thesis
    unfolding word_less_nat_alt by linarith
qed

lemma word_add_le_nowrap:
  fixes a b :: "'a::len word"
  assumes "unat a + unat b < 2 ^ LENGTH('a)"
  shows "a \<le> a + b"
  using assms by (simp add: word_le_nat_alt unat_add_nowrap)

section \<open>Masks\<close>

lemma and_not_mask_minus:
  "x AND NOT (mask n) = x - take_bit n x" for x :: "'a::len word"
proof -
  have "(x AND NOT (mask n)) + take_bit n x = (x AND NOT (mask n)) OR take_bit n x"
    by (rule disjunctive_add) (auto simp: bit_simps)
  also have "\<dots> = x"
    by (rule bit_word_eqI) (auto simp: bit_simps)
  finally show ?thesis by (simp add: algebra_simps)
qed

lemma and_low_mask_mod:
  fixes x :: "'a::len word"
  assumes "n < LENGTH('a)"
  shows "x AND mask n = x mod 2 ^ n"
proof -
  have "(0 :: 'a word) < 2 ^ n" using assms by (simp add: word_gt_0 exp_eq_0_imp_not_bit)
  then show ?thesis by (simp add: word_mod_2p_is_mask)
qed

lemma unat_and_mask: "unat (x AND mask n) = unat x mod 2 ^ n"
  by (metis take_bit_eq_mask take_bit_eq_mod unsigned_take_bit_eq)

lemma unat_drop_bit: "unat (drop_bit n x) = unat x div 2 ^ n"
  unfolding unat_drop_bit_eq by (rule drop_bit_eq_div)

lemma low_mask_12: "(4095 :: 'a::len word) = mask 12"
  by (simp add: mask_eq_exp_minus_1)

lemma low_mask_9: "(511 :: 'a::len word) = mask 9"
  by (simp add: mask_eq_exp_minus_1)

lemma unat_of_small: "n < 2 ^ 64 \<Longrightarrow> unat (of_nat n :: u64) = n"
  by (simp add: unat_of_nat)

end
