(* ===== verification/Core_Types.thy ===== *)
theory Core_Types
  imports Kernel_Prelude
begin

text \<open>
  \<open>core/types.hpp\<close>: the address-space constants, the conversion between physical
  and higher-half virtual addresses, and the alignment helpers with their overflow
  protection.  The C++ templates are instantiated by the kernel at unsigned types
  only, so they are modelled at an arbitrary word length.
\<close>

section \<open>Constants and address translation\<close>

definition KERNEL_VIRTUAL_BASE :: u64 where
  "KERNEL_VIRTUAL_BASE = 0xFFFFFFFF80000000"

definition PAGE_SIZE :: u64 where
  "PAGE_SIZE = 4096"

definition phys_to_virt :: "u64 \<Rightarrow> u64" where
  "phys_to_virt phys = phys + KERNEL_VIRTUAL_BASE"

definition virt_to_phys :: "u64 \<Rightarrow> u64" where
  "virt_to_phys virt = virt - KERNEL_VIRTUAL_BASE"

section \<open>Alignment\<close>

definition align_up_checked :: "'a::len word \<Rightarrow> 'a word \<Rightarrow> 'a word option" where
  "align_up_checked val alignment =
     (if alignment = 0 then Some val
      else let rem = val mod alignment in
        if rem = 0 then Some val
        else let delta = alignment - rem in
          if val > - 1 - delta then None
          else Some (val + delta))"

definition align_up :: "'a::len word \<Rightarrow> 'a word \<Rightarrow> 'a word" where
  "align_up val alignment =
     (case align_up_checked val alignment of None \<Rightarrow> - 1 | Some res \<Rightarrow> res)"

definition align_down :: "'a::len word \<Rightarrow> 'a word \<Rightarrow> 'a word" where
  "align_down val alignment =
     (if alignment = 0 then val else val - (val mod alignment))"

lemma word_mod_le: "(v::'a::len word) mod a \<le> v"
  by (simp add: word_le_nat_alt unat_mod_distrib)

lemma word_mod_less: "a \<noteq> 0 \<Longrightarrow> (v::'a::len word) mod a < a"
  by (simp add: word_less_nat_alt unat_mod_distrib unat_gt_0)

lemma unat_align_down:
  "unat (align_down v a) = unat v - unat v mod unat a" if "a \<noteq> 0"
  using that by (simp add: align_down_def unat_sub word_mod_le unat_mod_distrib)

lemma align_down_le: "align_down v a \<le> v"
  by (cases "a = 0") (simp add: align_down_def, simp add: word_le_nat_alt unat_align_down)

lemma align_down_dvd: "a \<noteq> 0 \<Longrightarrow> unat a dvd unat (align_down v a)"
  by (simp add: unat_align_down minus_mod_eq_div_mult)

lemma align_up_checked_None_iff:
  "align_up_checked v a = None \<longleftrightarrow>
     a \<noteq> 0 \<and> unat v mod unat a \<noteq> 0 \<and>
     2 ^ LENGTH('a) \<le> unat v + (unat a - unat v mod unat a)"
  for v a :: "'a::len word"
proof -
  have "unat (a - v mod a) = unat a - unat v mod unat a" if "a \<noteq> 0"
    using word_mod_less[OF that, of v]
    by (simp add: unat_sub order_less_imp_le unat_mod_distrib)
  moreover have "v mod a = 0 \<longleftrightarrow> unat v mod unat a = 0"
    by (metis unat_eq_zero unat_mod_distrib)
  ultimately show ?thesis
    by (auto simp: align_up_checked_def Let_def word_le_max_minus)
qed

lemma align_up_checked_Some:
  fixes v a :: "'a::len word"
  assumes "align_up_checked v a = Some r" and "a \<noteq> 0"
  shows "v \<le> r" and "unat a dvd unat r" and "unat r < unat v + unat a"
proof -
  let ?d = "unat a - unat v mod unat a"
  have a: "0 < unat a" using assms(2) by (simp add: unat_gt_0)
  have d: "unat (a - v mod a) = ?d"
    using word_mod_less[OF assms(2), of v]
    by (simp add: unat_sub order_less_imp_le unat_mod_distrib)
  have z: "v mod a = 0 \<longleftrightarrow> unat v mod unat a = 0"
    by (metis unat_eq_zero unat_mod_distrib)
  have less: "unat v mod unat a < unat a" using a by simp
  have "v \<le> r \<and> unat a dvd unat r \<and> unat r < unat v + unat a"
  proof (cases "v mod a = 0")
    case True
    then show ?thesis using assms z a by (auto simp: align_up_checked_def Let_def)
  next
    case False
    then have nz: "unat v mod unat a \<noteq> 0" using z by simp
    have fit: "unat v + ?d < 2 ^ LENGTH('a)" and r: "r = v + (a - v mod a)"
      using assms False d by (auto simp: align_up_checked_def Let_def word_le_max_minus split: if_splits)
    have ur: "unat r = unat v + ?d" using fit d r by (simp add: unat_add_nowrap)
    have "unat a dvd unat r" using ur round_up_dvd[OF a, of "unat v"] by simp
    then show ?thesis using ur nz less by (auto simp: word_le_nat_alt)
  qed
  then show "v \<le> r" "unat a dvd unat r" "unat r < unat v + unat a" by auto
qed

lemma align_up_fits:
  fixes v a m :: "'a::len word"
  assumes "a \<noteq> 0" and "v \<le> m" and "unat a dvd unat m"
  shows "align_up_checked v a = Some (align_up v a)
    \<and> v \<le> align_up v a \<and> unat a dvd unat (align_up v a) \<and> align_up v a \<le> m"
proof -
  have le: "unat v \<le> unat m" using assms(2) by (simp add: word_le_nat_alt)
  have lt: "unat m < 2 ^ LENGTH('a)" by simp
  have a: "0 < unat a" using assms(1) by (simp add: unat_gt_0)
  have "unat v + (unat a - unat v mod unat a) \<le> unat m" if "unat v mod unat a \<noteq> 0"
    using round_up_le[OF a assms(3) le that] .
  then have "align_up_checked v a \<noteq> None"
    using lt unfolding align_up_checked_None_iff by linarith
  then obtain r where r: "align_up_checked v a = Some r" by blast
  note s = align_up_checked_Some[OF r assms(1)]
  have "unat r \<le> unat m"
  proof (rule ccontr)
    assume "\<not> unat r \<le> unat m"
    then have "unat m < unat r" by simp
    then have "unat m + unat a \<le> unat r" using assms(3) s(2) by (blast intro: dvd_less_gap)
    then show False using s(3) le by simp
  qed
  then show ?thesis using r s by (simp add: align_up_def word_le_nat_alt)
qed

lemma align_down_greatest:
  fixes v a m :: "'a::len word"
  assumes "a \<noteq> 0" and "m \<le> v" and "unat a dvd unat m"
  shows "m \<le> align_down v a"
proof -
  have "unat m div unat a * unat a \<le> unat v div unat a * unat a"
    using assms(2) by (intro mult_le_mono1 div_le_mono) (simp add: word_le_nat_alt)
  then show ?thesis using assms by (simp add: word_le_nat_alt unat_align_down minus_mod_eq_div_mult)
qed

text \<open>C1.  Alignment with overflow protection, for a non-zero alignment: \<open>align_up_checked\<close> succeeds
  exactly when some multiple of the alignment at or above the value fits the word, and then
  returns the least such multiple, which is also what \<open>align_up\<close> returns; when no multiple fits,
  \<open>align_up_checked\<close> reports the overflow and \<open>align_up\<close> saturates at the largest word.
  \<open>align_down\<close> returns the greatest multiple at or below the value.\<close>

theorem align_up_least:
  fixes v a :: "'a::len word"
  assumes "a \<noteq> 0"
  shows "(align_up_checked v a = None \<longleftrightarrow> \<not> (\<exists>m. v \<le> m \<and> unat a dvd unat m))
    \<and> (align_up_checked v a = None \<longrightarrow> align_up v a = - 1)
    \<and> (\<forall>r. align_up_checked v a = Some r \<longrightarrow> align_up v a = r \<and> v \<le> r \<and> unat a dvd unat r
         \<and> (\<forall>m. v \<le> m \<and> unat a dvd unat m \<longrightarrow> r \<le> m))
    \<and> align_down v a \<le> v \<and> unat a dvd unat (align_down v a)
    \<and> (\<forall>m. m \<le> v \<and> unat a dvd unat m \<longrightarrow> m \<le> align_down v a)"
proof (intro conjI allI impI)
  show "align_up_checked v a = None \<longleftrightarrow> \<not> (\<exists>m. v \<le> m \<and> unat a dvd unat m)"
  proof (cases "align_up_checked v a")
    case None
    then show ?thesis using align_up_fits[OF assms, of v] by (metis option.distinct(1))
  next
    case (Some r)
    then show ?thesis using align_up_checked_Some(1,2)[OF Some assms] by auto
  qed
  show "align_up v a = - 1" if "align_up_checked v a = None" using that by (simp add: align_up_def)
  fix r assume r: "align_up_checked v a = Some r"
  note s = align_up_checked_Some[OF r assms]
  show "align_up v a = r" using r by (simp add: align_up_def)
  show "v \<le> r" "unat a dvd unat r" using s by auto
  show "r \<le> m" if "v \<le> m \<and> unat a dvd unat m" for m using align_up_fits[OF assms, of v m] that r by simp
next
  show "align_down v a \<le> v" by (rule align_down_le)
  show "unat a dvd unat (align_down v a)" using assms by (rule align_down_dvd)
  show "m \<le> align_down v a" if "m \<le> v \<and> unat a dvd unat m" for m using align_down_greatest[OF assms] that by blast
qed

theorem align_up_least_witness:
  "align_up_checked (0x1001 :: u64) 0x1000 = Some 0x2000 \<and> align_up (0x1001 :: u64) 0x1000 = 0x2000
    \<and> align_up_checked (0xFFFFFFFFFFFFF001 :: u64) 0x1000 = None \<and> align_up (0xFFFFFFFFFFFFF001 :: u64) 0x1000 = - 1
    \<and> \<not> (\<exists>m. (0xFFFFFFFFFFFFF001 :: u64) \<le> m \<and> unat (0x1000 :: u64) dvd unat m)"
proof -
  have s: "align_up_checked (0x1001 :: u64) 0x1000 = Some 0x2000" "align_up_checked (0xFFFFFFFFFFFFF001 :: u64) 0x1000 = None"
    by code_simp+
  show ?thesis using align_up_least[of "0x1000 :: u64" "0x1001"] align_up_least[of "0x1000 :: u64" "0xFFFFFFFFFFFFF001"] s by simp
qed

end
