(* ===== verification/Bounded_Fifo.thy ===== *)
theory Bounded_Fifo
  imports Kernel_Prelude
begin

text \<open>
  Bounded first-in first-out queues over a circular buffer.  \<open>ring_list\<close> is the view of a
  circular buffer as a list; the locale \<open>bounded_fifo\<close> is the contract the kernel's queues
  share (the scheduler's ready queue and the keyboard event queue), with the order of
  delivery proved once for every sequence of operations.
\<close>

section \<open>Circular buffers as lists\<close>

definition ring_list :: "'a list \<Rightarrow> nat \<Rightarrow> nat \<Rightarrow> 'a list" where
  "ring_list buf start n = map (\<lambda>i. buf ! ((start + i) mod length buf)) [0..<n]"

lemma length_ring_list [simp]: "length (ring_list buf start n) = n"
  by (simp add: ring_list_def)

lemma ring_list_nth: "i < n \<Longrightarrow> ring_list buf start n ! i = buf ! ((start + i) mod length buf)"
  by (simp add: ring_list_def)

lemma ring_list_0 [simp]: "ring_list buf start 0 = []"
  by (simp add: ring_list_def)

lemma ring_list_mod [simp]: "ring_list buf (start mod length buf) n = ring_list buf start n"
  by (simp add: ring_list_def mod_add_left_eq)

lemma ring_index_neq:
  fixes i j s :: nat
  assumes "i < j" "j - i < m"
  shows "(s + i) mod m \<noteq> (s + j) mod m"
proof
  assume "(s + i) mod m = (s + j) mod m"
  then have "m dvd (s + j) - (s + i)" using assms(1) by (intro mod_eq_dvd_iff_nat[THEN iffD1]) auto
  then show False using assms by (auto dest: dvd_imp_le)
qed

lemma ring_index_inject:
  fixes i j s :: nat
  assumes "i < m" "j < m"
  shows "(s + i) mod m = (s + j) mod m \<longleftrightarrow> i = j"
  using ring_index_neq[of i j m s] ring_index_neq[of j i m s] assms by (metis less_imp_diff_less linorder_neqE_nat)

lemma ring_list_append:
  assumes "n < length buf"
  shows "ring_list (buf[(start + n) mod length buf := x]) start (Suc n) = ring_list buf start n @ [x]"
proof (rule nth_equalityI)
  fix i assume i: "i < length (ring_list (buf[(start + n) mod length buf := x]) start (Suc n))"
  have l: "(start + n) mod length buf < length buf" using assms by (intro mod_less_divisor) linarith
  show "ring_list (buf[(start + n) mod length buf := x]) start (Suc n) ! i = (ring_list buf start n @ [x]) ! i"
    using i l ring_index_inject[of i "length buf" n start] assms
    by (auto simp: ring_list_nth nth_append nth_list_update less_Suc_eq)
qed simp

lemma ring_list_Suc: "ring_list buf start (Suc n) = buf ! (start mod length buf) # ring_list buf (Suc start) n"
  by (simp add: ring_list_def upt_conv_Cons map_Suc_upt[symmetric] del: upt_Suc)

lemma ring_list_update_outside:
  assumes "n \<le> k" "k < length buf"
  shows "ring_list (buf[(start + k) mod length buf := x]) start n = ring_list buf start n"
proof (rule nth_equalityI)
  fix i assume "i < length (ring_list (buf[(start + k) mod length buf := x]) start n)"
  then have "(start + i) mod length buf \<noteq> (start + k) mod length buf" "i < n"
    using ring_index_inject[of i "length buf" k start] assms by auto
  then show "ring_list (buf[(start + k) mod length buf := x]) start n ! i = ring_list buf start n ! i"
    by (simp add: ring_list_nth)
qed simp

lemma ring_list_update_inside:
  assumes "k < n" "n \<le> length buf"
  shows "ring_list (buf[(start + k) mod length buf := x]) start n = (ring_list buf start n)[k := x]"
proof (rule nth_equalityI)
  fix i assume "i < length (ring_list (buf[(start + k) mod length buf := x]) start n)"
  then have i: "i < n" by simp
  have "(start + k) mod length buf < length buf" using assms by (intro mod_less_divisor) linarith
  then show "ring_list (buf[(start + k) mod length buf := x]) start n ! i = (ring_list buf start n)[k := x] ! i"
    using i assms ring_index_inject[of i "length buf" k start] by (auto simp: ring_list_nth nth_list_update)
qed simp

section \<open>The contract\<close>

datatype 'a fifo_op = Push 'a | Pop

text \<open>A sequence of operations; the result lists the values accepted and the values
  delivered, in order.\<close>

fun run_fifo :: "('a \<Rightarrow> 'q \<Rightarrow> bool \<times> 'q) \<Rightarrow> ('q \<Rightarrow> 'a option \<times> 'q) \<Rightarrow> 'a fifo_op list \<Rightarrow> 'q \<Rightarrow> 'a list \<times> 'a list \<times> 'q" where
  "run_fifo push pop [] q = ([], [], q)"
| "run_fifo push pop (Push a # ops) q =
     (let (b, q1) = push a q; (acc, out, q2) = run_fifo push pop ops q1
      in ((if b then [a] else []) @ acc, out, q2))"
| "run_fifo push pop (Pop # ops) q =
     (let (r, q1) = pop q; (acc, out, q2) = run_fifo push pop ops q1
      in (acc, (case r of None \<Rightarrow> [] | Some x \<Rightarrow> [x]) @ out, q2))"

locale bounded_fifo =
  fixes inv :: "'q \<Rightarrow> bool" and items :: "'q \<Rightarrow> 'a list" and cap :: nat
    and admits :: "'a \<Rightarrow> 'q \<Rightarrow> bool"
    and push :: "'a \<Rightarrow> 'q \<Rightarrow> bool \<times> 'q" and pop :: "'q \<Rightarrow> 'a option \<times> 'q"
  assumes bound: "inv q \<Longrightarrow> length (items q) \<le> cap"
    and push_spec: "inv q \<Longrightarrow> push a q = (b, q') \<Longrightarrow>
      inv q' \<and> (b \<longleftrightarrow> admits a q \<and> length (items q) < cap) \<and> items q' = items q @ (if b then [a] else [])"
    and pop_empty: "inv q \<Longrightarrow> items q = [] \<Longrightarrow> pop q = (None, q)"
    and pop_head: "inv q \<Longrightarrow> items q = x # xs \<Longrightarrow> \<exists>q'. pop q = (Some x, q') \<and> inv q' \<and> items q' = xs"
begin

lemma pop_spec:
  assumes "inv q" "pop q = (r, q')"
  shows "inv q' \<and> items q = (case r of None \<Rightarrow> [] | Some x \<Rightarrow> [x]) @ items q'"
  using pop_empty[OF assms(1)] pop_head[OF assms(1)] assms by (cases "items q") auto

lemma fifo_order:
  assumes "inv q" "run_fifo push pop ops q = (acc, out, q')"
  shows "inv q' \<and> items q @ acc = out @ items q'"
  using assms
proof (induction ops arbitrary: q acc out q')
  case (Cons op ops)
  show ?case
  proof (cases op)
    case (Push a)
    obtain b q1 where p: "push a q = (b, q1)" by fastforce
    obtain acc1 out1 q2 where r: "run_fifo push pop ops q1 = (acc1, out1, q2)" by (meson prod_cases3)
    have "acc = (if b then [a] else []) @ acc1" "out = out1" "q' = q2" using Cons.prems(2) Push p r by simp_all
    then show ?thesis using Cons.IH[OF _ r] push_spec[OF Cons.prems(1) p] by auto
  next
    case Pop
    obtain x q1 where p: "pop q = (x, q1)" by fastforce
    obtain acc1 out1 q2 where r: "run_fifo push pop ops q1 = (acc1, out1, q2)" by (meson prod_cases3)
    have "acc = acc1" "out = (case x of None \<Rightarrow> [] | Some x \<Rightarrow> [x]) @ out1" "q' = q2"
      using Cons.prems(2) Pop p r by simp_all
    then show ?thesis using Cons.IH[OF _ r] pop_spec[OF Cons.prems(1) p] by auto
  qed
qed simp

lemma fifo_bound:
  assumes "inv q" "run_fifo push pop ops q = (acc, out, q')"
  shows "length (items q') \<le> cap"
  using fifo_order[OF assms] bound by blast

end

end
