(* ===== verification/Port_Io.thy ===== *)
theory Port_Io
  imports Core_Types "HOL-Library.State_Monad"
begin

text \<open>
  Port input and output (\<open>src/kernel/arch/x86_64/cpu/io.hpp\<close>).  The devices behind the ports
  are not code of the kernel: a bus is a parameter, a pair of functions on a device state
  \<open>'d\<close>.  Drivers are programs of the state monad over a record whose first field is the
  device state; each driver extends the record with its own static variables.  The counting
  bus measures how many port accesses a program makes on any bus.
\<close>

record 'd port_bus =
  bus_in :: "u16 \<Rightarrow> 'd \<Rightarrow> u8 \<times> 'd"
  bus_out :: "u16 \<Rightarrow> u8 \<Rightarrow> 'd \<Rightarrow> 'd"

record 'd bus_state =
  dev :: 'd

definition modify :: "('s \<Rightarrow> 's) \<Rightarrow> ('s, unit) state" where
  "modify f = State (\<lambda>s. ((), f s))"

definition gets :: "('s \<Rightarrow> 'a) \<Rightarrow> ('s, 'a) state" where
  "gets f = State (\<lambda>s. (f s, s))"

definition outb :: "'d port_bus \<Rightarrow> u16 \<Rightarrow> u8 \<Rightarrow> (('d, 'm) bus_state_scheme, unit) state" where
  "outb B port v = modify (\<lambda>s. s\<lparr>dev := bus_out B port v (dev s)\<rparr>)"

definition inb :: "'d port_bus \<Rightarrow> u16 \<Rightarrow> (('d, 'm) bus_state_scheme, u8) state" where
  "inb B port = State (\<lambda>s. let (v, d) = bus_in B port (dev s) in (v, s\<lparr>dev := d\<rparr>))"

definition io_wait :: "'d port_bus \<Rightarrow> (('d, 'm) bus_state_scheme, unit) state" where
  "io_wait B = outb B 0x80 0x00"

lemma run_modify [simp]: "run_state (modify f) s = ((), f s)"
  by (simp add: modify_def)

lemma run_gets [simp]: "run_state (gets f) s = (f s, s)"
  by (simp add: gets_def)

lemma run_outb [simp]: "run_state (outb B port v) s = ((), s\<lparr>dev := bus_out B port v (dev s)\<rparr>)"
  by (simp add: outb_def)

lemma run_inb [simp]:
  "run_state (inb B port) s = (fst (bus_in B port (dev s)), s\<lparr>dev := snd (bus_in B port (dev s))\<rparr>)"
  by (simp add: inb_def split_beta)

section \<open>Counting port accesses\<close>

definition counting :: "'d port_bus \<Rightarrow> ('d \<times> nat) port_bus" where
  "counting B = \<lparr>bus_in = (\<lambda>p (d, n). let (v, d') = bus_in B p d in (v, (d', Suc n))),
                 bus_out = (\<lambda>p v (d, n). (bus_out B p v d, Suc n))\<rparr>"

definition cost_le :: "(('d \<times> nat, 'm) bus_state_scheme, 'a) state \<Rightarrow> nat \<Rightarrow> bool" where
  "cost_le m k \<longleftrightarrow> (\<forall>s. snd (dev (snd (run_state m s))) \<le> snd (dev s) + k)"

named_theorems cost_intros \<open>upper bounds on the port accesses of a driver routine\<close>

lemma cost_le_mono: "cost_le m a \<Longrightarrow> a \<le> b \<Longrightarrow> cost_le m b"
  unfolding cost_le_def using order_trans[OF _ add_left_mono] by blast

lemma cost_outb [cost_intros]: "cost_le (outb (counting B) p v) 1"
  by (simp add: cost_le_def counting_def split_beta)

lemma cost_inb [cost_intros]: "cost_le (inb (counting B) p) 1"
  by (simp add: cost_le_def counting_def split_beta)

lemma cost_io_wait [cost_intros]: "cost_le (io_wait (counting B)) 1"
  unfolding io_wait_def by (rule cost_outb)

lemma cost_return [cost_intros]: "cost_le (State_Monad.return x) 0"
  by (simp add: cost_le_def)

lemma cost_modify [cost_intros]: "(\<And>s. dev (f s) = dev s) \<Longrightarrow> cost_le (modify f) 0"
  by (simp add: cost_le_def)

lemma cost_gets [cost_intros]: "cost_le (gets f) 0"
  by (simp add: cost_le_def)

lemma cost_bind [cost_intros]:
  assumes "cost_le m a" "\<And>x. cost_le (f x) b"
  shows "cost_le (State_Monad.bind m f) (a + b)"
  unfolding cost_le_def
proof
  fix s
  obtain x s1 where m: "run_state m s = (x, s1)" by fastforce
  have "snd (dev s1) \<le> snd (dev s) + a" using assms(1) m unfolding cost_le_def by (metis snd_conv)
  moreover have "snd (dev (snd (run_state (f x) s1))) \<le> snd (dev s1) + b" using assms(2) unfolding cost_le_def by blast
  ultimately show "snd (dev (snd (run_state (State_Monad.bind m f) s))) \<le> snd (dev s) + (a + b)" using m by simp
qed

lemma cost_if [cost_intros]: "cost_le m a \<Longrightarrow> cost_le n b \<Longrightarrow> cost_le (if c then m else n) (max a b)"
  using cost_le_mono[of m a "max a b"] cost_le_mono[of n b "max a b"] by simp

end
