(* ===== verification/Memory_Types.thy ===== *)
theory Memory_Types
  imports Core_Types
begin

text \<open>
  \<open>memory/memory_types.hpp\<close> and \<open>memory/memory_layout.hpp\<close>: physical and virtual
  addresses, page frame numbers, page counts, page flags and the architectural
  layout constants.  The C++ wrapper classes hold one \<open>uint64_t\<close>, so an address is
  a \<open>u64\<close> here and each accessor is a function on it.
\<close>

section \<open>Addresses\<close>

definition is_page_aligned :: "u64 \<Rightarrow> bool" where
  "is_page_aligned addr = ((addr AND (PAGE_SIZE - 1)) = 0)"

definition is_direct_mapped :: "u64 \<Rightarrow> bool" where
  "is_direct_mapped addr = (addr < 0x80000000)"

definition addr_align_up :: "u64 \<Rightarrow> u64 \<Rightarrow> u64" where
  "addr_align_up addr alignment =
     (if alignment = 0 then addr
      else case align_up_checked addr alignment of None \<Rightarrow> - 1 | Some res \<Rightarrow> res)"

definition addr_align_down :: "u64 \<Rightarrow> u64 \<Rightarrow> u64" where
  "addr_align_down addr alignment =
     (if alignment = 0 then addr else addr - (addr mod alignment))"

definition to_higher_half :: "u64 \<Rightarrow> u64" where
  "to_higher_half addr = addr + KERNEL_VIRTUAL_BASE"

definition to_physical :: "u64 \<Rightarrow> u64" where
  "to_physical addr = addr - KERNEL_VIRTUAL_BASE"

definition is_canonical :: "u64 \<Rightarrow> bool" where
  "is_canonical addr = (let high_bits = drop_bit 47 addr in high_bits = 0 \<or> high_bits = 0x1FFFF)"

definition is_higher_half :: "u64 \<Rightarrow> bool" where
  "is_higher_half addr = (addr \<ge> 0xFFFF800000000000)"

definition pml4_index :: "u64 \<Rightarrow> nat" where
  "pml4_index addr = unat (drop_bit 39 addr AND 0x1FF)"

definition pdpt_index :: "u64 \<Rightarrow> nat" where
  "pdpt_index addr = unat (drop_bit 30 addr AND 0x1FF)"

definition pd_index :: "u64 \<Rightarrow> nat" where
  "pd_index addr = unat (drop_bit 21 addr AND 0x1FF)"

definition pt_index :: "u64 \<Rightarrow> nat" where
  "pt_index addr = unat (drop_bit 12 addr AND 0x1FF)"

definition page_offset :: "u64 \<Rightarrow> u64" where
  "page_offset addr = addr AND 0xFFF"

section \<open>Frames and page counts\<close>

definition pfn_from_address :: "u64 \<Rightarrow> u64" where
  "pfn_from_address addr = addr div PAGE_SIZE"

definition pfn_to_address :: "u64 \<Rightarrow> u64" where
  "pfn_to_address pfn = pfn * PAGE_SIZE"

definition pages_from_bytes :: "u64 \<Rightarrow> u64" where
  "pages_from_bytes bytes =
     (if bytes = 0 then 0
      else let whole_pages = bytes div PAGE_SIZE; rem = bytes mod PAGE_SIZE
           in whole_pages + (if rem \<noteq> 0 then 1 else 0))"

definition pages_to_bytes :: "u64 \<Rightarrow> u64" where
  "pages_to_bytes count = count * PAGE_SIZE"

section \<open>Page flags\<close>

definition PF_None :: u64 where "PF_None = 0"
definition PF_Present :: u64 where "PF_Present = push_bit 0 1"
definition PF_Writable :: u64 where "PF_Writable = push_bit 1 1"
definition PF_User :: u64 where "PF_User = push_bit 2 1"
definition PF_WriteThrough :: u64 where "PF_WriteThrough = push_bit 3 1"
definition PF_CacheDisable :: u64 where "PF_CacheDisable = push_bit 4 1"
definition PF_Accessed :: u64 where "PF_Accessed = push_bit 5 1"
definition PF_Dirty :: u64 where "PF_Dirty = push_bit 6 1"
definition PF_HugePage :: u64 where "PF_HugePage = push_bit 7 1"
definition PF_Global :: u64 where "PF_Global = push_bit 8 1"
definition PF_NoExecute :: u64 where "PF_NoExecute = push_bit 63 1"

definition test_flag :: "u64 \<Rightarrow> u64 \<Rightarrow> bool" where
  "test_flag val flag = ((val AND flag) = flag)"

lemmas page_flag_defs = PF_None_def PF_Present_def PF_Writable_def PF_User_def PF_WriteThrough_def
  PF_CacheDisable_def PF_Accessed_def PF_Dirty_def PF_HugePage_def PF_Global_def PF_NoExecute_def

section \<open>Layout constants\<close>

definition USER_SPACE_END :: u64 where "USER_SPACE_END = 0x0000800000000000"
definition DIRECT_MAP_PHYS_LIMIT :: u64 where "DIRECT_MAP_PHYS_LIMIT = 0x20000000"
definition MMIO_WINDOW_START :: u64 where "MMIO_WINDOW_START = 0xFFFFFFFFA0000000"
definition MMIO_WINDOW_END :: u64 where "MMIO_WINDOW_END = 0xFFFFFFFFC0000000"

section \<open>Alignment and page arithmetic\<close>

lemma addr_align_up_eq: "addr_align_up v a = align_up v a"
  by (simp add: addr_align_up_def align_up_def align_up_checked_def)

lemma addr_align_down_eq: "addr_align_down v a = align_down v a"
  by (simp add: addr_align_down_def align_down_def)

lemma unat_PAGE_SIZE [simp]: "unat PAGE_SIZE = 4096"
  by (simp add: PAGE_SIZE_def)

lemma PAGE_SIZE_nz [simp]: "PAGE_SIZE \<noteq> 0"
  by (simp add: PAGE_SIZE_def)

lemma page_mask_eq: "PAGE_SIZE - 1 = mask 12"
  by (simp add: PAGE_SIZE_def mask_eq_exp_minus_1)

lemma is_page_aligned_iff: "is_page_aligned a \<longleftrightarrow> 4096 dvd unat a"
  using and_mask_dvd_nat[of 12 a] by (simp add: is_page_aligned_def page_mask_eq)

lemma is_page_aligned_0 [simp]: "is_page_aligned 0"
  by (simp add: is_page_aligned_iff)

lemma page_round_down_eq: "x AND NOT (PAGE_SIZE - 1) = align_down x PAGE_SIZE"
proof -
  have "take_bit 12 x = x mod PAGE_SIZE"
    using and_low_mask_mod[of 12 x] by (simp add: take_bit_eq_mask PAGE_SIZE_def)
  then show ?thesis by (simp add: page_mask_eq and_not_mask_minus align_down_def)
qed

lemma unat_pfn_from_address: "unat (pfn_from_address a) = unat a div 4096"
  by (simp add: pfn_from_address_def unat_div_distrib)

lemma pfn_to_from [simp]:
  assumes "is_page_aligned a" shows "pfn_to_address (pfn_from_address a) = a"
proof -
  have d: "4096 dvd unat a" using assms by (simp add: is_page_aligned_iff)
  have "unat (pfn_to_address (pfn_from_address a)) = unat a div 4096 * 4096"
    unfolding pfn_to_address_def using unat_below[of a]
    by (subst unat_mult_nowrap) (simp_all add: unat_pfn_from_address div_times_less_eq_dividend
        order_le_less_trans)
  with d show ?thesis by (simp add: word_unat_eq_iff)
qed

lemma unat_pfn_to_address:
  "unat p < 2 ^ 52 \<Longrightarrow> unat (pfn_to_address p) = unat p * 4096"
  by (simp add: pfn_to_address_def unat_mult_nowrap)

lemma pfn_from_to:
  assumes "unat p < 2 ^ 52" shows "pfn_from_address (pfn_to_address p) = p"
  using assms by (simp add: word_unat_eq_iff unat_pfn_from_address unat_pfn_to_address)

lemma unat_pages_from_bytes: "unat (pages_from_bytes b) = (unat b + 4095) div 4096"
proof -
  have 1: "unat (b div PAGE_SIZE) = unat b div 4096" by (simp add: unat_div_distrib)
  have 2: "b mod PAGE_SIZE = 0 \<longleftrightarrow> unat b mod 4096 = 0"
    by (metis unat_PAGE_SIZE unat_eq_zero unat_mod_distrib)
  have 3: "unat b div 4096 + 1 < 2 ^ 64" using unat_below[of b] by simp
  have "unat (b div PAGE_SIZE + 1) = unat b div 4096 + 1"
    using 1 3 by (subst unat_add_nowrap) simp_all
  moreover have "(unat b + 4095) div 4096 = unat b div 4096 + (if unat b mod 4096 = 0 then 0 else 1)"
    by (simp add: div_add1_eq[of "unat b" 4095]) linarith
  ultimately show ?thesis using 1 2
    by (cases "b = 0") (simp_all add: pages_from_bytes_def Let_def)
qed

lemma phys_virt_roundtrip [simp]:
  "virt_to_phys (phys_to_virt a) = a" "phys_to_virt (virt_to_phys a) = a"
  "to_physical (to_higher_half a) = a" "to_higher_half (to_physical a) = a"
  by (simp_all add: virt_to_phys_def phys_to_virt_def to_physical_def to_higher_half_def)

section \<open>Table indices determine a canonical address\<close>

lemma unat_pml4_index: "pml4_index a = unat a div 2 ^ 39 mod 512"
  using unat_and_mask[of "drop_bit 39 a" 9] by (simp add: pml4_index_def low_mask_9 unat_drop_bit)

lemma unat_pdpt_index: "pdpt_index a = unat a div 2 ^ 30 mod 512"
  using unat_and_mask[of "drop_bit 30 a" 9] by (simp add: pdpt_index_def low_mask_9 unat_drop_bit)

lemma unat_pd_index: "pd_index a = unat a div 2 ^ 21 mod 512"
  using unat_and_mask[of "drop_bit 21 a" 9] by (simp add: pd_index_def low_mask_9 unat_drop_bit)

lemma unat_pt_index: "pt_index a = unat a div 2 ^ 12 mod 512"
  using unat_and_mask[of "drop_bit 12 a" 9] by (simp add: pt_index_def low_mask_9 unat_drop_bit)

lemma unat_page_offset: "unat (page_offset a) = unat a mod 4096"
  using unat_and_mask[of a 12] by (simp add: page_offset_def low_mask_12)

lemmas table_index_unat = unat_pml4_index unat_pdpt_index unat_pd_index unat_pt_index

lemma table_index_bound [simp]:
  "pml4_index a < 512" "pdpt_index a < 512" "pd_index a < 512" "pt_index a < 512"
  by (simp_all add: table_index_unat)

lemma is_canonical_iff:
  "is_canonical a \<longleftrightarrow> unat a < 2 ^ 47 \<or> 2 ^ 64 - 2 ^ 47 \<le> unat a"
proof -
  have "drop_bit 47 a = 0 \<longleftrightarrow> unat a div 2 ^ 47 = 0"
    by (metis unat_drop_bit unat_eq_zero)
  moreover have "drop_bit 47 a = 0x1FFFF \<longleftrightarrow> unat a div 2 ^ 47 = 0x1FFFF"
    by (simp add: word_unat_eq_iff unat_drop_bit)
  moreover have "unat a < 2 ^ 64" using unat_below[of a] by simp
  ultimately show ?thesis by (simp add: is_canonical_def Let_def) linarith
qed

lemma canonical_indices_inject:
  assumes "is_canonical a" "is_canonical b"
    and "pml4_index a = pml4_index b" "pdpt_index a = pdpt_index b"
    and "pd_index a = pd_index b" "pt_index a = pt_index b"
    and "page_offset a = page_offset b"
  shows "a = b"
proof -
  define x y where "x = unat a" and "y = unat b"
  have lt: "x < 2 ^ 64" "y < 2 ^ 64" using unat_below[of a] unat_below[of b] by (simp_all add: x_def y_def)
  have c: "x < 2 ^ 47 \<or> 2 ^ 64 - 2 ^ 47 \<le> x" "y < 2 ^ 47 \<or> 2 ^ 64 - 2 ^ 47 \<le> y"
    using assms(1,2) by (simp_all add: is_canonical_iff x_def y_def)
  have o: "x mod 4096 = y mod 4096" using assms(7) by (metis unat_page_offset x_def y_def)
  have i: "x div 2 ^ 39 mod 512 = y div 2 ^ 39 mod 512" "x div 2 ^ 30 mod 512 = y div 2 ^ 30 mod 512"
    "x div 2 ^ 21 mod 512 = y div 2 ^ 21 mod 512" "x div 2 ^ 12 mod 512 = y div 2 ^ 12 mod 512"
    using assms(3-6) by (simp_all add: table_index_unat x_def y_def)
  have "x mod (4096 * 512 * 512 * 512 * 512) = y mod (4096 * 512 * 512 * 512 * 512)"
    using i o by (intro mod_digits) simp_all
  then have m: "x mod 2 ^ 48 = y mod 2 ^ 48" by simp
  have r: "z mod 2 ^ 48 = (if z < 2 ^ 47 then z else z - (2 ^ 64 - 2 ^ 48))"
    if "z < 2 ^ 47 \<or> 2 ^ 64 - 2 ^ 47 \<le> z" "z < 2 ^ 64" for z :: nat
  proof (cases "z < 2 ^ 47")
    case False
    then have "z = (2 ^ 64 - 2 ^ 48) + (z - (2 ^ 64 - 2 ^ 48))" and "z - (2 ^ 64 - 2 ^ 48) < 2 ^ 48"
      using that by simp_all
    then have "z mod 2 ^ 48 = ((2 ^ 16 - 1) * 2 ^ 48 + (z - (2 ^ 64 - 2 ^ 48))) mod 2 ^ 48" by simp
    also have "\<dots> = z - (2 ^ 64 - 2 ^ 48)"
      using \<open>z - (2 ^ 64 - 2 ^ 48) < 2 ^ 48\<close> by (subst mod_mult_self3) simp
    finally show ?thesis using False by simp
  qed simp
  have "x = y" using m r[OF c(1) lt(1)] r[OF c(2) lt(2)] c lt by (auto split: if_splits)
  then show ?thesis by (simp add: x_def y_def word_unat_eq_iff)
qed

end
