(* ===== verification/Boot_Info.thy ===== *)
theory Boot_Info
  imports Memory_Types
begin

text \<open>
  \<open>boot/boot_info.hpp\<close> and \<open>boot/boot_info.cpp\<close>: the bootloader-independent boot
  information record handed to the memory managers, and its two range queries.
  Character arrays are NUL-free strings together with their capacity; the entry
  array is the list of its first \<open>mmap_count\<close> entries.
\<close>

definition MAX_CMDLINE_LEN :: nat where "MAX_CMDLINE_LEN = 256"
definition MAX_LOADER_NAME_LEN :: nat where "MAX_LOADER_NAME_LEN = 64"
definition MAX_MEMORY_REGIONS :: nat where "MAX_MEMORY_REGIONS = 64"

definition MT_Available :: u32 where "MT_Available = 1"
definition MT_Reserved :: u32 where "MT_Reserved = 2"
definition MT_AcpiReclaimable :: u32 where "MT_AcpiReclaimable = 3"
definition MT_Nvs :: u32 where "MT_Nvs = 4"
definition MT_BadRam :: u32 where "MT_BadRam = 5"

lemmas memory_type_defs = MT_Available_def MT_Reserved_def MT_AcpiReclaimable_def MT_Nvs_def MT_BadRam_def

record memory_map_entry =
  base_addr :: u64
  entry_length :: u64
  entry_type :: u32

text \<open>A colour field is the pair of its position and its mask size.\<close>

record framebuffer_info =
  fb_valid :: bool
  fb_address :: u64
  fb_pitch :: u32
  fb_width :: u32
  fb_height :: u32
  fb_bpp :: u8
  fb_type :: u8
  fb_red :: "u8 \<times> u8"
  fb_green :: "u8 \<times> u8"
  fb_blue :: "u8 \<times> u8"
  fb_total_size :: u64

record acpi_info =
  acpi_valid :: bool
  acpi_is_v2 :: bool
  acpi_revision :: u8
  acpi_oem_id :: "u8 list"
  acpi_copy_addr :: u64
  acpi_length :: u32
  acpi_rsdt :: u32
  acpi_xsdt :: u64

record efi_info =
  efi_present :: bool
  efi_valid :: bool
  efi_is_physical :: bool
  efi_is_firmware_owned :: bool
  efi_system_table :: u64

record boot_information =
  bi_valid :: bool
  mmap_truncated :: bool
  usable_ram_overflow :: bool
  command_line :: "u8 list"
  bootloader_name :: "u8 list"
  mem_lower_kb :: u32
  mem_upper_kb :: u32
  total_usable_ram_bytes :: u64
  total_mmap_entries_detected :: nat
  mmap_entries :: "memory_map_entry list"
  framebuffer :: framebuffer_info
  acpi :: acpi_info
  efi :: efi_info
  mb2_info_paddr :: u64
  mb2_info_total_size :: u32

section \<open>Range queries\<close>

text \<open>The linker symbols \<open>_kernel_physical_start/end\<close> are parameters.\<close>

definition is_in_kernel_image :: "u64 \<Rightarrow> u64 \<Rightarrow> u64 \<Rightarrow> u64 \<Rightarrow> bool" where
  "is_in_kernel_image kstart kend paddr len =
     (let rstart = paddr; rend = paddr + len in rstart < kend \<and> rend > kstart)"

definition is_in_multiboot_info :: "boot_information \<Rightarrow> u64 \<Rightarrow> u64 \<Rightarrow> bool" where
  "is_in_multiboot_info bi paddr len =
     (if mb2_info_paddr bi = 0 \<or> mb2_info_total_size bi = 0 then False
      else let mstart = mb2_info_paddr bi;
               mend = mb2_info_paddr bi + ucast (mb2_info_total_size bi);
               rstart = paddr; rend = paddr + len
           in rstart < mend \<and> rend > mstart)"

end
