(* ===== verification/Reserved_Regions.thy ===== *)
theory Reserved_Regions
  imports Boot_Info "HOL-Library.Multiset"
begin

text \<open>
  \<open>memory/reserved_regions.{hpp,cpp}\<close>: the tracker of reserved and available
  physical ranges and the normalisation of the raw firmware map into sorted,
  disjoint, page-aligned intervals in which reservations take precedence.  A
  fixed array with its count is the list of the entries in use.
\<close>

section \<open>Records and queries of one region\<close>

record region =
  r_start :: u64
  r_end :: u64
  r_length :: u64
  r_type :: u32
  r_name :: string

record reserved_tracker =
  m_raw_regions :: "region list"
  m_regions :: "region list"

definition MAX_REGIONS :: nat where "MAX_REGIONS = 128"

definition region_is_available :: "region \<Rightarrow> bool" where
  "region_is_available r = (r_type r = MT_Available)"

definition region_is_reserved :: "region \<Rightarrow> bool" where
  "region_is_reserved r = (\<not> region_is_available r)"

definition region_contains :: "region \<Rightarrow> u64 \<Rightarrow> bool" where
  "region_contains r addr = (addr \<ge> r_start r \<and> addr < r_end r)"

definition region_overlaps :: "region \<Rightarrow> u64 \<Rightarrow> u64 \<Rightarrow> bool" where
  "region_overlaps r range_start range_len =
     (if range_len = 0 \<or> r_length r = 0 then False
      else let range_end = range_start + range_len
           in r_start r < range_end \<and> r_end r > range_start)"

section \<open>Normalisation\<close>

definition push_capped :: "region list \<Rightarrow> region \<Rightarrow> region list" where
  "push_capped acc x = (if length acc < MAX_REGIONS then acc @ [x] else acc)"

definition page_round_up :: "u64 \<Rightarrow> u64" where
  "page_round_up e = (e + PAGE_SIZE - 1) AND NOT (PAGE_SIZE - 1)"

definition align_reserved :: "region \<Rightarrow> region option" where
  "align_reserved raw =
     (let s = addr_align_down (r_start raw) PAGE_SIZE;
          end_raw = r_start raw + r_length raw;
          e = page_round_up end_raw
      in if e > s then Some (raw\<lparr>r_start := s, r_end := e, r_length := e - s\<rparr>) else None)"

definition align_available :: "region \<Rightarrow> region option" where
  "align_available raw =
     (let s = addr_align_up (r_start raw) PAGE_SIZE;
          e = addr_align_down (r_start raw + r_length raw) PAGE_SIZE
      in if e > s then Some (raw\<lparr>r_start := s, r_end := e, r_length := e - s\<rparr>) else None)"

fun split_step :: "region list \<times> region list \<Rightarrow> region \<Rightarrow> region list \<times> region list" where
  "split_step (res, avail) raw =
     (if r_length raw = 0 then (res, avail)
      else if r_start raw > - 1 - r_length raw then (res, avail)
      else if region_is_reserved raw then
        (case align_reserved raw of None \<Rightarrow> (res, avail) | Some r \<Rightarrow> (push_capped res r, avail))
      else
        (case align_available raw of None \<Rightarrow> (res, avail) | Some r \<Rightarrow> (res, push_capped avail r)))"

text \<open>One inner bubble pass performs the first \<open>k\<close> adjacent compare-and-swaps; the
  outer loop runs the passes of length \<open>n - 1, \<dots>, 1\<close>.\<close>

fun bubble_pass :: "nat \<Rightarrow> region list \<Rightarrow> region list" where
  "bubble_pass (Suc k) (x # y # xs) =
     (if r_start x > r_start y then y # bubble_pass k (x # xs) else x # bubble_pass k (y # xs))"
| "bubble_pass _ xs = xs"

fun bubble_from :: "nat \<Rightarrow> region list \<Rightarrow> region list" where
  "bubble_from 0 xs = xs"
| "bubble_from (Suc k) xs = bubble_from k (bubble_pass (Suc k) xs)"

definition bubble_sort :: "region list \<Rightarrow> region list" where
  "bubble_sort xs = bubble_from (length xs - 1) xs"

text \<open>The merge loops keep the merged prefix with its last entry (\<open>prev\<close>) first.\<close>

definition extend_to :: "region \<Rightarrow> region \<Rightarrow> region" where
  "extend_to prev cur = prev\<lparr>r_end := r_end cur, r_length := r_end cur - r_start prev\<rparr>"

fun merge_res_step :: "region \<Rightarrow> region list \<Rightarrow> region list" where
  "merge_res_step cur [] = [cur]"
| "merge_res_step cur (prev # before) =
     (if r_end prev > r_start cur then
        (if r_end cur > r_end prev then extend_to prev cur # before else prev # before)
      else if r_end prev = r_start cur \<and> r_type prev = r_type cur \<and> r_name prev = r_name cur then
        extend_to prev cur # before
      else if length (prev # before) < MAX_REGIONS then cur # prev # before
      else prev # before)"

fun merge_avail_step :: "region \<Rightarrow> region list \<Rightarrow> region list" where
  "merge_avail_step cur [] = [cur]"
| "merge_avail_step cur (prev # before) =
     (if r_end prev \<ge> r_start cur then
        (if r_end cur > r_end prev then extend_to prev cur # before else prev # before)
      else if length (prev # before) < MAX_REGIONS then cur # prev # before
      else prev # before)"

definition merge_res :: "region list \<Rightarrow> region list" where
  "merge_res xs = rev (fold merge_res_step xs [])"

definition merge_avail :: "region list \<Rightarrow> region list" where
  "merge_avail xs = rev (fold merge_avail_step xs [])"

definition clip :: "region \<Rightarrow> region \<Rightarrow> region list" where
  "clip res av =
     (if r_end res \<le> r_start av \<or> r_start res \<ge> r_end av then [av]
      else (if r_start av < r_start res
            then [av\<lparr>r_end := r_start res, r_length := r_start res - r_start av\<rparr>] else [])
         @ (if r_end res < r_end av
            then [av\<lparr>r_start := r_end res, r_length := r_end av - r_end res\<rparr>] else []))"

definition subtract_one :: "region \<Rightarrow> region list \<Rightarrow> region list" where
  "subtract_one res avs = foldl (\<lambda>next_avail av. foldl push_capped next_avail (clip res av)) [] avs"

definition subtract_all :: "region list \<Rightarrow> region list \<Rightarrow> region list" where
  "subtract_all ress avs = fold subtract_one ress avs"

definition normalized :: "region list \<Rightarrow> region list" where
  "normalized raws =
     (if raws = [] then []
      else let (res_temp, avail_temp) = foldl split_step ([], []) raws;
               merged_res = merge_res (bubble_sort res_temp);
               merged_avail = merge_avail (bubble_sort avail_temp);
               current_avail = subtract_all merged_res merged_avail
           in bubble_sort (foldl push_capped (foldl push_capped [] merged_res) current_avail))"

definition normalize :: "reserved_tracker \<Rightarrow> reserved_tracker" where
  "normalize t = t\<lparr>m_regions := normalized (m_raw_regions t)\<rparr>"

section \<open>Operations of the tracker\<close>

definition add_region :: "reserved_tracker \<Rightarrow> u64 \<Rightarrow> u64 \<Rightarrow> u32 \<Rightarrow> string option \<Rightarrow> bool \<times> reserved_tracker" where
  "add_region t start len type name =
     (if len = 0 \<or> length (m_raw_regions t) \<ge> MAX_REGIONS then (False, t)
      else (True, normalize (t\<lparr>m_raw_regions := m_raw_regions t @
        [\<lparr>r_start = start, r_end = start + len, r_length = len, r_type = type,
          r_name = (case name of None \<Rightarrow> ''Unknown'' | Some n \<Rightarrow> n)\<rparr>]\<rparr>)))"

definition mmap_desc :: "u32 \<Rightarrow> string" where
  "mmap_desc type =
     (if type = MT_Available then ''Available Usable RAM''
      else if type = MT_AcpiReclaimable then ''ACPI Reclaimable Memory''
      else if type = MT_Nvs then ''ACPI Non-Volatile Storage (NVS)''
      else if type = MT_BadRam then ''Defective BadRAM''
      else ''Firmware Reserved'')"

definition mmap_record :: "memory_map_entry \<Rightarrow> region" where
  "mmap_record entry =
     \<lparr>r_start = base_addr entry, r_end = base_addr entry + entry_length entry,
      r_length = entry_length entry, r_type = entry_type entry, r_name = mmap_desc (entry_type entry)\<rparr>"

fun import_mmap :: "region list \<Rightarrow> memory_map_entry list \<Rightarrow> region list" where
  "import_mmap raws [] = raws"
| "import_mmap raws (entry # rest) =
     (if length raws < MAX_REGIONS then
        (if entry_length entry = 0 then import_mmap raws rest
         else import_mmap (raws @ [mmap_record entry]) rest)
      else raws)"

definition aligned_reservation :: "u64 \<Rightarrow> u64 \<Rightarrow> string \<Rightarrow> region" where
  "aligned_reservation paddr sz nm =
     (let s = addr_align_down paddr PAGE_SIZE; e = page_round_up (paddr + sz)
      in \<lparr>r_start = s, r_end = e, r_length = e - s, r_type = MT_Reserved, r_name = nm\<rparr>)"

definition populate :: "reserved_tracker \<Rightarrow> boot_information \<Rightarrow> u64 \<Rightarrow> u64 \<Rightarrow> u64 \<Rightarrow> u64 \<Rightarrow> reserved_tracker" where
  "populate t bi kernel_start kernel_end mb2_paddr mb2_size =
     (let low = [\<lparr>r_start = 0, r_end = 0x100000, r_length = 0x100000, r_type = MT_Reserved,
                  r_name = ''Low Memory (IVT/BDA/EBDA/VRAM)''\<rparr>];
          kernel = (if kernel_end > kernel_start then
            [\<lparr>r_start = kernel_start, r_end = kernel_end, r_length = kernel_end - kernel_start,
              r_type = MT_Reserved, r_name = ''Kernel Physical Image''\<rparr>] else []);
          mb2 = (if mb2_paddr \<noteq> 0 \<and> mb2_size > 0 then
            [aligned_reservation mb2_paddr mb2_size ''Multiboot2 Information Block''] else [])
      in normalize (t\<lparr>m_raw_regions := import_mmap (low @ kernel @ mb2) (mmap_entries bi),
                      m_regions := []\<rparr>))"

definition register_pmm_bitmap :: "reserved_tracker \<Rightarrow> u64 \<Rightarrow> u64 \<Rightarrow> bool \<times> reserved_tracker" where
  "register_pmm_bitmap t bitmap_start bitmap_size =
     (if bitmap_size = 0 \<or> length (m_raw_regions t) \<ge> MAX_REGIONS then (False, t)
      else (True, normalize (t\<lparr>m_raw_regions := m_raw_regions t @
        [aligned_reservation bitmap_start bitmap_size ''PMM Allocation Bitmap'']\<rparr>)))"

fun is_reserved_in :: "region list \<Rightarrow> u64 \<Rightarrow> bool" where
  "is_reserved_in [] addr = True"
| "is_reserved_in (r # rs) addr =
     (if region_contains r addr then region_is_reserved r else is_reserved_in rs addr)"

definition is_reserved :: "reserved_tracker \<Rightarrow> u64 \<Rightarrow> bool" where
  "is_reserved t addr = is_reserved_in (m_regions t) addr"

definition overlaps_reserved :: "reserved_tracker \<Rightarrow> u64 \<Rightarrow> u64 \<Rightarrow> bool" where
  "overlaps_reserved t start len =
     (if len = 0 then False
      else if start > - 1 - len then True
      else list_ex (\<lambda>r. region_is_reserved r \<and> region_overlaps r start len) (m_regions t))"

definition is_range_available :: "reserved_tracker \<Rightarrow> u64 \<Rightarrow> u64 \<Rightarrow> bool" where
  "is_range_available t start len =
     (if len = 0 then False
      else if start > - 1 - len then False
      else let e = start + len in
        list_ex (\<lambda>r. region_is_available r \<and> r_start r \<le> start \<and> r_end r \<ge> e) (m_regions t))"

section \<open>Intervals\<close>

text \<open>\<open>ival r\<close> is the set of addresses of a region, \<open>separated\<close> the order the
  normalised list keeps: every region non-empty and ending before the next starts.\<close>

definition ival :: "region \<Rightarrow> u64 set" where
  "ival r = {a. r_start r \<le> a \<and> a < r_end r}"

definition cover :: "region list \<Rightarrow> u64 set" where
  "cover rs = (\<Union>r\<in>set rs. ival r)"

definition wf_region :: "region \<Rightarrow> bool" where
  "wf_region r = (r_start r < r_end r \<and> r_length r = r_end r - r_start r
     \<and> is_page_aligned (r_start r) \<and> is_page_aligned (r_end r))"

definition separated :: "region list \<Rightarrow> bool" where
  "separated rs = sorted_wrt (\<lambda>a b. r_end a \<le> r_start b) rs"

lemma region_contains_ival: "region_contains r a \<longleftrightarrow> a \<in> ival r"
  by (auto simp: region_contains_def ival_def)

lemma cover_simps [simp]:
  "cover [] = {}" "cover (r # rs) = ival r \<union> cover rs" "cover (xs @ ys) = cover xs \<union> cover ys"
  "cover (rev xs) = cover xs"
  by (auto simp: cover_def)

lemma cover_mset: "mset xs = mset ys \<Longrightarrow> cover xs = cover ys"
  unfolding cover_def by (drule mset_eq_setD) simp

section \<open>Capped appends\<close>

lemma foldl_push_capped:
  "length acc \<le> MAX_REGIONS \<Longrightarrow> foldl push_capped acc xs = take MAX_REGIONS (acc @ xs)"
proof (induction xs arbitrary: acc)
  case (Cons x xs)
  show ?case
  proof (cases "length acc < MAX_REGIONS")
    case True
    then have "foldl push_capped acc (x # xs) = foldl push_capped (acc @ [x]) xs"
      by (simp add: push_capped_def)
    with True Cons.IH[of "acc @ [x]"] show ?thesis by (simp only: append_assoc) simp
  next
    case False
    then have "foldl push_capped acc (x # xs) = foldl push_capped acc xs"
      by (simp add: push_capped_def)
    with False Cons show ?thesis by simp
  qed
qed simp

lemma foldl_push_capped_concat:
  "length acc \<le> MAX_REGIONS \<Longrightarrow>
   foldl (\<lambda>n a. foldl push_capped n (f a)) acc as = take MAX_REGIONS (acc @ concat (map f as))"
proof (induction as arbitrary: acc)
  case (Cons a as)
  then show ?case
    by (cases "length (f a) \<le> MAX_REGIONS - length acc") (simp_all add: foldl_push_capped Cons.IH)
qed simp

lemma subtract_one_eq: "subtract_one r avs = take MAX_REGIONS (concat (map (clip r) avs))"
  by (simp add: subtract_one_def foldl_push_capped_concat)

section \<open>Sorting\<close>

lemma mset_bubble_pass [simp]: "mset (bubble_pass k xs) = mset xs"
  by (induction k xs rule: bubble_pass.induct) auto

lemma length_bubble_pass [simp]: "length (bubble_pass k xs) = length xs"
  by (metis mset_bubble_pass size_mset)

lemma mset_bubble_from [simp]: "mset (bubble_from k xs) = mset xs"
  by (induction k arbitrary: xs) simp_all

lemma mset_bubble_sort [simp]: "mset (bubble_sort xs) = mset xs"
  by (simp add: bubble_sort_def)

lemma set_bubble_sort [simp]: "set (bubble_sort xs) = set xs"
  by (metis mset_bubble_sort set_mset_mset)

lemma length_bubble_sort [simp]: "length (bubble_sort xs) = length xs"
  by (metis mset_bubble_sort size_mset)

text \<open>A pass of length \<open>k\<close> leaves the tail beyond \<open>k + 1\<close> alone and moves a maximum
  of the first \<open>k + 1\<close> entries to position \<open>k\<close>.\<close>

lemma bubble_pass_shape:
  "k < length xs \<Longrightarrow> \<exists>ys m. bubble_pass k xs = ys @ m # drop (Suc k) xs \<and> length ys = k
     \<and> mset (ys @ [m]) = mset (take (Suc k) xs) \<and> (\<forall>y\<in>set ys. r_start y \<le> r_start m)"
proof (induction k xs rule: bubble_pass.induct)
  case (1 k x y xs)
  show ?case
  proof (cases "r_start x > r_start y")
    case True
    then obtain ys m where *: "bubble_pass k (x # xs) = ys @ m # drop (Suc k) (x # xs)" "length ys = k"
      "mset (ys @ [m]) = mset (take (Suc k) (x # xs))" "\<forall>z\<in>set ys. r_start z \<le> r_start m"
      using 1 by auto
    have "x \<in> set (ys @ [m])" using *(3) by (metis set_mset_mset take_Suc_Cons list.set_intros(1))
    then have "r_start x \<le> r_start m" using *(4) by auto
    then show ?thesis using True * by (intro exI[of _ "y # ys"] exI[of _ m]) auto
  next
    case False
    then obtain ys m where *: "bubble_pass k (y # xs) = ys @ m # drop (Suc k) (y # xs)" "length ys = k"
      "mset (ys @ [m]) = mset (take (Suc k) (y # xs))" "\<forall>z\<in>set ys. r_start z \<le> r_start m"
      using 1 by auto
    have "y \<in> set (ys @ [m])" using *(3) by (metis set_mset_mset take_Suc_Cons list.set_intros(1))
    then have "r_start y \<le> r_start m" using *(4) by auto
    then show ?thesis using False * by (intro exI[of _ "x # ys"] exI[of _ m]) auto
  qed
qed (auto simp: neq_Nil_conv)

lemma bubble_from_sorted:
  assumes "k < length xs" and "sorted (map r_start (drop (Suc k) xs))"
    and "\<forall>x\<in>set (take (Suc k) xs). \<forall>y\<in>set (drop (Suc k) xs). r_start x \<le> r_start y"
  shows "sorted (map r_start (bubble_from k xs))"
  using assms
proof (induction k arbitrary: xs)
  case 0
  then show ?case by (cases xs) auto
next
  case (Suc k)
  obtain ys m where *: "bubble_pass (Suc k) xs = ys @ m # drop (Suc (Suc k)) xs" "length ys = Suc k"
    "mset (ys @ [m]) = mset (take (Suc (Suc k)) xs)" "\<forall>y\<in>set ys. r_start y \<le> r_start m"
    using bubble_pass_shape[OF Suc.prems(1)] by blast
  have s: "set ys \<union> {m} = set (take (Suc (Suc k)) xs)"
    using *(3) by (metis set_mset_mset set_append list.set(1,2))
  show ?case unfolding bubble_from.simps
    using Suc.prems *(2,4) s by (intro Suc.IH) (auto simp: *(1))
qed

lemma sorted_bubble_sort: "sorted (map r_start (bubble_sort xs))"
  by (cases "xs = []") (auto simp: bubble_sort_def intro!: bubble_from_sorted)

section \<open>Separating the raw entries\<close>

definition raw_valid :: "region \<Rightarrow> bool" where
  "raw_valid raw = (r_length raw \<noteq> 0 \<and> \<not> (r_start raw > - 1 - r_length raw))"

definition res_of :: "region \<Rightarrow> region option" where
  "res_of raw = (if raw_valid raw \<and> region_is_reserved raw then align_reserved raw else None)"

definition avail_of :: "region \<Rightarrow> region option" where
  "avail_of raw = (if raw_valid raw \<and> region_is_available raw then align_available raw else None)"

lemma foldl_split_step:
  "foldl split_step (res, av) raws =
     (foldl push_capped res (List.map_filter res_of raws), foldl push_capped av (List.map_filter avail_of raws))"
proof (induction raws arbitrary: res av)
  case (Cons raw raws)
  then show ?case
    by (auto simp: map_filter_simps res_of_def avail_of_def raw_valid_def region_is_reserved_def
        split: option.splits)
qed simp

lemma length_map_filter_le: "length (List.map_filter f xs) \<le> length xs"
  by (induction xs) (auto simp: map_filter_simps split: option.splits)

lemma length_map_filter_eq: "length (List.map_filter f xs) = length (filter (\<lambda>x. f x \<noteq> None) xs)"
  by (induction xs) (auto simp: map_filter_simps split: option.splits)

lemma set_map_filter_iff: "y \<in> set (List.map_filter f xs) \<longleftrightarrow> (\<exists>x\<in>set xs. f x = Some y)"
  by (induction xs) (auto simp: map_filter_simps split: option.splits)

lemma is_page_aligned_align_down: "is_page_aligned (align_down x PAGE_SIZE)"
  using align_down_dvd[of PAGE_SIZE x] by (simp add: is_page_aligned_iff)

lemma page_round_up_eq: "page_round_up e = align_down (e + 4095) PAGE_SIZE"
proof -
  have *: "e + PAGE_SIZE - 1 = e + 4095" by (simp add: PAGE_SIZE_def)
  show ?thesis unfolding page_round_up_def page_round_down_eq * ..
qed

lemma res_of_SomeD:
  assumes "res_of raw = Some r"
  shows "wf_region r" "region_is_reserved r"
    "r_start r = align_down (r_start raw) PAGE_SIZE"
    "r_end r = align_down (r_start raw + r_length raw + 4095) PAGE_SIZE"
  using assms
  by (auto simp: res_of_def align_reserved_def Let_def wf_region_def addr_align_down_eq page_round_up_eq
      is_page_aligned_align_down region_is_reserved_def region_is_available_def split: if_splits)

lemma avail_of_SomeD:
  assumes "avail_of raw = Some r"
  shows "wf_region r" "region_is_available r"
    "r_start r = align_up (r_start raw) PAGE_SIZE"
    "r_end r = align_down (r_start raw + r_length raw) PAGE_SIZE"
    "ival r \<subseteq> {a. r_start raw \<le> a \<and> unat a < unat (r_start raw) + unat (r_length raw)}"
proof -
  let ?s = "align_up (r_start raw) PAGE_SIZE" and ?e = "align_down (r_start raw + r_length raw) PAGE_SIZE"
  have v: "raw_valid raw" "region_is_available raw" and lt: "?s < ?e"
    and r: "r = raw\<lparr>r_start := ?s, r_end := ?e, r_length := ?e - ?s\<rparr>"
    using assms by (auto simp: avail_of_def align_available_def Let_def addr_align_down_eq
        addr_align_up_eq split: if_splits)
  have "?s \<noteq> - 1" using lt by (metis not_less word_order.extremum)
  then have "align_up_checked (r_start raw) PAGE_SIZE = Some ?s"
    by (auto simp: align_up_def split: option.splits)
  note s = align_up_checked_Some[OF this PAGE_SIZE_nz]
  have "unat (r_start raw) + unat (r_length raw) < 2 ^ 64"
    using v(1) by (simp add: raw_valid_def word_le_max_minus not_le)
  then have "unat (r_start raw + r_length raw) = unat (r_start raw) + unat (r_length raw)"
    by (simp add: unat_add_nowrap)
  moreover have "?e \<le> r_start raw + r_length raw" by (rule align_down_le)
  ultimately show "ival r \<subseteq> {a. r_start raw \<le> a \<and> unat a < unat (r_start raw) + unat (r_length raw)}"
    using s(1) r by (auto simp: ival_def word_le_nat_alt word_less_nat_alt)
  show "wf_region r" "region_is_available r" "r_start r = ?s" "r_end r = ?e"
    using r lt s(2) v(2) is_page_aligned_align_down[of "r_start raw + r_length raw"]
    by (auto simp: wf_region_def is_page_aligned_iff region_is_available_def)
qed

section \<open>Merging\<close>

text \<open>Both merge loops consume a list sorted by start address and treat the entry
  after \<open>prev\<close> in one of three ways; what they guarantee follows from that alone.\<close>

definition merge_inv :: "region list \<Rightarrow> bool" where
  "merge_inv acc = (sorted_wrt (\<lambda>a b. r_end b \<le> r_start a) acc \<and> (\<forall>r\<in>set acc. wf_region r))"

locale merge_loop =
  fixes step :: "region \<Rightarrow> region list \<Rightarrow> region list"
  assumes step_nil: "step cur [] = [cur]"
    and step_cons: "\<lbrakk>r_start prev \<le> r_start cur; r_start cur < r_end cur; length (prev # before) < MAX_REGIONS\<rbrakk> \<Longrightarrow>
      (step cur (prev # before) = extend_to prev cur # before \<and> r_start cur \<le> r_end prev \<and> r_end prev \<le> r_end cur)
      \<or> (step cur (prev # before) = prev # before \<and> r_start cur \<le> r_end prev \<and> r_end cur \<le> r_end prev)
      \<or> (step cur (prev # before) = cur # prev # before \<and> r_end prev \<le> r_start cur)"
begin

lemma step_inv:
  assumes "merge_inv acc" "wf_region cur" "length acc < MAX_REGIONS"
    and "acc \<noteq> [] \<Longrightarrow> r_start (hd acc) \<le> r_start cur"
  shows "merge_inv (step cur acc) \<and> cover (step cur acc) = cover acc \<union> ival cur
    \<and> length (step cur acc) \<le> Suc (length acc) \<and> step cur acc \<noteq> []
    \<and> r_start (hd (step cur acc)) \<le> r_start cur
    \<and> r_type ` set (step cur acc) \<subseteq> insert (r_type cur) (r_type ` set acc)"
proof (cases acc)
  case Nil
  then show ?thesis using assms by (simp add: step_nil merge_inv_def)
next
  case (Cons prev before)
  have c: "r_start cur < r_end cur" "r_start prev \<le> r_start cur"
    using assms Cons by (auto simp: wf_region_def)
  have p: "wf_region prev" using assms Cons by (simp add: merge_inv_def)
  from step_cons[OF c(2,1), of before] assms(3) Cons
  consider "step cur acc = extend_to prev cur # before" "r_start cur \<le> r_end prev" "r_end prev \<le> r_end cur"
    | "step cur acc = acc" "r_start cur \<le> r_end prev" "r_end cur \<le> r_end prev"
    | "step cur acc = cur # acc" "r_end prev \<le> r_start cur" by auto
  then show ?thesis
  proof cases
    case 1
    have "ival (extend_to prev cur) = ival prev \<union> ival cur"
      using 1 c p by (auto simp: ival_def extend_to_def wf_region_def)
    moreover have "wf_region (extend_to prev cur)"
      using 1 c p assms(2) by (auto simp: extend_to_def wf_region_def)
    ultimately show ?thesis using 1 c assms Cons by (auto simp: merge_inv_def extend_to_def)
  next
    case 2
    have "ival cur \<subseteq> ival prev" using 2 c by (auto simp: ival_def)
    then show ?thesis using 2 c assms Cons by auto
  next
    case 3
    have "r_end b \<le> r_start cur" if "b \<in> set before" for b
    proof -
      have "r_end b \<le> r_start prev" using assms(1) Cons that by (simp add: merge_inv_def)
      then show ?thesis using c(2) by simp
    qed
    then show ?thesis using 3 c assms Cons by (auto simp: merge_inv_def)
  qed
qed

lemma fold_inv:
  assumes "merge_inv acc" "\<forall>r\<in>set xs. wf_region r" "sorted (map r_start xs)"
    and "length acc + length xs \<le> MAX_REGIONS"
    and "acc \<noteq> [] \<Longrightarrow> \<forall>r\<in>set xs. r_start (hd acc) \<le> r_start r"
  shows "merge_inv (fold step xs acc) \<and> cover (fold step xs acc) = cover acc \<union> cover xs
    \<and> length (fold step xs acc) \<le> length acc + length xs
    \<and> r_type ` set (fold step xs acc) \<subseteq> r_type ` set xs \<union> r_type ` set acc"
  using assms
proof (induction xs arbitrary: acc)
  case (Cons x xs)
  have s: "merge_inv (step x acc)" "cover (step x acc) = cover acc \<union> ival x"
    "length (step x acc) \<le> Suc (length acc)" "step x acc \<noteq> []"
    "r_start (hd (step x acc)) \<le> r_start x"
    "r_type ` set (step x acc) \<subseteq> insert (r_type x) (r_type ` set acc)"
    using step_inv[of acc x] Cons.prems by auto
  have h: "\<forall>r\<in>set xs. r_start (hd (step x acc)) \<le> r_start r"
    using s(5) Cons.prems(3) by fastforce
  have f: "merge_inv (fold step xs (step x acc)) \<and> cover (fold step xs (step x acc)) = cover (step x acc) \<union> cover xs
    \<and> length (fold step xs (step x acc)) \<le> length (step x acc) + length xs
    \<and> r_type ` set (fold step xs (step x acc)) \<subseteq> r_type ` set xs \<union> r_type ` set (step x acc)"
    using s h Cons.prems by (intro Cons.IH) auto
  then have "r_type ` set (fold step xs (step x acc)) \<subseteq> r_type ` set (x # xs) \<union> r_type ` set acc"
    using s(6) by (simp only: list.set image_insert) blast
  then show ?case using f s(2,3) by auto
qed simp

lemma merge_sorted:
  assumes "\<forall>r\<in>set xs. wf_region r" "sorted (map r_start xs)" "length xs \<le> MAX_REGIONS"
  shows "separated (rev (fold step xs []))" "\<forall>r\<in>set (fold step xs []). wf_region r"
    "cover (fold step xs []) = cover xs" "length (fold step xs []) \<le> length xs"
    "r_type ` set (fold step xs []) \<subseteq> r_type ` set xs"
  using fold_inv[of "[]" xs] assms
  by (auto simp: merge_inv_def separated_def sorted_wrt_rev)

end

interpretation mres: merge_loop merge_res_step
  by unfold_locales (auto simp: not_less)

interpretation mavail: merge_loop merge_avail_step
  by unfold_locales (auto simp: not_less not_le)

section \<open>Subtraction\<close>

lemma cover_clip:
  assumes "r_start res < r_end res" "r_start av < r_end av"
  shows "cover (clip res av) = ival av - ival res"
  using assms by (auto simp: clip_def ival_def not_le not_less)

lemma clip_within:
  assumes "r_start res < r_end res" "r_start av < r_end av" "r \<in> set (clip res av)"
  shows "r_start av \<le> r_start r \<and> r_end r \<le> r_end av"
  using assms by (auto simp: clip_def not_le not_less split: if_splits)

lemma clip_wf:
  "wf_region res \<Longrightarrow> wf_region av \<Longrightarrow> \<forall>r\<in>set (clip res av). wf_region r \<and> r_type r = r_type av"
  by (auto simp: clip_def wf_region_def not_le not_less split: if_splits)

lemma separated_clip:
  assumes "r_start res < r_end res"
  shows "separated (clip res av)"
  using assms by (auto simp: clip_def separated_def)

lemma separated_subtract:
  assumes "wf_region res" "separated avs" "\<forall>r\<in>set avs. wf_region r"
  shows "separated (concat (map (clip res) avs))"
  using assms
proof (induction avs)
  case (Cons av avs)
  have res: "r_start res < r_end res" using Cons.prems(1) by (simp add: wf_region_def)
  have "r_end x \<le> r_start y" if x: "x \<in> set (clip res av)" and y: "y \<in> set (clip res b)" and b: "b \<in> set avs"
    for x y b
  proof -
    have "r_end x \<le> r_end av" using clip_within[OF res _ x] Cons.prems by (simp add: wf_region_def)
    also have "\<dots> \<le> r_start b" using Cons.prems(2) b by (simp add: separated_def)
    also have "\<dots> \<le> r_start y" using clip_within[OF res _ y] Cons.prems b by (simp add: wf_region_def)
    finally show ?thesis .
  qed
  then show ?case using Cons separated_clip[OF res, of av]
    by (auto simp: separated_def sorted_wrt_append)
qed (simp add: separated_def)

lemma length_clip: "length (clip res av) \<le> (if r_start av < r_start res \<and> r_end res < r_end av then 2 else 1)"
  by (auto simp: clip_def)

lemma length_subtract:
  assumes "r_start res < r_end res" "separated avs" "\<forall>r\<in>set avs. r_start r < r_end r"
  shows "length (concat (map (clip res) avs)) \<le> Suc (length avs)"
  using assms
proof (induction avs)
  case (Cons av avs)
  show ?case
  proof (cases "r_start av < r_start res \<and> r_end res < r_end av")
    case True
    have "clip res b = [b]" if "b \<in> set avs" for b
    proof -
      have "r_end res < r_start b" using True Cons.prems(2) that by (auto simp: separated_def)
      then show ?thesis by (simp add: clip_def order_less_imp_le)
    qed
    then have "concat (map (clip res) avs) = concat (map (\<lambda>b. [b]) avs)"
      by (metis (no_types, lifting) map_cong)
    then have "length (concat (map (clip res) avs)) = length avs" by simp
    moreover have "length (clip res av) \<le> 2" using length_clip[of res av] True by simp
    ultimately show ?thesis by simp
  next
    case False
    then have "length (clip res av) \<le> 1" using length_clip[of res av] by presburger
    moreover have "length (concat (map (clip res) avs)) \<le> Suc (length avs)"
      using Cons by (intro Cons.IH) (auto simp: separated_def)
    ultimately show ?thesis by simp
  qed
qed simp

lemma cover_concat_clip:
  assumes "wf_region res" "\<forall>r\<in>set avs. wf_region r"
  shows "cover (concat (map (clip res) avs)) = cover avs - ival res"
  using assms by (induction avs) (auto simp: cover_clip wf_region_def)

definition avail_inv :: "region list \<Rightarrow> bool" where
  "avail_inv avs = (separated avs \<and> (\<forall>r\<in>set avs. wf_region r \<and> region_is_available r))"

lemma separated_take: "separated xs \<Longrightarrow> separated (take n xs)"
  by (simp add: separated_def sorted_wrt_take)

lemma cover_take: "cover (take n xs) \<subseteq> cover xs"
  unfolding cover_def by (meson UN_mono in_set_takeD subset_iff order_refl)

lemma subtract_one_inv:
  assumes "wf_region res" "avail_inv avs"
  shows "avail_inv (subtract_one res avs)" "cover (subtract_one res avs) \<subseteq> cover avs - ival res"
    "length (subtract_one res avs) \<le> Suc (length avs)"
    "length avs < MAX_REGIONS \<Longrightarrow> cover (subtract_one res avs) = cover avs - ival res"
proof -
  let ?c = "concat (map (clip res) avs)"
  have wf: "\<forall>r\<in>set avs. wf_region r" and sep: "separated avs" using assms(2) by (auto simp: avail_inv_def)
  have l: "length ?c \<le> Suc (length avs)"
    using length_subtract[of res avs] assms(1) wf sep by (simp add: wf_region_def)
  have "wf_region r \<and> region_is_available r" if "av \<in> set avs" "r \<in> set (clip res av)" for r av
    using clip_wf[OF assms(1), of av] assms(2) that by (simp add: avail_inv_def region_is_available_def)
  then have "\<forall>r\<in>set ?c. wf_region r \<and> region_is_available r" by auto
  then show "avail_inv (subtract_one res avs)"
    using separated_subtract[OF assms(1) sep wf]
    unfolding avail_inv_def subtract_one_eq by (meson in_set_takeD separated_take)
  show "cover (subtract_one res avs) \<subseteq> cover avs - ival res"
    using cover_take cover_concat_clip[OF assms(1) wf] by (auto simp: subtract_one_eq)
  show "length (subtract_one res avs) \<le> Suc (length avs)"
    using l by (simp add: subtract_one_eq)
  show "cover (subtract_one res avs) = cover avs - ival res" if "length avs < MAX_REGIONS"
    using that l cover_concat_clip[OF assms(1) wf] by (simp add: subtract_one_eq)
qed

lemma subtract_all_inv:
  assumes "\<forall>r\<in>set ress. wf_region r" "avail_inv avs"
  shows "avail_inv (subtract_all ress avs) \<and> cover (subtract_all ress avs) \<subseteq> cover avs - cover ress
    \<and> length (subtract_all ress avs) \<le> length ress + length avs
    \<and> (length ress + length avs \<le> MAX_REGIONS \<longrightarrow> cover (subtract_all ress avs) = cover avs - cover ress)"
  using assms
proof (induction ress arbitrary: avs)
  case (Cons r ress)
  have r: "wf_region r" using Cons.prems by simp
  note s = subtract_one_inv[OF r Cons.prems(2)]
  have "avail_inv (subtract_all ress (subtract_one r avs))
    \<and> cover (subtract_all ress (subtract_one r avs)) \<subseteq> cover (subtract_one r avs) - cover ress
    \<and> length (subtract_all ress (subtract_one r avs)) \<le> length ress + length (subtract_one r avs)
    \<and> (length ress + length (subtract_one r avs) \<le> MAX_REGIONS \<longrightarrow>
        cover (subtract_all ress (subtract_one r avs)) = cover (subtract_one r avs) - cover ress)"
    using Cons.prems s(1) by (intro Cons.IH) auto
  moreover have "subtract_all (r # ress) avs = subtract_all ress (subtract_one r avs)"
    by (simp add: subtract_all_def)
  ultimately show ?case using s(2-4) by auto
qed (simp add: subtract_all_def)

section \<open>The normalised map\<close>

definition reserved_cover :: "region list \<Rightarrow> u64 set" where
  "reserved_cover raws = (\<Union>raw\<in>set raws. case res_of raw of None \<Rightarrow> {} | Some r \<Rightarrow> ival r)"

definition available_cover :: "region list \<Rightarrow> u64 set" where
  "available_cover raws = (\<Union>raw\<in>set raws. case avail_of raw of None \<Rightarrow> {} | Some r \<Rightarrow> ival r)"

lemma cover_of_iff:
  "a \<in> available_cover raws \<longleftrightarrow> (\<exists>raw\<in>set raws. \<exists>r. avail_of raw = Some r \<and> a \<in> ival r)"
  "a \<in> reserved_cover raws \<longleftrightarrow> (\<exists>raw\<in>set raws. \<exists>r. res_of raw = Some r \<and> a \<in> ival r)"
  by (fastforce simp: available_cover_def reserved_cover_def split: option.splits)+

lemma cover_map_filter:
  "cover (List.map_filter f raws) = (\<Union>raw\<in>set raws. case f raw of None \<Rightarrow> {} | Some r \<Rightarrow> ival r)"
  by (induction raws) (auto simp: map_filter_simps split: option.splits)

lemma merged_reserved:
  assumes "length raws \<le> MAX_REGIONS"
  defines "m \<equiv> merge_res (bubble_sort (List.map_filter res_of raws))"
  shows "separated m" "\<forall>r\<in>set m. wf_region r \<and> region_is_reserved r" "cover m = reserved_cover raws"
    "length m \<le> length (List.map_filter res_of raws)"
proof -
  let ?s = "bubble_sort (List.map_filter res_of raws)"
  have wf: "\<forall>r\<in>set ?s. wf_region r" and ty: "\<forall>r\<in>set ?s. region_is_reserved r"
    by (auto simp: set_map_filter_iff res_of_SomeD)
  have l: "length ?s \<le> MAX_REGIONS" using assms(1) length_map_filter_le[of res_of raws] by simp
  note ms = mres.merge_sorted[OF wf sorted_bubble_sort l]
  show "separated m" using ms(1) by (simp add: m_def merge_res_def)
  show "cover m = reserved_cover raws"
    using ms(3) cover_mset[OF mset_bubble_sort] by (simp add: m_def merge_res_def cover_map_filter reserved_cover_def)
  show "length m \<le> length (List.map_filter res_of raws)" using ms(4) by (simp add: m_def merge_res_def)
  have "MT_Available \<notin> r_type ` set ?s"
    using ty by (auto simp: region_is_reserved_def region_is_available_def)
  then have "MT_Available \<notin> r_type ` set (fold merge_res_step ?s [])" using ms(5) by blast
  then show "\<forall>r\<in>set m. wf_region r \<and> region_is_reserved r" using ms(2)
    by (auto simp: m_def merge_res_def region_is_reserved_def region_is_available_def image_iff)
qed

lemma merged_available:
  assumes "length raws \<le> MAX_REGIONS"
  defines "m \<equiv> merge_avail (bubble_sort (List.map_filter avail_of raws))"
  shows "avail_inv m" "cover m = available_cover raws" "length m \<le> length (List.map_filter avail_of raws)"
proof -
  let ?s = "bubble_sort (List.map_filter avail_of raws)"
  have wf: "\<forall>r\<in>set ?s. wf_region r" and ty: "\<forall>r\<in>set ?s. region_is_available r"
    by (auto simp: set_map_filter_iff avail_of_SomeD)
  have l: "length ?s \<le> MAX_REGIONS" using assms(1) length_map_filter_le[of avail_of raws] by simp
  note ms = mavail.merge_sorted[OF wf sorted_bubble_sort l]
  show "cover m = available_cover raws"
    using ms(3) cover_mset[OF mset_bubble_sort] by (simp add: m_def merge_avail_def cover_map_filter available_cover_def)
  show "length m \<le> length (List.map_filter avail_of raws)" using ms(4) by (simp add: m_def merge_avail_def)
  have "r_type ` set (fold merge_avail_step ?s []) \<subseteq> {MT_Available}"
    using ms(5) ty by (auto simp: region_is_available_def)
  then show "avail_inv m" using ms(1,2)
    by (auto simp: avail_inv_def m_def merge_avail_def region_is_available_def)
qed

lemma length_res_avail:
  "length (List.map_filter res_of raws) + length (List.map_filter avail_of raws) \<le> length raws"
  by (induction raws)
    (auto simp: map_filter_simps res_of_def avail_of_def region_is_reserved_def split: option.splits)

lemma normalized_split:
  assumes "length raws \<le> MAX_REGIONS"
  obtains ress avs where "normalized raws = bubble_sort (take MAX_REGIONS (ress @ avs))"
    and "separated ress" "\<forall>r\<in>set ress. wf_region r \<and> region_is_reserved r"
    and "cover ress = reserved_cover raws" "length ress \<le> length (List.map_filter res_of raws)"
    and "avail_inv avs" "cover avs = available_cover raws - reserved_cover raws"
    and "length avs \<le> length raws"
proof -
  let ?R = "List.map_filter res_of raws" and ?A = "List.map_filter avail_of raws"
  define ress where "ress = merge_res (bubble_sort ?R)"
  define m where "m = merge_avail (bubble_sort ?A)"
  define avs where "avs = subtract_all ress m"
  note R = merged_reserved[OF assms, folded ress_def] and A = merged_available[OF assms, folded m_def]
  have lR: "length ?R \<le> MAX_REGIONS" and lA: "length ?A \<le> MAX_REGIONS" and lr: "length ress \<le> MAX_REGIONS"
    using assms length_map_filter_le[of res_of raws] length_map_filter_le[of avail_of raws] R(4) by simp_all
  have sum: "length ress + length m \<le> length raws" using R(4) A(3) length_res_avail[of raws] by simp
  have "\<forall>r\<in>set ress. wf_region r" using R(2) by blast
  note S = subtract_all_inv[OF this A(1), folded avs_def]
  have "normalized raws = bubble_sort (take MAX_REGIONS (ress @ avs))"
  proof (cases "raws = []")
    case True
    then show ?thesis by (simp add: normalized_def ress_def m_def avs_def map_filter_simps bubble_sort_def
          merge_res_def merge_avail_def subtract_all_def)
  next
    case False
    then show ?thesis using lR lA lr
      by (simp add: normalized_def foldl_split_step foldl_push_capped ress_def m_def avs_def Let_def)
  qed
  moreover have "cover avs = available_cover raws - reserved_cover raws"
    using S sum assms R(3) A(2) by simp
  ultimately show thesis using that R S sum by auto
qed

lemma separated_nth:
  "separated rs \<Longrightarrow> i < j \<Longrightarrow> j < length rs \<Longrightarrow> r_end (rs ! i) \<le> r_start (rs ! j)"
  by (simp add: separated_def sorted_wrt_iff_nth_less)

lemma separated_distinct_disjoint:
  assumes "separated rs" "\<forall>r\<in>set rs. wf_region r"
  shows "distinct rs \<and> (\<forall>x\<in>set rs. \<forall>y\<in>set rs. x \<noteq> y \<longrightarrow> ival x \<inter> ival y = {})"
  using assms
proof (induction rs)
  case (Cons x rs)
  have after: "r_end x \<le> r_start y" if "y \<in> set rs" for y
    using Cons.prems(1) that by (simp add: separated_def)
  then have "x \<notin> set rs" using Cons.prems(2) by (force simp: wf_region_def)
  moreover have "ival x \<inter> ival y = {}" if "y \<in> set rs" for y
    using after[OF that] by (auto simp: ival_def)
  ultimately show ?case using Cons by (auto simp: separated_def)
qed simp

lemma sorted_disjoint_separated:
  assumes "sorted (map r_start rs)" "distinct rs" "\<forall>r\<in>set rs. wf_region r"
    and "\<forall>x\<in>set rs. \<forall>y\<in>set rs. x \<noteq> y \<longrightarrow> ival x \<inter> ival y = {}"
  shows "separated rs"
  using assms
proof (induction rs)
  case (Cons x rs)
  have "r_end x \<le> r_start y" if y: "y \<in> set rs" for y
  proof (rule ccontr)
    assume "\<not> ?thesis"
    then have "r_start y \<in> ival x" "r_start y \<in> ival y"
      using Cons.prems y by (auto simp: ival_def wf_region_def)
    moreover have "x \<noteq> y" using Cons.prems(2) y by auto
    ultimately show False using Cons.prems(4) y by auto
  qed
  then show ?case using Cons by (auto simp: separated_def)
qed (simp add: separated_def)

lemma normalized_inv:
  assumes "length raws \<le> MAX_REGIONS"
  shows "separated (normalized raws)" "\<forall>r\<in>set (normalized raws). wf_region r"
    "length (normalized raws) \<le> MAX_REGIONS"
proof -
  obtain ress avs where n: "normalized raws = bubble_sort (take MAX_REGIONS (ress @ avs))"
    and R: "separated ress" "\<forall>r\<in>set ress. wf_region r \<and> region_is_reserved r"
    "cover ress = reserved_cover raws"
    and A: "avail_inv avs" "cover avs = available_cover raws - reserved_cover raws"
    by (rule normalized_split[OF assms])
  let ?x = "take MAX_REGIONS (ress @ avs)"
  have sub: "set ?x \<subseteq> set ress \<union> set avs" by (metis set_append set_take_subset)
  have wf: "\<forall>r\<in>set (ress @ avs). wf_region r" using R A by (auto simp: avail_inv_def)
  have dr: "distinct ress" "\<forall>x\<in>set ress. \<forall>y\<in>set ress. x \<noteq> y \<longrightarrow> ival x \<inter> ival y = {}"
    using separated_distinct_disjoint[OF R(1)] R(2) by auto
  have da: "distinct avs" "\<forall>x\<in>set avs. \<forall>y\<in>set avs. x \<noteq> y \<longrightarrow> ival x \<inter> ival y = {}"
    using separated_distinct_disjoint[of avs] A(1) by (auto simp: avail_inv_def)
  have ra: "ival x \<inter> ival y = {}" if "x \<in> set ress" "y \<in> set avs" for x y
    using that R(3) A(2) by (fastforce simp: cover_def)
  have "set ress \<inter> set avs = {}"
    using R(2) A(1) by (auto simp: avail_inv_def region_is_reserved_def)
  then have dist: "distinct (ress @ avs)" using dr da by simp
  have "\<forall>x\<in>set (ress @ avs). \<forall>y\<in>set (ress @ avs). x \<noteq> y \<longrightarrow> ival x \<inter> ival y = {}"
    using dr(2) da(2) ra unfolding set_append by (metis Un_iff Int_commute)
  then have disj: "\<forall>x\<in>set ?x. \<forall>y\<in>set ?x. x \<noteq> y \<longrightarrow> ival x \<inter> ival y = {}"
    by (meson in_set_takeD)
  show wfn: "\<forall>r\<in>set (normalized raws). wf_region r"
    using wf n by (auto dest: in_set_takeD)
  show "separated (normalized raws)" unfolding n
  proof (rule sorted_disjoint_separated[OF sorted_bubble_sort])
    show "distinct (bubble_sort ?x)"
      using distinct_take[OF dist] by (metis mset_bubble_sort mset_eq_imp_distinct_iff)
  qed (use wfn n disj in auto)
  show "length (normalized raws) \<le> MAX_REGIONS" by (simp add: n)
qed

lemma is_reserved_in_iff:
  assumes "separated rs" "\<forall>r\<in>set rs. wf_region r"
  shows "is_reserved_in rs a \<longleftrightarrow> \<not> (\<exists>r\<in>set rs. region_is_available r \<and> a \<in> ival r)"
  using assms
proof (induction rs)
  case (Cons x rs)
  have "a \<notin> ival y" if "a \<in> ival x" "y \<in> set rs" for y
    using Cons.prems(1) that by (force simp: separated_def ival_def)
  then show ?case using Cons
    by (auto simp: region_contains_ival region_is_reserved_def separated_def)
qed simp

lemma not_reserved_normalized:
  assumes "length raws \<le> MAX_REGIONS"
  shows "\<not> is_reserved_in (normalized raws) a \<Longrightarrow> a \<in> available_cover raws - reserved_cover raws"
    and "length (List.map_filter res_of raws) + length raws \<le> MAX_REGIONS \<Longrightarrow>
      a \<in> available_cover raws - reserved_cover raws \<Longrightarrow> \<not> is_reserved_in (normalized raws) a"
proof -
  obtain ress avs where n: "normalized raws = bubble_sort (take MAX_REGIONS (ress @ avs))"
    and R: "\<forall>r\<in>set ress. wf_region r \<and> region_is_reserved r"
    and l: "length ress \<le> length (List.map_filter res_of raws)" "length avs \<le> length raws"
    and A: "avail_inv avs" "cover avs = available_cover raws - reserved_cover raws"
    by (rule normalized_split[OF assms])
  note iff = is_reserved_in_iff[OF normalized_inv(1,2)[OF assms], of a]
  show "a \<in> available_cover raws - reserved_cover raws" if "\<not> is_reserved_in (normalized raws) a"
  proof -
    have "\<exists>r\<in>set (ress @ avs). region_is_available r \<and> a \<in> ival r"
      using that unfolding iff unfolding n set_bubble_sort by (meson in_set_takeD)
    then obtain r where r: "r \<in> set (ress @ avs)" "region_is_available r" "a \<in> ival r" by blast
    then have "r \<in> set avs" using R by (auto simp: region_is_reserved_def)
    then have "a \<in> cover avs" using r(3) by (auto simp: cover_def)
    then show ?thesis using A(2) by simp
  qed
  show "\<not> is_reserved_in (normalized raws) a"
    if fits: "length (List.map_filter res_of raws) + length raws \<le> MAX_REGIONS"
      and "a \<in> available_cover raws - reserved_cover raws"
  proof -
    have "a \<in> cover avs" using that A(2) by simp
    then obtain r where r: "r \<in> set avs" "a \<in> ival r" by (auto simp: cover_def)
    have "take MAX_REGIONS (ress @ avs) = ress @ avs" using fits l by simp
    then have "r \<in> set (normalized raws)" using n r by simp
    moreover have "region_is_available r" using r A(1) by (simp add: avail_inv_def)
    ultimately show ?thesis using iff r(2) by auto
  qed
qed

section \<open>Raw regions and their page closure\<close>

text \<open>An address of a raw reservation whose page-rounded end fits 64 bits lies in the
  reserved cover; the available cover stays inside the raw available ranges.\<close>

lemma reserved_cover_raw:
  assumes "raw \<in> set raws" "region_is_reserved raw" "r_start raw \<le> a"
    and "unat a < unat (r_start raw) + unat (r_length raw)"
    and "unat (r_start raw) + unat (r_length raw) + 4095 < 2 ^ 64"
  shows "a \<in> reserved_cover raws"
proof -
  let ?e = "r_start raw + r_length raw"
  have ue: "unat ?e = unat (r_start raw) + unat (r_length raw)"
    using assms(5) by (subst unat_add_nowrap) simp_all
  have "unat (?e + 4095) = unat ?e + 4095"
    using assms(5) ue by (subst unat_add_nowrap) simp_all
  then have e: "unat (align_down (?e + 4095) PAGE_SIZE) = unat ?e + 4095 - (unat ?e + 4095) mod 4096"
    by (simp add: unat_align_down)
  have ge: "unat ?e \<le> unat (align_down (?e + 4095) PAGE_SIZE)"
    unfolding e using mod_less_divisor[of 4096 "unat ?e + 4095"] by linarith
  have lo: "align_down (r_start raw) PAGE_SIZE \<le> a"
    using align_down_le assms(3) by (rule order_trans)
  have hi: "a < align_down (?e + 4095) PAGE_SIZE"
    using ge assms(4) ue by (simp add: word_less_nat_alt)
  have "unat (r_length raw) \<noteq> 0" using assms(3,4) by (auto simp: word_le_nat_alt)
  then have "raw_valid raw" using assms(5) by (auto simp: raw_valid_def word_le_max_minus)
  then obtain r where r: "res_of raw = Some r"
    using order_le_less_trans[OF lo hi] assms(2) by (auto simp: res_of_def align_reserved_def Let_def addr_align_down_eq page_round_up_eq)
  have "a \<in> ival r" using res_of_SomeD(3,4)[OF r] lo hi by (simp add: ival_def add.assoc)
  then show ?thesis using assms(1) r by (force simp: reserved_cover_def)
qed

lemma available_cover_raw:
  assumes "a \<in> available_cover raws"
  obtains raw where "raw \<in> set raws" "region_is_available raw" "r_start raw \<le> a"
    "unat a < unat (r_start raw) + unat (r_length raw)"
proof -
  obtain raw r where r: "raw \<in> set raws" "avail_of raw = Some r" "a \<in> ival r"
    using assms by (auto simp: available_cover_def split: option.splits)
  moreover have "region_is_available raw" using r(2) by (auto simp: avail_of_def split: if_splits)
  ultimately show thesis using that avail_of_SomeD(5)[OF r(2)] by blast
qed

lemma overlaps_reserved_hit:
  assumes "separated (m_regions t)" "\<forall>r\<in>set (m_regions t). wf_region r"
    and "r \<in> set (m_regions t)" "region_is_reserved r" "a \<in> ival r"
    and "start \<le> a" "unat a < unat start + unat len"
  shows "overlaps_reserved t start len"
proof (cases "start > - 1 - len")
  case False
  then have "unat (start + len) = unat start + unat len"
    by (simp add: word_le_max_minus not_le unat_add_nowrap)
  then have "a < start + len" using assms(7) by (simp add: word_less_nat_alt)
  moreover have "len \<noteq> 0" using assms(6,7) by (auto simp: word_le_nat_alt)
  moreover have "r_length r \<noteq> 0" using assms(2,3) by (auto simp: wf_region_def)
  ultimately have "region_overlaps r start len"
    using assms(5,6) by (auto simp: region_overlaps_def ival_def Let_def)
  then show ?thesis using False assms(3,4) \<open>len \<noteq> 0\<close> by (auto simp: overlaps_reserved_def list_ex_iff)
next
  case True
  moreover have "len \<noteq> 0" using True unat_below[of start] by (auto simp: word_le_max_minus)
  ultimately show ?thesis by (simp add: overlaps_reserved_def)
qed

section \<open>Pages\<close>

text \<open>The specification speaks of pages: an available region offers the pages that lie inside
  it, a reservation takes every page it touches.\<close>

definition page_inside :: "region \<Rightarrow> nat \<Rightarrow> bool" where
  "page_inside raw p \<longleftrightarrow> unat (r_start raw) \<le> 4096 * p \<and> 4096 * p + 4096 \<le> unat (r_start raw) + unat (r_length raw)"

definition page_touched :: "region \<Rightarrow> nat \<Rightarrow> bool" where
  "page_touched raw p \<longleftrightarrow> 0 < unat (r_length raw) \<and> unat (r_start raw) < 4096 * p + 4096
     \<and> 4096 * p < unat (r_start raw) + unat (r_length raw)"

lemma raw_end:
  assumes "unat (r_start raw) + unat (r_length raw) < 2 ^ 64"
  shows "unat (r_start raw + r_length raw) = unat (r_start raw) + unat (r_length raw)"
    "raw_valid raw \<longleftrightarrow> 0 < unat (r_length raw)"
proof -
  show "unat (r_start raw + r_length raw) = unat (r_start raw) + unat (r_length raw)"
    using assms by (subst unat_add_nowrap) simp_all
  show "raw_valid raw \<longleftrightarrow> 0 < unat (r_length raw)"
    using assms by (auto simp: raw_valid_def word_le_max_minus unat_gt_0)
qed

lemma page_number_bounds:
  fixes x y :: nat
  shows "4096 * x \<le> y \<longleftrightarrow> x \<le> y div 4096" "y < 4096 * x \<longleftrightarrow> y div 4096 < x"
    "y div 4096 \<le> x \<longleftrightarrow> y < 4096 * x + 4096" "x < (y + 4095) div 4096 \<longleftrightarrow> 4096 * x < y"
proof -
  show "4096 * x \<le> y \<longleftrightarrow> x \<le> y div 4096" by (simp add: less_eq_div_iff_mult_less_eq mult.commute)
  show "y < 4096 * x \<longleftrightarrow> y div 4096 < x" by (simp add: div_less_iff_less_mult mult.commute)
  show "y div 4096 \<le> x \<longleftrightarrow> y < 4096 * x + 4096" using div_less_iff_less_mult[of 4096 y "Suc x"] by (simp add: less_Suc_eq_le mult.commute add.commute)
  show "x < (y + 4095) div 4096 \<longleftrightarrow> 4096 * x < y"
    using less_eq_div_iff_mult_less_eq[of 4096 "Suc x" "y + 4095"] by (simp add: Suc_le_eq mult.commute)
qed

lemma avail_of_pages:
  assumes av: "region_is_available raw" and fit: "unat (r_start raw) + unat (r_length raw) < 2 ^ 64"
  shows "(\<exists>r. avail_of raw = Some r \<and> a \<in> ival r) \<longleftrightarrow> page_inside raw (unat a div 4096)"
proof
  assume "\<exists>r. avail_of raw = Some r \<and> a \<in> ival r"
  then obtain r where r: "avail_of raw = Some r" "r_start r \<le> a" "a < r_end r" by (auto simp: ival_def)
  note D = avail_of_SomeD[OF r(1)]
  have "4096 dvd unat (r_start r)" "4096 dvd unat (r_end r)" using D(1) by (simp_all add: wf_region_def is_page_aligned_iff)
  then obtain k j where k: "unat (r_start r) = 4096 * k" "unat (r_end r) = 4096 * j" by (auto elim!: dvdE)
  have "r_start raw \<le> r_start r"
    using D(5) D(1) by (auto simp: ival_def wf_region_def)
  moreover have "unat (r_end r) \<le> unat (r_start raw) + unat (r_length raw)"
    using align_down_le[of "r_start raw + r_length raw" PAGE_SIZE] unfolding D(4) word_le_nat_alt raw_end(1)[OF fit] .
  moreover have "k \<le> unat a div 4096" "unat a div 4096 < j"
    using r(2,3) unfolding word_le_nat_alt word_less_nat_alt k page_number_bounds(1,2) .
  ultimately show "page_inside raw (unat a div 4096)"
    unfolding page_inside_def word_le_nat_alt word_less_nat_alt k by linarith
next
  assume p: "page_inside raw (unat a div 4096)"
  let ?s = "align_up (r_start raw) PAGE_SIZE" and ?e = "align_down (r_start raw + r_length raw) PAGE_SIZE"
  define lo hi :: u64 where "lo = of_nat (4096 * (unat a div 4096))" and "hi = of_nat (4096 * (unat a div 4096) + 4096)"
  have "4096 * (unat a div 4096) + 4096 < 2 ^ 64" using p fit unfolding page_inside_def by linarith
  then have u: "unat lo = 4096 * (unat a div 4096)" "unat hi = 4096 * (unat a div 4096) + 4096"
    unfolding lo_def hi_def by (intro unat_of_small; linarith)+
  have "?s \<le> lo" using align_up_fits[of PAGE_SIZE "r_start raw" lo] p by (simp add: page_inside_def word_le_nat_alt u)
  moreover have "hi \<le> ?e" using align_down_greatest[of PAGE_SIZE hi "r_start raw + r_length raw"] p
    by (simp add: page_inside_def word_le_nat_alt u raw_end(1)[OF fit])
  ultimately have "?s \<le> a" "a < ?e" "?s < ?e" using u unfolding word_le_nat_alt word_less_nat_alt by linarith+
  moreover have "raw_valid raw" using p fit by (auto simp: raw_end(2) page_inside_def)
  ultimately show "\<exists>r. avail_of raw = Some r \<and> a \<in> ival r" using av
    by (simp add: avail_of_def align_available_def Let_def addr_align_down_eq addr_align_up_eq ival_def)
qed

lemma res_of_pages:
  assumes rs: "region_is_reserved raw" and fit: "unat (r_start raw) + unat (r_length raw) + 4095 < 2 ^ 64"
  shows "(\<exists>r. res_of raw = Some r \<and> a \<in> ival r) \<longleftrightarrow> page_touched raw (unat a div 4096)"
proof -
  let ?s = "align_down (r_start raw) PAGE_SIZE" and ?e = "align_down (r_start raw + r_length raw + 4095) PAGE_SIZE"
  have f: "unat (r_start raw) + unat (r_length raw) < 2 ^ 64" using fit by linarith
  have "unat (r_start raw + r_length raw + 4095) = unat (r_start raw) + unat (r_length raw) + 4095"
    using fit by (subst unat_add_nowrap) (simp_all add: raw_end(1)[OF f])
  then have u: "unat ?s = 4096 * (unat (r_start raw) div 4096)"
    "unat ?e = 4096 * ((unat (r_start raw) + unat (r_length raw) + 4095) div 4096)"
    by (simp_all add: unat_align_down minus_mod_eq_mult_div)
  have "(\<exists>r. res_of raw = Some r \<and> a \<in> ival r) \<longleftrightarrow> raw_valid raw \<and> ?s \<le> a \<and> a < ?e"
    using rs by (auto simp: res_of_def align_reserved_def Let_def addr_align_down_eq page_round_up_eq ival_def)
  also have "\<dots> \<longleftrightarrow> page_touched raw (unat a div 4096)"
    unfolding raw_end(2)[OF f] page_touched_def word_le_nat_alt word_less_nat_alt u page_number_bounds ..
  finally show ?thesis .
qed

lemma res_of_top:
  assumes "2 ^ 64 \<le> unat (r_start raw) + unat (r_length raw) + 4095"
  shows "res_of raw = None"
proof (cases "unat (r_start raw) + unat (r_length raw) < 2 ^ 64")
  case False
  then have "\<not> raw_valid raw" by (auto simp: raw_valid_def word_le_max_minus)
  then show ?thesis by (simp add: res_of_def)
next
  case True
  have "unat (r_start raw + r_length raw + 4095) = (unat (r_start raw) + unat (r_length raw) + 4095) mod 2 ^ 64"
    using raw_end(1)[OF True] by (simp add: unat_word_ariths)
  also have "\<dots> = unat (r_start raw) + unat (r_length raw) + 4095 - 2 ^ 64" using assms True by (simp add: le_mod_geq)
  finally have "unat (r_start raw + r_length raw + 4095) < 4096" using True by linarith
  then have "unat (align_down (r_start raw + r_length raw + 4095) PAGE_SIZE) = 0" by (simp add: unat_align_down)
  then show ?thesis
    by (simp add: res_of_def align_reserved_def Let_def addr_align_down_eq page_round_up_eq unat_eq_zero)
qed

lemma normalized_skip:
  assumes "region_is_reserved r" "res_of r = None"
  shows "normalized (rs @ r # rs') = normalized (rs @ rs')"
proof -
  have "avail_of r = None" using assms(1) by (simp add: avail_of_def region_is_reserved_def)
  then have m: "List.map_filter res_of (rs @ r # rs') = List.map_filter res_of (rs @ rs')"
    "List.map_filter avail_of (rs @ r # rs') = List.map_filter avail_of (rs @ rs')"
    using assms(2) by (simp_all add: map_filter_def)
  show ?thesis
  proof (cases "rs @ rs' = []")
    case True
    have "subtract_all (merge_res (bubble_sort [])) (merge_avail (bubble_sort [])) = []" "merge_res (bubble_sort []) = []"
      "bubble_sort [] = []" by code_simp+
    moreover have "foldl split_step ([], []) [r] = ([], [])"
      using m True unfolding foldl_split_step by (simp add: map_filter_simps)
    ultimately show ?thesis using True by (simp add: normalized_def del: split_step.simps foldl_Cons)
  next
    case False
    then have "(rs @ rs' = []) = False" "(rs @ r # rs' = []) = False" by simp_all
    then show ?thesis unfolding normalized_def foldl_split_step m by (simp only: if_False)
  qed
qed

section \<open>Correctness of normalisation\<close>

definition example_tracker :: reserved_tracker where
  "example_tracker = \<lparr>m_raw_regions =
     [\<lparr>r_start = 0, r_end = 0x100000, r_length = 0x100000, r_type = MT_Reserved, r_name = ''low''\<rparr>,
      \<lparr>r_start = 0x80000, r_end = 0x400000, r_length = 0x380000, r_type = MT_Available, r_name = ''ram''\<rparr>],
     m_regions = []\<rparr>"

lemma example_fits: "length (m_raw_regions example_tracker) \<le> MAX_REGIONS"
  by (simp add: example_tracker_def MAX_REGIONS_def)

lemma example_free: "\<not> is_reserved (normalize example_tracker) 0x200000"
  by code_simp

text \<open>C2.  The normalised map is strictly ordered: every interval is non-empty and
  page-aligned, carries its own length, ends before the next one begins, and the
  table never exceeds its capacity.\<close>

theorem normalize_disjoint:
  assumes "length (m_raw_regions t) \<le> MAX_REGIONS"
  shows "let rs = m_regions (normalize t) in
    length rs \<le> MAX_REGIONS
    \<and> (\<forall>i j. i < j \<longrightarrow> j < length rs \<longrightarrow> r_end (rs ! i) \<le> r_start (rs ! j))
    \<and> (\<forall>r\<in>set rs. r_start r < r_end r \<and> r_length r = r_end r - r_start r
         \<and> is_page_aligned (r_start r) \<and> is_page_aligned (r_end r))"
  using normalized_inv[OF assms] separated_nth[OF normalized_inv(1)[OF assms]]
  by (auto simp: normalize_def Let_def wf_region_def)

theorem normalize_disjoint_witness:
  "length (m_raw_regions example_tracker) \<le> MAX_REGIONS
   \<and> length (m_regions (normalize example_tracker)) = 2
   \<and> r_end (m_regions (normalize example_tracker) ! 0) \<le> r_start (m_regions (normalize example_tracker) ! 1)"
proof -
  have "length (m_regions (normalize example_tracker)) = 2" by code_simp
  then show ?thesis using normalize_disjoint[OF example_fits] example_fits by (simp add: Let_def)
qed

text \<open>C3.  Reservations take precedence: after normalisation no address of a raw
  reserved region is reported free, and an address reported free belongs to a raw
  available region.  The reservation's page-rounded end must fit 64 bits.\<close>

theorem reserved_precedence:
  assumes "length (m_raw_regions t) \<le> MAX_REGIONS"
    and "\<not> is_reserved (normalize t) a"
  shows "(\<exists>raw\<in>set (m_raw_regions t). region_is_available raw \<and> r_start raw \<le> a
           \<and> unat a < unat (r_start raw) + unat (r_length raw))
    \<and> (\<forall>raw\<in>set (m_raw_regions t). region_is_reserved raw
           \<longrightarrow> unat (r_start raw) + unat (r_length raw) + 4095 < 2 ^ 64
           \<longrightarrow> \<not> (r_start raw \<le> a \<and> unat a < unat (r_start raw) + unat (r_length raw)))"
proof -
  have a: "a \<in> available_cover (m_raw_regions t)" "a \<notin> reserved_cover (m_raw_regions t)"
    using not_reserved_normalized(1)[OF assms(1), of a] assms(2) by (auto simp: is_reserved_def normalize_def)
  show ?thesis using available_cover_raw[OF a(1)] reserved_cover_raw a(2) by metis
qed

theorem reserved_precedence_witness:
  "\<not> is_reserved (normalize example_tracker) 0x200000 \<and>
   (\<exists>raw\<in>set (m_raw_regions example_tracker). region_is_available raw \<and> r_start raw \<le> 0x200000
           \<and> unat (0x200000 :: u64) < unat (r_start raw) + unat (r_length raw))"
  using reserved_precedence[OF example_fits example_free] example_free by blast

text \<open>C4.  Normalisation is exact when the table cannot overflow and no rounded end wraps: an
  address is reported free exactly when its page lies inside some raw available region and no raw
  reservation touches that page.\<close>

theorem normalize_exact:
  assumes "length (filter region_is_reserved (m_raw_regions t)) + length (m_raw_regions t) \<le> MAX_REGIONS"
    and "\<forall>raw\<in>set (m_raw_regions t). unat (r_start raw) + unat (r_length raw) + 4095 < 2 ^ 64"
  shows "(\<not> is_reserved (normalize t) a) \<longleftrightarrow>
    (\<exists>raw\<in>set (m_raw_regions t). region_is_available raw \<and> page_inside raw (unat a div 4096))
    \<and> \<not> (\<exists>raw\<in>set (m_raw_regions t). region_is_reserved raw \<and> page_touched raw (unat a div 4096))"
proof -
  let ?raws = "m_raw_regions t" and ?p = "unat a div 4096"
  have "length (filter (\<lambda>r. res_of r \<noteq> None) raws) \<le> length (filter region_is_reserved raws)" for raws
    by (induction raws) (auto simp: res_of_def)
  note this[of ?raws]
  then have fits: "length (List.map_filter res_of ?raws) + length ?raws \<le> MAX_REGIONS" and len: "length ?raws \<le> MAX_REGIONS"
    using assms(1) unfolding length_map_filter_eq by linarith+
  have fit: "unat (r_start raw) + unat (r_length raw) < 2 ^ 64" if "raw \<in> set ?raws" for raw
    using bspec[OF assms(2) that] by linarith
  have A: "(\<exists>r. avail_of raw = Some r \<and> a \<in> ival r) \<longleftrightarrow> region_is_available raw \<and> page_inside raw ?p"
    if "raw \<in> set ?raws" for raw
    using avail_of_pages[OF _ fit[OF that], of a] by (auto simp: avail_of_def)
  have R: "(\<exists>r. res_of raw = Some r \<and> a \<in> ival r) \<longleftrightarrow> region_is_reserved raw \<and> page_touched raw ?p"
    if "raw \<in> set ?raws" for raw
    using res_of_pages[OF _ bspec[OF assms(2) that], of a] by (auto simp: res_of_def)
  have "is_reserved (normalize t) a = is_reserved_in (normalized ?raws) a"
    by (simp add: is_reserved_def normalize_def)
  then have "\<not> is_reserved (normalize t) a \<longleftrightarrow> a \<in> available_cover ?raws - reserved_cover ?raws"
    using not_reserved_normalized[OF len, of a] fits by blast
  then show ?thesis using A R by (simp add: cover_of_iff)
qed

theorem normalize_exact_witness:
  "\<not> is_reserved (normalize example_tracker) 0x200000 \<and> is_reserved (normalize example_tracker) 0x90000
   \<and> (\<exists>raw\<in>set (m_raw_regions example_tracker). region_is_available raw \<and> page_inside raw 0x200)"
proof -
  have l: "length (filter region_is_reserved (m_raw_regions example_tracker)) + length (m_raw_regions example_tracker) \<le> MAX_REGIONS"
    by (simp add: example_tracker_def MAX_REGIONS_def)
  have b: "\<forall>raw\<in>set (m_raw_regions example_tracker). unat (r_start raw) + unat (r_length raw) + 4095 < 2 ^ 64"
    by (simp add: example_tracker_def)
  note E = normalize_exact[OF l b, of "0x200000"] normalize_exact[OF l b, of "0x90000"]
  have "\<exists>raw\<in>set (m_raw_regions example_tracker). region_is_reserved raw \<and> page_touched raw 0x90"
    by (simp add: example_tracker_def page_touched_def region_is_reserved_def region_is_available_def memory_type_defs)
  then show ?thesis using E example_free by simp
qed

section \<open>Populating the tracker at boot\<close>

lemma import_mmap_shape:
  "length raws \<le> MAX_REGIONS \<Longrightarrow>
   length (import_mmap raws es) \<le> MAX_REGIONS \<and> set raws \<subseteq> set (import_mmap raws es)"
  by (induction raws es rule: import_mmap.induct) auto

lemma populate_reserves_raw:
  assumes "raw \<in> set raws" "length raws \<le> MAX_REGIONS" "region_is_reserved raw"
    and "r_start raw \<le> a" "unat a < unat (r_start raw) + unat (r_length raw)"
    and "unat (r_start raw) + unat (r_length raw) + 4095 < 2 ^ 64"
  shows "is_reserved_in (normalized (import_mmap raws es)) a"
proof -
  have "raw \<in> set (import_mmap raws es)" "length (import_mmap raws es) \<le> MAX_REGIONS"
    using import_mmap_shape[OF assms(2), of es] assms(1) by auto
  then show ?thesis
    using reserved_cover_raw[OF _ assms(3-6)] not_reserved_normalized(1) by blast
qed

lemma aligned_reservation_covers:
  fixes nm :: string
  assumes "paddr \<le> a" "unat a < unat paddr + unat sz" "unat paddr + unat sz + 8190 < 2 ^ 64"
  defines "r \<equiv> aligned_reservation paddr sz nm"
  shows "r_start r \<le> a" "unat a < unat (r_start r) + unat (r_length r)"
    "unat (r_start r) + unat (r_length r) + 4095 < 2 ^ 64"
proof -
  let ?s = "align_down paddr PAGE_SIZE" and ?e = "align_down (paddr + sz + 4095) PAGE_SIZE"
  have r: "r_start r = ?s" "r_length r = ?e - ?s"
    by (simp_all add: r_def aligned_reservation_def Let_def addr_align_down_eq page_round_up_eq)
  have u1: "unat (paddr + sz) = unat paddr + unat sz" using assms(3) by (subst unat_add_nowrap) simp_all
  have u: "unat (paddr + sz + 4095) = unat paddr + unat sz + 4095"
    using assms(3) u1 by (subst unat_add_nowrap) simp_all
  have e1: "unat ?e \<le> unat paddr + unat sz + 4095" unfolding unat_align_down[OF PAGE_SIZE_nz] u by simp
  have e2: "unat paddr + unat sz \<le> unat ?e"
    unfolding unat_align_down[OF PAGE_SIZE_nz] u
    using mod_less_divisor[of 4096 "unat paddr + unat sz + 4095"] by simp
  have s: "?s \<le> paddr" by (rule align_down_le)
  then have "?s \<le> ?e" using e2 by (simp add: word_le_nat_alt)
  then have sum: "unat ?s + unat (?e - ?s) = unat ?e" by (simp add: unat_sub word_le_nat_alt)
  show "r_start r \<le> a" using s assms(1) r by simp
  show "unat a < unat (r_start r) + unat (r_length r)" using sum e2 assms(2) r by simp
  show "unat (r_start r) + unat (r_length r) + 4095 < 2 ^ 64" using sum e1 assms(3) r by simp
qed

text \<open>C5.  Whatever memory map the firmware reports, the populated tracker keeps the
  first mebibyte, the kernel image and the Multiboot2 information block reserved.\<close>

theorem populate_protects_boot_memory:
  assumes "unat kernel_end + 4095 < 2 ^ 64" and "unat mb2_paddr + unat mb2_size + 8190 < 2 ^ 64"
    and "a < 0x100000 \<or> (kernel_start \<le> a \<and> a < kernel_end)
      \<or> (mb2_paddr \<noteq> 0 \<and> mb2_paddr \<le> a \<and> unat a < unat mb2_paddr + unat mb2_size)"
  shows "is_reserved (populate t bi kernel_start kernel_end mb2_paddr mb2_size) a"
proof -
  define low where "low = [\<lparr>r_start = 0, r_end = 0x100000, r_length = 0x100000, r_type = MT_Reserved,
                  r_name = ''Low Memory (IVT/BDA/EBDA/VRAM)''\<rparr>]"
  define kern where "kern = (if kernel_end > kernel_start then
            [\<lparr>r_start = kernel_start, r_end = kernel_end, r_length = kernel_end - kernel_start,
              r_type = MT_Reserved, r_name = ''Kernel Physical Image''\<rparr>] else [])"
  define mb2 where "mb2 = (if mb2_paddr \<noteq> 0 \<and> mb2_size > 0 then
            [aligned_reservation mb2_paddr mb2_size ''Multiboot2 Information Block''] else [])"
  have eq: "is_reserved (populate t bi kernel_start kernel_end mb2_paddr mb2_size) a
      = is_reserved_in (normalized (import_mmap (low @ kern @ mb2) (mmap_entries bi))) a"
    by (simp add: populate_def is_reserved_def normalize_def Let_def low_def kern_def mb2_def)
  have len: "length (low @ kern @ mb2) \<le> MAX_REGIONS"
    by (simp add: low_def kern_def mb2_def MAX_REGIONS_def)
  from assms(3) consider "a < 0x100000" | "kernel_start \<le> a" "a < kernel_end"
    | "mb2_paddr \<noteq> 0" "mb2_paddr \<le> a" "unat a < unat mb2_paddr + unat mb2_size" by blast
  then have "\<exists>raw\<in>set (low @ kern @ mb2). region_is_reserved raw \<and> r_start raw \<le> a
      \<and> unat a < unat (r_start raw) + unat (r_length raw)
      \<and> unat (r_start raw) + unat (r_length raw) + 4095 < 2 ^ 64"
  proof cases
    case 1
    then show ?thesis by (simp add: low_def region_is_reserved_def region_is_available_def
          memory_type_defs word_less_nat_alt)
  next
    case 2
    then have "kernel_start < kernel_end" by simp
    moreover from this have "unat (kernel_end - kernel_start) = unat kernel_end - unat kernel_start"
      by (simp add: unat_sub)
    ultimately show ?thesis using 2 assms(1)
      by (simp add: kern_def region_is_reserved_def region_is_available_def memory_type_defs word_less_nat_alt)
  next
    case 3
    then have "mb2_size > 0" by (auto simp: word_gt_0 word_le_nat_alt)
    then show ?thesis using 3 aligned_reservation_covers[OF 3(2,3) assms(2)]
      by (simp add: mb2_def region_is_reserved_def region_is_available_def memory_type_defs
          aligned_reservation_def Let_def)
  qed
  then show ?thesis unfolding eq using populate_reserves_raw[OF _ len] by blast
qed

theorem populate_protects_boot_memory_witness:
  "\<forall>t bi. is_reserved (populate t bi 0x100000 0x123000 0x9000 0x800) 0x110000"
  by (intro allI populate_protects_boot_memory) simp_all

text \<open>C6.  The guard of the reserved branch checks the exclusive end of a reservation but not its
  rounding: a reservation that ends within the last 4095 bytes of the address space has its end
  rounded up to zero and is dropped, whatever the rest of the table is.  The normalised map is the
  one of the table without it, so its pages are handed out when an available region covers them.\<close>

theorem top_reservation_dropped:
  assumes "region_is_reserved r" "2 ^ 64 \<le> unat (r_start r) + unat (r_length r) + 4095"
  shows "normalize (t\<lparr>m_raw_regions := rs @ r # rs'\<rparr>)
    = (normalize (t\<lparr>m_raw_regions := rs @ rs'\<rparr>))\<lparr>m_raw_regions := rs @ r # rs'\<rparr>"
  using normalized_skip[OF assms(1) res_of_top[OF assms(2)]] by (simp add: normalize_def)

definition top_reservation :: region where
  "top_reservation = \<lparr>r_start = 0xFFFFFFFFFFFFE000, r_end = 0xFFFFFFFFFFFFFF00, r_length = 0x1F00, r_type = MT_Reserved, r_name = ''rom''\<rparr>"

definition whole_memory :: region where
  "whole_memory = \<lparr>r_start = 0, r_end = - 1, r_length = - 1, r_type = MT_Available, r_name = ''ram''\<rparr>"

theorem top_reservation_dropped_witness:
  "\<not> is_reserved (normalize (example_tracker\<lparr>m_raw_regions := [whole_memory, top_reservation]\<rparr>)) (r_start top_reservation)
   \<and> region_is_reserved top_reservation"
proof -
  have "\<not> is_reserved (normalize (example_tracker\<lparr>m_raw_regions := [whole_memory]\<rparr>)) (r_start top_reservation)" by code_simp
  moreover have "region_is_reserved top_reservation" by code_simp
  moreover have "2 ^ 64 \<le> unat (r_start top_reservation) + unat (r_length top_reservation) + 4095" by (simp add: top_reservation_def)
  note D = top_reservation_dropped[OF calculation(2) this, where t = example_tracker and rs = "[whole_memory]" and rs' = "[]", unfolded append.simps]
  have "is_reserved (x\<lparr>m_raw_regions := y\<rparr>) a = is_reserved x a" for x y a by (simp add: is_reserved_def)
  ultimately show ?thesis unfolding D by simp
qed

end
