(* ===== verification/Pmm.thy ===== *)
theory Pmm
  imports Reserved_Regions
begin

text \<open>
  \<open>memory/pmm.{hpp,cpp}\<close>: the bitmap allocator of physical page frames.  The bitmap
  is a list of 64-bit words (bit set = frame used), the counters are 64-bit words and
  wrap as \<open>size_t\<close> does, frame indices are \<open>nat\<close>.  Physical memory is a map from
  page base addresses to the 512 quadwords of the page, so the zeroing of a freshly
  allocated page is part of the model.
\<close>

section \<open>State\<close>

type_synonym page_mem = "u64 \<Rightarrow> nat \<Rightarrow> u64"

record pmm =
  m_tracker :: "reserved_tracker option"
  m_bitmap :: "u64 list"
  m_bitmap_paddr :: u64
  m_bitmap_size_bytes :: u64
  m_max_managed_paddr :: u64
  m_total_frames :: nat
  m_usable_frames :: u64
  m_reserved_frames :: u64
  m_free_frames :: u64
  m_allocated_frames :: u64
  m_last_search_frame :: nat
  m_force_alloc_failure :: bool
  m_initialized :: bool

section \<open>Bitmap\<close>

definition bm_set :: "u64 list \<Rightarrow> nat \<Rightarrow> u64 list" where
  "bm_set bm frame_idx = bm[frame_idx div 64 := bm ! (frame_idx div 64) OR push_bit (frame_idx mod 64) 1]"

definition bm_clear :: "u64 list \<Rightarrow> nat \<Rightarrow> u64 list" where
  "bm_clear bm frame_idx = bm[frame_idx div 64 := bm ! (frame_idx div 64) AND NOT (push_bit (frame_idx mod 64) 1)]"

definition bm_test :: "u64 list \<Rightarrow> nat \<Rightarrow> bool" where
  "bm_test bm frame_idx = ((bm ! (frame_idx div 64) AND push_bit (frame_idx mod 64) 1) \<noteq> 0)"

definition zero_page :: "page_mem \<Rightarrow> u64 \<Rightarrow> page_mem" where
  "zero_page mem paddr = mem(paddr := (\<lambda>_. 0))"

text \<open>\<open>__builtin_ctzll\<close>: the index of the lowest set bit of a non-zero word.\<close>

definition ctzll :: "u64 \<Rightarrow> nat" where
  "ctzll x = (case List.find (bit x) [0..<64] of None \<Rightarrow> 64 | Some i \<Rightarrow> i)"

fun first_some :: "('a \<Rightarrow> 'b option) \<Rightarrow> 'a list \<Rightarrow> 'b option" where
  "first_some f [] = None"
| "first_some f (x # xs) = (case f x of None \<Rightarrow> first_some f xs | Some y \<Rightarrow> Some y)"

section \<open>Initialisation\<close>

definition reserve_range :: "pmm \<Rightarrow> u64 \<Rightarrow> u64 \<Rightarrow> pmm" where
  "reserve_range p start e =
     (if e \<le> start then p
      else let s_aligned = addr_align_down start PAGE_SIZE;
               e_up = addr_align_up e PAGE_SIZE;
               e_aligned = (if e_up > m_max_managed_paddr p then m_max_managed_paddr p else e_up)
           in if s_aligned \<ge> m_max_managed_paddr p then p
              else let start_frame = unat (s_aligned div PAGE_SIZE);
                       end_frame = unat (e_aligned div PAGE_SIZE)
                   in p\<lparr>m_bitmap := fold (\<lambda>f bm. bm_set bm f)
                          [start_frame..<min end_frame (m_total_frames p)] (m_bitmap p)\<rparr>)"

definition max_usable_addr :: "memory_map_entry list \<Rightarrow> u64" where
  "max_usable_addr entries =
     foldl (\<lambda>mx entry. if entry_type entry = MT_Available
              then (let entry_end = base_addr entry + entry_length entry
                    in if entry_end > mx then entry_end else mx)
              else mx) 0 entries"

definition bitmap_bytes :: "nat \<Rightarrow> u64" where
  "bitmap_bytes total_frames =
     (let bytes = (of_nat total_frames + 7) div 8 in (bytes + 7) AND NOT 7)"

definition placement_ok :: "reserved_tracker \<Rightarrow> u64 \<Rightarrow> u64 \<Rightarrow> u64 \<Rightarrow> u64 \<Rightarrow> bool" where
  "placement_ok tracker mb2_paddr mb2_size bytes cur =
     (let mb2_end = mb2_paddr + mb2_size;
          mb2_collision = (cur < mb2_end \<and> cur + bytes > mb2_paddr);
          reserved_collision = overlaps_reserved tracker cur bytes
      in \<not> mb2_collision \<and> \<not> reserved_collision)"

text \<open>The inner \<open>while\<close> scans page by page; \<open>None\<close> is a scan that never ends,
  \<open>Some None\<close> one that leaves the entry without a placement.\<close>

partial_function (option) scan_entry ::
  "(u64 \<Rightarrow> bool) \<Rightarrow> u64 \<Rightarrow> u64 \<Rightarrow> u64 \<Rightarrow> u64 option option" where
  [code]: "scan_entry ok bytes entry_end cur =
     (if cur + bytes \<le> entry_end then
        (if ok cur then Some (Some cur) else scan_entry ok bytes entry_end (cur + PAGE_SIZE))
      else Some None)"

fun find_placement ::
  "(u64 \<Rightarrow> bool) \<Rightarrow> u64 \<Rightarrow> u64 \<Rightarrow> memory_map_entry list \<Rightarrow> u64 option option" where
  "find_placement ok bytes search_start [] = Some None"
| "find_placement ok bytes search_start (entry # rest) =
     (if entry_type entry \<noteq> MT_Available then find_placement ok bytes search_start rest
      else let entry_base = base_addr entry;
               entry_end = entry_base + entry_length entry;
               cur = (if entry_base > search_start then addr_align_up entry_base PAGE_SIZE else search_start)
           in case scan_entry ok bytes entry_end cur of
                None \<Rightarrow> None
              | Some (Some c) \<Rightarrow> Some (Some c)
              | Some None \<Rightarrow> find_placement ok bytes search_start rest)"

definition free_region :: "pmm \<Rightarrow> region \<Rightarrow> u64 list \<Rightarrow> u64 list" where
  "free_region p r bm =
     (if region_is_available r then
        let e = (if r_end r > m_max_managed_paddr p then m_max_managed_paddr p else r_end r)
        in if r_start r < e then
             let start_frame = unat (r_start r div PAGE_SIZE); end_frame = unat (e div PAGE_SIZE)
             in fold (\<lambda>f bm. bm_clear bm f) [start_frame..<min end_frame (m_total_frames p)] bm
           else bm
      else bm)"

definition reserve_entry :: "memory_map_entry \<Rightarrow> pmm \<Rightarrow> pmm" where
  "reserve_entry entry p =
     (if entry_type entry \<noteq> MT_Available then
        reserve_range p (addr_align_down (base_addr entry) PAGE_SIZE)
          (addr_align_up (base_addr entry + entry_length entry) PAGE_SIZE)
      else p)"

text \<open>Steps 3 and 4 fill the bitmap with ones and clear the available regions, step 5
  re-reserves what must never be handed out, step 6 tallies the counters.\<close>

definition mark_free :: "pmm \<Rightarrow> region list \<Rightarrow> pmm" where
  "mark_free p regions =
     p\<lparr>m_bitmap := fold (free_region p) regions (replicate (unat (m_bitmap_size_bytes p) div 8) (- 1))\<rparr>"

definition reserve_overrides :: "pmm \<Rightarrow> boot_information \<Rightarrow> u64 \<Rightarrow> u64 \<Rightarrow> u64 \<Rightarrow> u64 \<Rightarrow> pmm" where
  "reserve_overrides p bi kernel_start kernel_end mb2_paddr mb2_size =
     (let pa = reserve_range p 0 0x100000;
          pb = reserve_range pa (addr_align_down kernel_start PAGE_SIZE) (addr_align_up kernel_end PAGE_SIZE);
          pc = (if mb2_paddr \<noteq> 0 \<and> mb2_size > 0
                then reserve_range pb (addr_align_down mb2_paddr PAGE_SIZE)
                       (addr_align_up (mb2_paddr + mb2_size) PAGE_SIZE)
                else pb);
          pd = reserve_range pc (m_bitmap_paddr pc) (m_bitmap_paddr pc + m_bitmap_size_bytes pc)
      in fold reserve_entry (mmap_entries bi) pd)"

definition tally :: "pmm \<Rightarrow> pmm" where
  "tally p =
     (let free_count = of_nat (length (filter (\<lambda>f. \<not> bm_test (m_bitmap p) f) [0..<m_total_frames p]))
      in p\<lparr>m_free_frames := free_count, m_usable_frames := free_count,
           m_reserved_frames := of_nat (m_total_frames p) - free_count, m_allocated_frames := 0,
           m_last_search_frame := 0, m_initialized := True\<rparr>)"

definition pmm_init ::
  "pmm \<Rightarrow> boot_information \<Rightarrow> reserved_tracker \<Rightarrow> u64 \<Rightarrow> u64 \<Rightarrow> u64 \<Rightarrow> u64
     \<Rightarrow> (bool \<times> pmm \<times> reserved_tracker) option" where
  "pmm_init p0 bi tracker kernel_start kernel_end mb2_paddr mb2_size =
     (let p1 = p0\<lparr>m_initialized := False, m_tracker := Some tracker, m_force_alloc_failure := False\<rparr>;
          mx = max_usable_addr (mmap_entries bi)
      in if mx = 0 then Some (False, p1, tracker)
         else
           let max_managed = addr_align_up mx (2 * 1024 * 1024);
               total = unat (max_managed div PAGE_SIZE);
               bytes = bitmap_bytes total;
               p2 = p1\<lparr>m_max_managed_paddr := max_managed, m_total_frames := total,
                       m_bitmap_size_bytes := bytes\<rparr>;
               search_start = addr_align_up kernel_end PAGE_SIZE
           in case find_placement (placement_ok tracker mb2_paddr mb2_size bytes) bytes search_start (mmap_entries bi) of
                None \<Rightarrow> None
              | Some None \<Rightarrow> Some (False, p2, tracker)
              | Some (Some cand) \<Rightarrow>
                  let tracker' = snd (register_pmm_bitmap tracker cand bytes);
                      p3 = p2\<lparr>m_bitmap_paddr := cand, m_tracker := Some tracker'\<rparr>;
                      p4 = mark_free p3 (m_regions tracker');
                      p5 = reserve_overrides p4 bi kernel_start kernel_end mb2_paddr mb2_size
                  in Some (True, tally p5, tracker'))"

section \<open>Single pages\<close>

definition alloc_candidate :: "pmm \<Rightarrow> nat \<Rightarrow> nat option" where
  "alloc_candidate p w_offset =
     (let words = m_total_frames p div 64;
          start_word = m_last_search_frame p div 64;
          w = (start_word + w_offset) mod words
      in if m_bitmap p ! w \<noteq> 0xFFFFFFFFFFFFFFFF then
           let frame = w * 64 + ctzll (NOT (m_bitmap p ! w))
           in if frame < m_total_frames p then Some frame else None
         else None)"

definition alloc_page :: "pmm \<times> page_mem \<Rightarrow> u64 \<times> pmm \<times> page_mem" where
  "alloc_page = (\<lambda>(p, mem).
     if \<not> m_initialized p \<or> m_free_frames p = 0 \<or> m_force_alloc_failure p then (0, p, mem)
     else case first_some (alloc_candidate p) [0..<m_total_frames p div 64] of
            None \<Rightarrow> (0, p, mem)
          | Some frame \<Rightarrow>
              let p' = p\<lparr>m_bitmap := bm_set (m_bitmap p) frame,
                         m_free_frames := m_free_frames p - 1,
                         m_allocated_frames := m_allocated_frames p + 1,
                         m_last_search_frame := frame + 1\<rparr>;
                  paddr = of_nat frame * PAGE_SIZE
              in (paddr, p', if is_direct_mapped paddr then zero_page mem paddr else mem))"

definition free_page :: "pmm \<Rightarrow> u64 \<Rightarrow> bool \<times> pmm" where
  "free_page p paddr =
     (if \<not> m_initialized p then (False, p)
      else if \<not> is_page_aligned paddr \<or> paddr = 0 \<or> paddr \<ge> m_max_managed_paddr p then (False, p)
      else if (case m_tracker p of None \<Rightarrow> False | Some t \<Rightarrow> is_reserved t paddr) then (False, p)
      else let frame = unat (paddr div PAGE_SIZE) in
        if \<not> bm_test (m_bitmap p) frame then (False, p)
        else if m_allocated_frames p = 0 then (False, p)
        else (True, p\<lparr>m_bitmap := bm_clear (m_bitmap p) frame,
                      m_free_frames := m_free_frames p + 1,
                      m_allocated_frames := m_allocated_frames p - 1,
                      m_last_search_frame := (if frame < m_last_search_frame p then frame
                                              else m_last_search_frame p)\<rparr>))"

section \<open>Contiguous pages\<close>

text \<open>One scan for a run of \<open>needed\<close> clear bits over the frames of a list, with the
  loop's \<open>run_start\<close> and \<open>run_len\<close> as arguments.\<close>

fun find_run :: "u64 list \<Rightarrow> nat \<Rightarrow> nat list \<Rightarrow> nat \<Rightarrow> nat \<Rightarrow> nat option" where
  "find_run bm needed [] run_start run_len = None"
| "find_run bm needed (f # fs) run_start run_len =
     (if \<not> bm_test bm f then
        let rs = (if run_len = 0 then f else run_start)
        in if run_len + 1 = needed then Some rs else find_run bm needed fs rs (run_len + 1)
      else find_run bm needed fs run_start 0)"

fun zero_pages :: "page_mem \<Rightarrow> u64 \<Rightarrow> nat \<Rightarrow> page_mem" where
  "zero_pages mem paddr 0 = mem"
| "zero_pages mem paddr (Suc n) = zero_pages (zero_page mem paddr) (paddr + PAGE_SIZE) n"

definition take_run :: "pmm \<Rightarrow> page_mem \<Rightarrow> u64 \<Rightarrow> nat \<Rightarrow> u64 \<times> pmm \<times> page_mem" where
  "take_run p mem cnt run_start =
     (let needed = unat cnt;
          p' = p\<lparr>m_bitmap := fold (\<lambda>i bm. bm_set bm (run_start + i)) [0..<needed] (m_bitmap p),
                 m_free_frames := m_free_frames p - cnt,
                 m_allocated_frames := m_allocated_frames p + cnt,
                 m_last_search_frame := run_start + needed\<rparr>;
          paddr = of_nat run_start * PAGE_SIZE
      in (paddr, p', if is_direct_mapped (paddr + pages_to_bytes cnt)
                     then zero_pages mem paddr needed else mem))"

definition alloc_pages :: "pmm \<times> page_mem \<Rightarrow> u64 \<Rightarrow> u64 \<times> pmm \<times> page_mem" where
  "alloc_pages = (\<lambda>(p, mem) cnt.
     if \<not> m_initialized p \<or> cnt = 0 \<or> m_free_frames p < cnt \<or> m_force_alloc_failure p then (0, p, mem)
     else if cnt = 1 then alloc_page (p, mem)
     else if unat cnt > m_total_frames p then (0, p, mem)
     else case find_run (m_bitmap p) (unat cnt) [m_last_search_frame p..<m_total_frames p] 0 0 of
            Some run_start \<Rightarrow> take_run p mem cnt run_start
          | None \<Rightarrow>
             (case find_run (m_bitmap p) (unat cnt)
                     [0..<min (m_last_search_frame p) (m_total_frames p)] 0 0 of
                Some run_start \<Rightarrow> take_run p mem cnt run_start
              | None \<Rightarrow> (0, p, mem)))"

fun free_pages_loop :: "pmm \<Rightarrow> u64 \<Rightarrow> nat \<Rightarrow> bool \<Rightarrow> bool \<times> pmm" where
  "free_pages_loop p cur 0 all_ok = (all_ok, p)"
| "free_pages_loop p cur (Suc n) all_ok =
     (let (ok, p') = free_page p cur in free_pages_loop p' (cur + PAGE_SIZE) n (all_ok \<and> ok))"

definition free_pages :: "pmm \<Rightarrow> u64 \<Rightarrow> u64 \<Rightarrow> bool \<times> pmm" where
  "free_pages p paddr cnt =
     (if \<not> m_initialized p \<or> cnt = 0 \<or> \<not> is_page_aligned paddr \<or> paddr = 0 then (False, p)
      else if paddr > - 1 - pages_to_bytes cnt then (False, p)
      else free_pages_loop p paddr (unat cnt) True)"

section \<open>Queries\<close>

definition is_frame_allocated :: "pmm \<Rightarrow> u64 \<Rightarrow> bool" where
  "is_frame_allocated p pfn =
     (if \<not> m_initialized p \<or> unat pfn \<ge> m_total_frames p then True
      else bm_test (m_bitmap p) (unat pfn))"

definition is_page_allocated :: "pmm \<Rightarrow> u64 \<Rightarrow> bool" where
  "is_page_allocated p paddr = is_frame_allocated p (pfn_from_address paddr)"

fun longest_run :: "u64 list \<Rightarrow> nat list \<Rightarrow> nat \<Rightarrow> nat \<Rightarrow> nat" where
  "longest_run bm [] cur_run max_run = max_run"
| "longest_run bm (f # fs) cur_run max_run =
     (if \<not> bm_test bm f then
        longest_run bm fs (cur_run + 1) (if cur_run + 1 > max_run then cur_run + 1 else max_run)
      else longest_run bm fs 0 max_run)"

definition largest_contiguous_free_pages :: "pmm \<Rightarrow> nat" where
  "largest_contiguous_free_pages p =
     (if \<not> m_initialized p \<or> m_free_frames p = 0 then 0
      else longest_run (m_bitmap p) [0..<m_total_frames p] 0 0)"

section \<open>Bitmap facts\<close>

lemma bm_test_bit: "bm_test bm f \<longleftrightarrow> bit (bm ! (f div 64)) (f mod 64)"
proof -
  have "push_bit (f mod 64) (1 :: u64) = 2 ^ (f mod 64)" by (rule push_bit_of_1)
  then show ?thesis by (simp add: bm_test_def and_exp_eq_0_iff_not_bit)
qed

lemma length_bm [simp]: "length (bm_set bm f) = length bm" "length (bm_clear bm f) = length bm"
  by (simp_all add: bm_set_def bm_clear_def)

lemma frame_split: "f div 64 = g div 64 \<Longrightarrow> f mod 64 = g mod 64 \<Longrightarrow> f = g" for f g :: nat
  by (metis div_mult_mod_eq)

lemma bit_or_push: "n < 64 \<Longrightarrow> bit (w OR push_bit m 1) n \<longleftrightarrow> bit w n \<or> n = m" for w :: u64
  by (auto simp: bit_simps)

lemma bit_and_not_push: "n < 64 \<Longrightarrow> bit (w AND NOT (push_bit m 1)) n \<longleftrightarrow> bit w n \<and> n \<noteq> m" for w :: u64
  by (auto simp: bit_simps)

lemma bm_test_set:
  assumes "f div 64 < length bm"
  shows "bm_test (bm_set bm f) g \<longleftrightarrow> g = f \<or> bm_test bm g"
proof (cases "f div 64 = g div 64")
  case True
  then have "bm_test (bm_set bm f) g \<longleftrightarrow> bit (bm ! (g div 64) OR push_bit (f mod 64) 1) (g mod 64)"
    using assms by (simp add: bm_test_bit bm_set_def)
  also have "\<dots> \<longleftrightarrow> bm_test bm g \<or> g mod 64 = f mod 64" unfolding bm_test_bit by (rule bit_or_push) simp
  also have "\<dots> \<longleftrightarrow> g = f \<or> bm_test bm g" using True frame_split[of g f] by metis
  finally show ?thesis .
next
  case False
  then show ?thesis by (metis bm_test_bit bm_set_def nth_list_update_neq)
qed

lemma bm_test_clear:
  assumes "f div 64 < length bm"
  shows "bm_test (bm_clear bm f) g \<longleftrightarrow> g \<noteq> f \<and> bm_test bm g"
proof (cases "f div 64 = g div 64")
  case True
  then have "bm_test (bm_clear bm f) g \<longleftrightarrow> bit (bm ! (g div 64) AND NOT (push_bit (f mod 64) 1)) (g mod 64)"
    using assms by (simp add: bm_test_bit bm_clear_def)
  also have "\<dots> \<longleftrightarrow> bm_test bm g \<and> g mod 64 \<noteq> f mod 64" unfolding bm_test_bit by (rule bit_and_not_push) simp
  also have "\<dots> \<longleftrightarrow> g \<noteq> f \<and> bm_test bm g" using True frame_split[of g f] by metis
  finally show ?thesis .
next
  case False
  then show ?thesis by (metis bm_test_bit bm_clear_def nth_list_update_neq)
qed

lemma fold_bm_set:
  assumes "\<forall>f\<in>set fs. f div 64 < length bm"
  shows "bm_test (fold (\<lambda>f bm. bm_set bm f) fs bm) g \<longleftrightarrow> g \<in> set fs \<or> bm_test bm g"
    and "length (fold (\<lambda>f bm. bm_set bm f) fs bm) = length bm"
  using assms by (induction fs arbitrary: bm) (auto simp: bm_test_set)

lemma fold_bm_clear:
  assumes "\<forall>f\<in>set fs. f div 64 < length bm"
  shows "bm_test (fold (\<lambda>f bm. bm_clear bm f) fs bm) g \<longleftrightarrow> g \<notin> set fs \<and> bm_test bm g"
    and "length (fold (\<lambda>f bm. bm_clear bm f) fs bm) = length bm"
  using assms by (induction fs arbitrary: bm) (auto simp: bm_test_clear)

lemma ctzll_bit:
  assumes "x \<noteq> 0" shows "ctzll x < 64 \<and> bit x (ctzll x)"
proof -
  obtain n where "bit x n" using assms by (metis bit_eq_iff bit_0_eq bot_apply bot_bool_def)
  moreover from this have "n < 64" by (drule_tac bit_imp_le_length) simp
  ultimately have "List.find (bit x) [0..<64] \<noteq> None" by (auto simp: find_None_iff)
  then obtain i where i: "List.find (bit x) [0..<64] = Some i" by blast
  then have "ctzll x = i" by (simp add: ctzll_def)
  with i show ?thesis by (auto simp: find_Some_iff)
qed

lemma first_some_None: "first_some f xs = None \<longleftrightarrow> (\<forall>x\<in>set xs. f x = None)"
  by (induction xs) (auto split: option.splits)

lemma first_some_Some: "first_some f xs = Some y \<Longrightarrow> \<exists>x\<in>set xs. f x = Some y"
  by (induction xs) (auto split: option.splits)

section \<open>Free frames and the invariant\<close>

definition frame_addr :: "nat \<Rightarrow> u64" where
  "frame_addr f = of_nat f * PAGE_SIZE"

definition free_set :: "pmm \<Rightarrow> nat set" where
  "free_set p = {f. f < m_total_frames p \<and> \<not> bm_test (m_bitmap p) f}"

definition pmm_inv :: "pmm \<Rightarrow> bool" where
  "pmm_inv p \<longleftrightarrow> m_initialized p
     \<and> m_total_frames p \<le> 64 * length (m_bitmap p)
     \<and> unat (m_max_managed_paddr p) = m_total_frames p * 4096
     \<and> unat (m_free_frames p) = card (free_set p)
     \<and> unat (m_free_frames p) + unat (m_allocated_frames p) = unat (m_usable_frames p)
     \<and> unat (m_usable_frames p) \<le> m_total_frames p
     \<and> m_last_search_frame p \<le> m_total_frames p
     \<and> 0 \<notin> free_set p
     \<and> (\<forall>t f. m_tracker p = Some t \<longrightarrow> f \<in> free_set p \<longrightarrow> \<not> is_reserved t (frame_addr f))"

lemma finite_free_set [simp]: "finite (free_set p)"
  by (simp add: free_set_def)

lemma unat_frame_addr: "f < 2 ^ 52 \<Longrightarrow> unat (frame_addr f) = f * 4096"
proof -
  assume f: "f < 2 ^ 52"
  then have "unat (of_nat f :: u64) = f" by (simp add: unat_of_nat)
  with f show ?thesis by (simp add: frame_addr_def unat_mult_nowrap)
qed

lemma total_frames_bound: "pmm_inv p \<Longrightarrow> m_total_frames p < 2 ^ 52"
proof -
  assume "pmm_inv p"
  then have "unat (m_max_managed_paddr p) = m_total_frames p * 4096" by (simp only: pmm_inv_def)
  then show ?thesis using unat_below[of "m_max_managed_paddr p"] by simp
qed

lemma free_frame_bound: "pmm_inv p \<Longrightarrow> f < m_total_frames p \<Longrightarrow> f < 2 ^ 52"
  using total_frames_bound by (rule less_trans[rotated])

lemma frame_addr_inj:
  "f < 2 ^ 52 \<Longrightarrow> g < 2 ^ 52 \<Longrightarrow> frame_addr f = frame_addr g \<Longrightarrow> f = g"
  by (metis unat_frame_addr mult_cancel2 zero_neq_numeral)

lemma frame_addr_aligned [simp]: "is_page_aligned (frame_addr f)"
proof -
  have "(4096 :: nat) dvd 2 ^ LENGTH(64)" by simp
  then have "(4096 :: nat) dvd unat (of_nat f :: u64) * 4096 mod 2 ^ LENGTH(64)"
    using dvd_mod[OF dvd_triv_right, of 4096] by blast
  then show ?thesis
    unfolding is_page_aligned_iff frame_addr_def unat_word_ariths unat_PAGE_SIZE .
qed

lemma frame_addr_of_paddr:
  "is_page_aligned a \<Longrightarrow> frame_addr (unat (a div PAGE_SIZE)) = a"
  using pfn_to_from[of a] by (simp add: frame_addr_def pfn_to_address_def pfn_from_address_def)

lemma frame_index: "f < 2 ^ 52 \<Longrightarrow> unat (frame_addr f div PAGE_SIZE) = f"
  by (simp add: unat_div_distrib unat_frame_addr)

section \<open>Single-page allocation\<close>

lemma bm_index: "m_total_frames p \<le> 64 * length (m_bitmap p) \<Longrightarrow> f < m_total_frames p \<Longrightarrow> f div 64 < length (m_bitmap p)"
  by (rule less_mult_imp_div_less) simp

lemma all_ones: "(0xFFFFFFFFFFFFFFFF :: u64) = - 1"
  by simp

lemma not_all_ones: "x \<noteq> 0xFFFFFFFFFFFFFFFF \<longleftrightarrow> NOT x \<noteq> 0" for x :: u64
  unfolding all_ones by (metis bit.double_compl bit.compl_zero)

lemma frame_of_word: "c < 64 \<Longrightarrow> (w * 64 + c) div 64 = w \<and> (w * 64 + c) mod 64 = c" for w c :: nat
  by simp

lemma alloc_candidate_free:
  assumes "alloc_candidate p k = Some f" shows "f \<in> free_set p"
proof -
  let ?w = "(m_last_search_frame p div 64 + k) mod (m_total_frames p div 64)"
  let ?x = "m_bitmap p ! ?w"
  have c: "?x \<noteq> 0xFFFFFFFFFFFFFFFF" and f: "f = ?w * 64 + ctzll (NOT ?x)" "f < m_total_frames p"
    using assms by (auto simp: alloc_candidate_def Let_def split: if_splits)
  have "NOT ?x \<noteq> 0" using c not_all_ones by blast
  then have b: "ctzll (NOT ?x) < 64" "bit (NOT ?x) (ctzll (NOT ?x))" using ctzll_bit by blast+
  have "f div 64 = ?w \<and> f mod 64 = ctzll (NOT ?x)" unfolding f(1) by (rule frame_of_word[OF b(1)])
  then have "\<not> bm_test (m_bitmap p) f" using b(2) unfolding bm_test_bit by (metis bit_not_iff)
  then show ?thesis using f(2) unfolding free_set_def by blast
qed

lemma alloc_search_Some:
  "first_some (alloc_candidate p) xs = Some f \<Longrightarrow> f \<in> free_set p"
  by (drule first_some_Some) (auto dest: alloc_candidate_free)

lemma word_offset:
  fixes w n s :: nat
  assumes "w < n" shows "\<exists>k<n. (s + k) mod n = w"
proof -
  have r: "s mod n < n" using assms by (intro mod_less_divisor) simp
  show ?thesis
  proof (cases "s mod n \<le> w")
    case True
    have "(s + (w - s mod n)) mod n = (s mod n + (w - s mod n)) mod n" by (rule mod_add_left_eq[symmetric])
    also have "\<dots> = w" unfolding le_add_diff_inverse[OF True] using assms by (rule mod_less)
    finally show ?thesis using less_imp_diff_less[OF assms] by blast
  next
    case False
    then have "s mod n + (w + n - s mod n) = w + n" using r by simp
    then have "(s + (w + n - s mod n)) mod n = (w + n) mod n" using mod_add_left_eq[of s n "w + n - s mod n"] by argo
    also have "\<dots> = w" using assms by simp
    finally have "(s + (w + n - s mod n)) mod n = w" .
    moreover have "w + n - s mod n < n" using False r by simp
    ultimately show ?thesis by blast
  qed
qed

lemma alloc_search_total:
  assumes "64 dvd m_total_frames p" "f \<in> free_set p"
  shows "first_some (alloc_candidate p) [0..<m_total_frames p div 64] \<noteq> None"
proof -
  let ?n = "m_total_frames p div 64" and ?w = "f div 64"
  have n: "m_total_frames p = ?n * 64" using assms(1) by simp
  have f: "f < m_total_frames p" "\<not> bm_test (m_bitmap p) f" using assms(2) by (auto simp: free_set_def)
  have w: "?w < ?n" using f(1) n by (metis less_mult_imp_div_less)
  obtain k where k: "k < ?n" "(m_last_search_frame p div 64 + k) mod ?n = ?w" using word_offset[OF w] by blast
  have "\<not> bit (m_bitmap p ! ?w) (f mod 64)" using f(2) by (simp add: bm_test_bit)
  then have ne: "m_bitmap p ! ?w \<noteq> 0xFFFFFFFFFFFFFFFF"
    by (auto simp: all_ones)
  then have "NOT (m_bitmap p ! ?w) \<noteq> 0" using not_all_ones by blast
  then have "ctzll (NOT (m_bitmap p ! ?w)) < 64" using ctzll_bit by blast
  then have "?w * 64 + ctzll (NOT (m_bitmap p ! ?w)) < m_total_frames p" using w n by linarith
  then have "alloc_candidate p k \<noteq> None" using ne k(2) by (simp add: alloc_candidate_def Let_def)
  then show ?thesis using k(1) by (auto simp: first_some_None)
qed

lemma pmm_invD:
  assumes "pmm_inv p"
  shows "m_initialized p" "m_total_frames p \<le> 64 * length (m_bitmap p)"
    "unat (m_max_managed_paddr p) = m_total_frames p * 4096"
    "unat (m_free_frames p) = card (free_set p)"
    "unat (m_free_frames p) + unat (m_allocated_frames p) = unat (m_usable_frames p)"
    "unat (m_usable_frames p) \<le> m_total_frames p" "m_last_search_frame p \<le> m_total_frames p" "0 \<notin> free_set p"
    "\<And>t f. m_tracker p = Some t \<Longrightarrow> f \<in> free_set p \<Longrightarrow> \<not> is_reserved t (frame_addr f)"
  using assms unfolding pmm_inv_def by auto

lemma free_setD: "f \<in> free_set p \<Longrightarrow> f < m_total_frames p" "f \<in> free_set p \<Longrightarrow> \<not> bm_test (m_bitmap p) f"
  by (simp_all add: free_set_def)

text \<open>Taking a set of \<open>n\<close> free frames out of the bitmap with the counters moved by
  \<open>n\<close> preserves the invariant; both allocation paths are instances.\<close>

lemma take_frames_inv:
  assumes inv: "pmm_inv p" and S: "S \<subseteq> free_set p" "card S = unat n"
    and bm: "length bm = length (m_bitmap p)" "\<And>g. bm_test bm g \<longleftrightarrow> g \<in> S \<or> bm_test (m_bitmap p) g"
    and l: "l \<le> m_total_frames p"
  defines "p' \<equiv> p\<lparr>m_bitmap := bm, m_free_frames := m_free_frames p - n,
                   m_allocated_frames := m_allocated_frames p + n, m_last_search_frame := l\<rparr>"
  shows "pmm_inv p'" "free_set p' = free_set p - S"
proof -
  note D = pmm_invD[OF inv]
  show fs: "free_set p' = free_set p - S" by (auto simp: free_set_def p'_def bm(2))
  have le: "unat n \<le> unat (m_free_frames p)" using S D(4) card_mono[OF finite_free_set S(1)] by simp
  have u1: "unat (m_free_frames p - n) = unat (m_free_frames p) - unat n"
    using le by (simp add: unat_sub word_le_nat_alt)
  have "unat (m_allocated_frames p) + unat n < 2 ^ 64"
    using le D(5,6) total_frames_bound[OF inv] by simp
  then have u2: "unat (m_allocated_frames p + n) = unat (m_allocated_frames p) + unat n"
    by (simp add: unat_add_nowrap)
  have c: "card (free_set p') = card (free_set p) - unat n"
    using S finite_subset[OF S(1)] by (simp add: fs card_Diff_subset)
  have z: "0 \<notin> free_set p'" using fs D(8) by simp
  have t: "\<And>t f. m_tracker p' = Some t \<Longrightarrow> f \<in> free_set p' \<Longrightarrow> \<not> is_reserved t (frame_addr f)"
    using fs D(9) by (simp add: p'_def)
  show "pmm_inv p'"
    unfolding pmm_inv_def using D(1-3,6) u1 u2 c le D(4,5) z t l bm(1) by (simp add: p'_def)
qed

lemma alloc_page_spec:
  assumes inv: "pmm_inv p" and a: "alloc_page (p, mem) = (a, p', mem')"
  shows "(a = 0 \<and> p' = p \<and> mem' = mem) \<or>
    (\<exists>f\<in>free_set p. a = frame_addr f \<and> a \<noteq> 0 \<and> free_set p' = free_set p - {f} \<and> pmm_inv p'
       \<and> mem' = (if is_direct_mapped a then zero_page mem a else mem)
       \<and> m_tracker p' = m_tracker p \<and> m_total_frames p' = m_total_frames p
       \<and> m_force_alloc_failure p' = m_force_alloc_failure p)"
proof (cases "\<not> m_initialized p \<or> m_free_frames p = 0 \<or> m_force_alloc_failure p
    \<or> first_some (alloc_candidate p) [0..<m_total_frames p div 64] = None")
  case True
  then have "alloc_page (p, mem) = (0, p, mem)" by (auto simp: alloc_page_def split: option.split)
  then show ?thesis using a by simp
next
  case False
  then obtain f where f: "first_some (alloc_candidate p) [0..<m_total_frames p div 64] = Some f" by blast
  note D = pmm_invD[OF inv]
  have ff: "f \<in> free_set p" by (rule alloc_search_Some[OF f])
  then have lt: "f < m_total_frames p" by (rule free_setD)
  let ?p = "p\<lparr>m_bitmap := bm_set (m_bitmap p) f, m_free_frames := m_free_frames p - 1,
              m_allocated_frames := m_allocated_frames p + 1, m_last_search_frame := f + 1\<rparr>"
  have e: "a = frame_addr f" "p' = ?p" "mem' = (if is_direct_mapped a then zero_page mem a else mem)"
    using a False f by (auto simp: alloc_page_def Let_def frame_addr_def)
  have t: "bm_test (bm_set (m_bitmap p) f) g \<longleftrightarrow> g \<in> {f} \<or> bm_test (m_bitmap p) g" for g
    using bm_test_set[OF bm_index[OF D(2) lt]] by simp
  have inv': "pmm_inv ?p" "free_set ?p = free_set p - {f}"
    using take_frames_inv[OF inv, of "{f}" 1 "bm_set (m_bitmap p) f" "f + 1"] ff t lt by simp_all
  have "f \<noteq> 0" using ff D(8) by metis
  then have "unat (frame_addr f) \<noteq> 0" using unat_frame_addr[OF free_frame_bound[OF inv lt]] by simp
  then have "frame_addr f \<noteq> 0" by auto
  then show ?thesis using e inv' ff by auto
qed

lemma alloc_page_succeeds:
  assumes "pmm_inv p" "64 dvd m_total_frames p" "\<not> m_force_alloc_failure p" "m_free_frames p \<noteq> 0"
  shows "fst (alloc_page (p, mem)) \<noteq> 0"
proof -
  have "unat (m_free_frames p) \<noteq> 0" using assms(4) by (simp add: unat_eq_zero)
  then have "free_set p \<noteq> {}" using pmm_invD(4)[OF assms(1)] by auto
  then obtain f where "f \<in> free_set p" by blast
  then obtain g where g: "first_some (alloc_candidate p) [0..<m_total_frames p div 64] = Some g"
    using alloc_search_total[OF assms(2)] by blast
  note D = pmm_invD[OF assms(1)]
  have gf: "g \<in> free_set p" by (rule alloc_search_Some[OF g])
  then have "g \<noteq> 0" using D(8) by metis
  then have "unat (frame_addr g) \<noteq> 0"
    using unat_frame_addr[OF free_frame_bound[OF assms(1) free_setD(1)[OF gf]]] by simp
  then have "frame_addr g \<noteq> 0" by auto
  then show ?thesis using g D(1) assms(3,4) by (simp add: alloc_page_def Let_def frame_addr_def)
qed

section \<open>Single-page release\<close>

lemma free_page_spec:
  assumes inv: "pmm_inv p" and f: "free_page p a = (ok, p')"
  shows "(\<not> ok \<and> p' = p) \<or>
    (ok \<and> (\<exists>f < m_total_frames p. a = frame_addr f \<and> f \<notin> free_set p \<and> free_set p' = insert f (free_set p))
       \<and> pmm_inv p' \<and> a \<noteq> 0 \<and> m_tracker p' = m_tracker p \<and> m_total_frames p' = m_total_frames p
       \<and> (\<forall>t. m_tracker p = Some t \<longrightarrow> \<not> is_reserved t a))"
proof (cases ok)
  case False
  then show ?thesis using f by (auto simp: free_page_def Let_def split: if_splits)
next
  case True
  let ?f = "unat (a div PAGE_SIZE)"
  note D = pmm_invD[OF inv]
  have c: "is_page_aligned a" "a \<noteq> 0" "a < m_max_managed_paddr p"
    "\<not> (case m_tracker p of None \<Rightarrow> False | Some t \<Rightarrow> is_reserved t a)"
    "bm_test (m_bitmap p) ?f" "m_allocated_frames p \<noteq> 0"
    and p': "p' = p\<lparr>m_bitmap := bm_clear (m_bitmap p) ?f, m_free_frames := m_free_frames p + 1,
                      m_allocated_frames := m_allocated_frames p - 1,
                      m_last_search_frame := (if ?f < m_last_search_frame p then ?f else m_last_search_frame p)\<rparr>"
    using f True by (auto simp: free_page_def Let_def split: if_splits)
  have fa: "frame_addr ?f = a" by (rule frame_addr_of_paddr[OF c(1)])
  have ua: "unat a = ?f * 4096" using c(1) by (simp add: is_page_aligned_iff unat_div_distrib)
  have "unat a < unat (m_max_managed_paddr p)" using c(3) by (simp add: word_less_nat_alt)
  then have lt: "?f < m_total_frames p" using ua D(3) by (metis mult_less_cancel2)
  have nf: "?f \<notin> free_set p" using c(5) unfolding free_set_def by blast
  have t: "bm_test (bm_clear (m_bitmap p) ?f) g \<longleftrightarrow> g \<noteq> ?f \<and> bm_test (m_bitmap p) g" for g
    by (rule bm_test_clear[OF bm_index[OF D(2) lt]])
  have fs: "free_set p' = insert ?f (free_set p)" using lt unfolding free_set_def p' by (auto simp: t)
  have "unat (m_allocated_frames p) \<noteq> 0" using c(6) by (simp add: unat_eq_zero)
  then have u: "unat (m_allocated_frames p - 1) = unat (m_allocated_frames p) - 1"
    using c(6) by (simp add: unat_minus_one)
  have "unat (m_free_frames p) + 1 < 2 ^ 64"
    using D(5,6) total_frames_bound[OF inv] \<open>unat (m_allocated_frames p) \<noteq> 0\<close> by simp
  then have u2: "unat (m_free_frames p + 1) = unat (m_free_frames p) + 1"
    by (subst unat_add_nowrap) simp_all
  have "?f \<noteq> 0" using ua c(2) by (metis mult_0 unat_eq_zero)
  then have z: "0 \<notin> free_set p'" using fs D(8) by (metis insertE)
  have tr: "\<not> is_reserved t (frame_addr f)" if "m_tracker p' = Some t" "f \<in> free_set p'" for t f
  proof -
    have "m_tracker p = Some t" using that(1) by (simp add: p')
    then show ?thesis using that(2) fs D(9) c(4) fa by (cases "f = ?f") auto
  qed
  have ls: "m_last_search_frame p' \<le> m_total_frames p" using D(7) lt by (simp add: p')
  have "card (free_set p') = Suc (card (free_set p))" using nf by (simp add: fs)
  then have "pmm_inv p'"
    unfolding pmm_inv_def using D(1-6) u u2 z tr ls \<open>unat (m_allocated_frames p) \<noteq> 0\<close> by (simp add: p')
  then show ?thesis using True fs nf lt fa c(2,4) by (auto simp: p' split: option.splits)
qed

section \<open>Contiguous allocation\<close>

lemma find_run_sound:
  assumes "find_run bm n [a..<b] rs rl = Some r" "rl < n"
    and "rl \<noteq> 0 \<Longrightarrow> rs + rl = a \<and> (\<forall>g. rs \<le> g \<longrightarrow> g < a \<longrightarrow> \<not> bm_test bm g)"
  shows "r + n \<le> b \<and> (\<forall>g. r \<le> g \<longrightarrow> g < r + n \<longrightarrow> \<not> bm_test bm g)"
  using assms
proof (induction "b - a" arbitrary: a rs rl)
  case 0
  then show ?case by simp
next
  case (Suc d)
  then have ab: "a < b" by simp
  then have u: "[a..<b] = a # [Suc a..<b]" by (rule upt_conv_Cons)
  have d: "d = b - Suc a" using Suc.hyps(2) by simp
  show ?case
  proof (cases "bm_test bm a")
    case True
    then have "find_run bm n [Suc a..<b] rs 0 = Some r" using Suc.prems(1) u by simp
    then show ?thesis using Suc.hyps(1)[OF d] Suc.prems(2) by simp
  next
    case False
    define rs' where "rs' = (if rl = 0 then a else rs)"
    have run: "rs' + Suc rl = Suc a \<and> (\<forall>g. rs' \<le> g \<longrightarrow> g < Suc a \<longrightarrow> \<not> bm_test bm g)"
      using Suc.prems(3) False by (auto simp: rs'_def less_Suc_eq)
    show ?thesis
    proof (cases "rl + 1 = n")
      case True
      then have "r = rs'" using Suc.prems(1) u False by (simp add: rs'_def Let_def)
      then show ?thesis using run True ab by auto
    next
      case ne: False
      then have "find_run bm n [Suc a..<b] rs' (rl + 1) = Some r"
        using Suc.prems(1) u False by (simp add: rs'_def Let_def)
      then show ?thesis using Suc.hyps(1)[OF d, of rs' "rl + 1"] Suc.prems(2) ne run by simp
    qed
  qed
qed

lemma find_run_complete:
  assumes "find_run bm n [a..<b] rs rl = None" "rl < n"
    and "rl \<noteq> 0 \<Longrightarrow> rs + rl = a \<and> (\<forall>g. rs \<le> g \<longrightarrow> g < a \<longrightarrow> \<not> bm_test bm g)"
    and "(if rl = 0 then a else rs) \<le> r" "r + n \<le> b"
  shows "\<exists>g. r \<le> g \<and> g < r + n \<and> bm_test bm g"
  using assms
proof (induction "b - a" arbitrary: a rs rl)
  case 0
  then have "b \<le> a" by simp
  then show ?case using "0.prems"(2-5) by (cases "rl = 0") auto
next
  case (Suc d)
  then have ab: "a < b" by simp
  then have u: "[a..<b] = a # [Suc a..<b]" by (rule upt_conv_Cons)
  have d: "d = b - Suc a" using Suc.hyps(2) by simp
  show ?case
  proof (cases "bm_test bm a")
    case True
    then have nx: "find_run bm n [Suc a..<b] rs 0 = None" using Suc.prems(1) u by simp
    show ?thesis
    proof (cases "r \<le> a \<and> a < r + n")
      case False
      then have "Suc a \<le> r" using Suc.prems(2-4) by (cases "rl = 0") (auto split: if_splits)
      then show ?thesis using Suc.hyps(1)[OF d nx] Suc.prems(2,5) by simp
    qed (use True in blast)
  next
    case False
    define rs' where "rs' = (if rl = 0 then a else rs)"
    have run: "rs' + Suc rl = Suc a \<and> (\<forall>g. rs' \<le> g \<longrightarrow> g < Suc a \<longrightarrow> \<not> bm_test bm g)"
      using Suc.prems(3) False by (auto simp: rs'_def less_Suc_eq)
    have ne: "rl + 1 \<noteq> n" and nx: "find_run bm n [Suc a..<b] rs' (rl + 1) = None"
      using Suc.prems(1) u False by (auto simp: rs'_def Let_def split: if_splits)
    then show ?thesis
      using Suc.hyps(1)[OF d nx] Suc.prems(2,4,5) run by (simp add: rs'_def split: if_splits)
  qed
qed

lemma fold_bm_set_run:
  "fold (\<lambda>i bm. bm_set bm (r + i)) [0..<n] bm = fold (\<lambda>f bm. bm_set bm f) [r..<r + n] bm"
proof -
  have "[r..<r + n] = map (\<lambda>i. r + i) [0..<n]" by (simp add: map_add_upt add.commute)
  then show ?thesis by (simp only: fold_map comp_def)
qed

lemma take_run_spec:
  assumes inv: "pmm_inv p" and r: "r + unat n \<le> m_total_frames p" "unat n \<noteq> 0"
    and free: "\<forall>g. r \<le> g \<longrightarrow> g < r + unat n \<longrightarrow> \<not> bm_test (m_bitmap p) g"
    and t: "take_run p mem n r = (a, p', mem')"
  shows "a = frame_addr r \<and> a \<noteq> 0 \<and> {r..<r + unat n} \<subseteq> free_set p
    \<and> free_set p' = free_set p - {r..<r + unat n} \<and> pmm_inv p' \<and> m_tracker p' = m_tracker p
    \<and> m_total_frames p' = m_total_frames p"
proof -
  note D = pmm_invD[OF inv]
  let ?S = "{r..<r + unat n}"
  let ?bm = "fold (\<lambda>f bm. bm_set bm f) [r..<r + unat n] (m_bitmap p)"
  have S: "?S \<subseteq> free_set p" using r free unfolding free_set_def by auto
  have idx: "\<forall>f\<in>set [r..<r + unat n]. f div 64 < length (m_bitmap p)"
    using r(1) bm_index[OF D(2)] by auto
  have bm: "length ?bm = length (m_bitmap p)" "\<And>g. bm_test ?bm g \<longleftrightarrow> g \<in> ?S \<or> bm_test (m_bitmap p) g"
    using fold_bm_set[OF idx] by auto
  have e: "a = frame_addr r" "p' = p\<lparr>m_bitmap := ?bm, m_free_frames := m_free_frames p - n,
      m_allocated_frames := m_allocated_frames p + n, m_last_search_frame := r + unat n\<rparr>"
    using t by (auto simp: take_run_def Let_def fold_bm_set_run frame_addr_def)
  have "r \<in> free_set p" using S r(2) by auto
  then have "r \<noteq> 0" "r < m_total_frames p" using D(8) free_setD(1) by metis+
  then have "unat (frame_addr r) \<noteq> 0" using unat_frame_addr[OF free_frame_bound[OF inv]] by simp
  then have "frame_addr r \<noteq> 0" by auto
  moreover have "pmm_inv p'" "free_set p' = free_set p - ?S"
    using take_frames_inv[OF inv S _ bm r(1)] unfolding e(2) by simp_all
  ultimately show ?thesis using e S by simp
qed

lemma alloc_pages_spec:
  assumes inv: "pmm_inv p" and a: "alloc_pages (p, mem) n = (a, p', mem')" "a \<noteq> 0"
  shows "\<exists>r. a = frame_addr r \<and> {r..<r + unat n} \<subseteq> free_set p
    \<and> free_set p' = free_set p - {r..<r + unat n} \<and> pmm_inv p' \<and> m_tracker p' = m_tracker p
    \<and> m_total_frames p' = m_total_frames p"
proof (cases "n = 1")
  case True
  then have "alloc_page (p, mem) = (a, p', mem')" using a by (auto simp: alloc_pages_def split: if_splits)
  from alloc_page_spec[OF inv this] a(2) obtain f where "f \<in> free_set p" "a = frame_addr f"
    "free_set p' = free_set p - {f}" "pmm_inv p'" "m_tracker p' = m_tracker p" "m_total_frames p' = m_total_frames p"
    by auto
  then show ?thesis using True by (intro exI[of _ f]) auto
next
  case False
  have n: "n \<noteq> 0" using a by (auto simp: alloc_pages_def)
  then have un: "unat n \<noteq> 0" by (simp add: unat_eq_zero)
  consider r where "find_run (m_bitmap p) (unat n) [m_last_search_frame p..<m_total_frames p] 0 0 = Some r"
      "take_run p mem n r = (a, p', mem')"
    | r where "find_run (m_bitmap p) (unat n) [0..<min (m_last_search_frame p) (m_total_frames p)] 0 0 = Some r"
      "take_run p mem n r = (a, p', mem')"
    using a False by (auto simp: alloc_pages_def split: if_splits option.splits)
  then show ?thesis
  proof cases
    case (1 r)
    then have "r + unat n \<le> m_total_frames p" "\<forall>g. r \<le> g \<longrightarrow> g < r + unat n \<longrightarrow> \<not> bm_test (m_bitmap p) g"
      using find_run_sound[OF 1(1)] un by simp_all
    then show ?thesis using take_run_spec[OF inv _ un _ 1(2)] by blast
  next
    case (2 r)
    then have "r + unat n \<le> m_total_frames p" "\<forall>g. r \<le> g \<longrightarrow> g < r + unat n \<longrightarrow> \<not> bm_test (m_bitmap p) g"
      using find_run_sound[OF 2(1)] un by simp_all
    then show ?thesis using take_run_spec[OF inv _ un _ 2(2)] by blast
  qed
qed

lemma find_run_ge:
  assumes "find_run bm n [a..<b] rs rl = Some r" "rl < n" "c \<le> a" "rl \<noteq> 0 \<Longrightarrow> c \<le> rs"
  shows "c \<le> r"
  using assms
proof (induction "b - a" arbitrary: a rs rl)
  case 0
  then show ?case by simp
next
  case (Suc d)
  then have "[a..<b] = a # [Suc a..<b]" "d = b - Suc a" by (simp_all add: upt_conv_Cons)
  then show ?case using Suc.hyps(1)[of "Suc a"] Suc.prems by (auto simp: Let_def split: if_splits)
qed

lemma alloc_pages_search:
  assumes inv: "pmm_inv p" and "\<not> m_force_alloc_failure p" "2 \<le> unat n"
  shows "fst (alloc_pages (p, mem) n) \<noteq> 0 \<longleftrightarrow>
    (\<exists>r. {r..<r + unat n} \<subseteq> free_set p \<and> (m_last_search_frame p \<le> r \<or> r + unat n \<le> m_last_search_frame p))"
proof -
  note D = pmm_invD[OF inv]
  let ?bm = "m_bitmap p" and ?h = "m_last_search_frame p" and ?t = "m_total_frames p"
  let ?s1 = "find_run ?bm (unat n) [?h..<?t] 0 0" and ?s2 = "find_run ?bm (unat n) [0..<min ?h ?t] 0 0"
  have n: "n \<noteq> 0" "n \<noteq> 1" "unat n \<noteq> 0" using assms(3) by auto
  have sub: "{r..<r + unat n} \<subseteq> free_set p" if "r + unat n \<le> ?t" "\<forall>g. r \<le> g \<longrightarrow> g < r + unat n \<longrightarrow> \<not> bm_test ?bm g" for r
    using that by (auto simp: free_set_def)
  have ok: "fst (take_run p mem n r) \<noteq> 0" if "r + unat n \<le> ?t" "\<forall>g. r \<le> g \<longrightarrow> g < r + unat n \<longrightarrow> \<not> bm_test ?bm g" for r
    using take_run_spec[OF inv that(1) n(3) that(2)] by (metis prod.collapse)
  show ?thesis
  proof (cases "n > m_free_frames p \<or> unat n > ?t")
    case True
    then have "fst (alloc_pages (p, mem) n) = 0" using n by (auto simp: alloc_pages_def)
    moreover have "\<not> {r..<r + unat n} \<subseteq> free_set p" for r
    proof
      assume s: "{r..<r + unat n} \<subseteq> free_set p"
      then have "unat n \<le> card (free_set p)" using card_mono[OF finite_free_set s] by simp
      then have "unat n \<le> unat (m_free_frames p)" using D(4) by simp
      moreover have "r + (unat n - 1) \<in> free_set p" using s n(3) by auto
      then have "r + (unat n - 1) < ?t" by (rule free_setD(1))
      ultimately show False using True n(3) by (auto simp: word_less_nat_alt)
    qed
    ultimately show ?thesis by blast
  next
    case False
    then have e: "fst (alloc_pages (p, mem) n) = (case ?s1 of Some r \<Rightarrow> fst (take_run p mem n r) | None \<Rightarrow>
        (case ?s2 of Some r \<Rightarrow> fst (take_run p mem n r) | None \<Rightarrow> 0))"
      using D(1) n assms(2) by (simp add: alloc_pages_def split: option.splits)
    show ?thesis
    proof (cases ?s1)
      case (Some r)
      have f: "r + unat n \<le> ?t" "\<forall>g. r \<le> g \<longrightarrow> g < r + unat n \<longrightarrow> \<not> bm_test ?bm g"
        using find_run_sound[OF Some] n(3) by auto
      moreover have "?h \<le> r" using find_run_ge[OF Some] n(3) by simp
      ultimately show ?thesis using e Some ok[OF f] sub[OF f] by auto
    next
      case s1: None
      show ?thesis
      proof (cases ?s2)
        case (Some r)
        have f: "r + unat n \<le> min ?h ?t" "\<forall>g. r \<le> g \<longrightarrow> g < r + unat n \<longrightarrow> \<not> bm_test ?bm g"
          using find_run_sound[OF Some] n(3) by auto
        then show ?thesis using e s1 Some ok[of r] sub[of r] by auto
      next
        case s2: None
        have "\<not> {r..<r + unat n} \<subseteq> free_set p" if "?h \<le> r \<or> r + unat n \<le> ?h" for r
        proof
          assume s: "{r..<r + unat n} \<subseteq> free_set p"
          have "r + (unat n - 1) \<in> free_set p" using s n(3) by auto
          then have t: "r + unat n \<le> ?t" using free_setD(1) n(3) by fastforce
          have "\<exists>g. r \<le> g \<and> g < r + unat n \<and> bm_test ?bm g"
            using that
          proof
            assume "?h \<le> r"
            then show ?thesis using t n(3) by (intro find_run_complete[OF s1]) simp_all
          next
            assume "r + unat n \<le> ?h"
            then show ?thesis using t n(3) by (intro find_run_complete[OF s2]) simp_all
          qed
          then obtain g where "r \<le> g" "g < r + unat n" "bm_test ?bm g" by blast
          moreover have "g \<in> free_set p" using s calculation(1,2) by auto
          ultimately show False by (simp add: free_set_def)
        qed
        then show ?thesis using e s1 s2 by auto
      qed
    qed
  qed
qed

section \<open>The page-source contract\<close>

text \<open>What the clients of a page allocator rely on: a non-zero result was available
  and no longer is, zero leaves the state alone, and only pages that are not
  available can be given back.\<close>

fun acquire_many :: "('s \<Rightarrow> u64 \<times> 's) \<Rightarrow> nat \<Rightarrow> 's \<Rightarrow> u64 list \<times> 's" where
  "acquire_many acq 0 s = ([], s)"
| "acquire_many acq (Suc n) s =
     (let (a, s1) = acq s; (as, s2) = acquire_many acq n s1 in (if a = 0 then as else a # as, s2))"

locale page_source =
  fixes inv :: "'s \<Rightarrow> bool" and avail :: "'s \<Rightarrow> u64 set"
    and acquire :: "'s \<Rightarrow> u64 \<times> 's" and release :: "'s \<Rightarrow> u64 \<Rightarrow> bool \<times> 's"
  assumes avail_aligned: "inv s \<Longrightarrow> a \<in> avail s \<Longrightarrow> is_page_aligned a \<and> a \<noteq> 0"
    and acquire_fail: "inv s \<Longrightarrow> acquire s = (0, s') \<Longrightarrow> s' = s"
    and acquire_page: "inv s \<Longrightarrow> acquire s = (a, s') \<Longrightarrow> a \<noteq> 0 \<Longrightarrow>
      inv s' \<and> a \<in> avail s \<and> avail s' = avail s - {a}"
    and release_fail: "inv s \<Longrightarrow> release s a = (False, s') \<Longrightarrow> s' = s"
    and release_page: "inv s \<Longrightarrow> release s a = (True, s') \<Longrightarrow>
      inv s' \<and> a \<notin> avail s \<and> avail s' = insert a (avail s)"
begin

lemma acquire_many_spec:
  assumes "inv s" "acquire_many acquire n s = (as, s')"
  shows "inv s' \<and> distinct as \<and> set as \<subseteq> avail s \<and> avail s' = avail s - set as \<and> length as \<le> n"
  using assms
proof (induction n arbitrary: s as s')
  case (Suc n)
  obtain a s1 where a: "acquire s = (a, s1)" by fastforce
  obtain bs s2 where b: "acquire_many acquire n s1 = (bs, s2)" by fastforce
  show ?case
  proof (cases "a = 0")
    case True
    then have "s1 = s" using acquire_fail Suc.prems(1) a by blast
    then show ?thesis using Suc.IH[OF Suc.prems(1)] Suc.prems(2) a b True by fastforce
  next
    case False
    note sp = acquire_page[OF Suc.prems(1) a False]
    have "as = a # bs" "s' = s2" using Suc.prems(2) a b False by simp_all
    then show ?thesis using Suc.IH[of s1 bs s2] sp b by auto
  qed
qed simp

lemma acquire_release:
  assumes "inv s" "acquire s = (a, s1)" "a \<noteq> 0" "release s1 a = (True, s2)"
  shows "inv s2 \<and> avail s2 = avail s"
  using acquire_page[OF assms(1-3)] release_page[OF _ assms(4)] by auto

lemma release_twice:
  assumes "inv s" "release s a = (True, s1)"
  shows "\<not> fst (release s1 a)"
proof (rule ccontr)
  assume "\<not> ?thesis"
  then obtain s2 where "release s1 a = (True, s2)" by (metis prod.collapse)
  then show False using release_page[OF assms] release_page[of s1 a s2] by auto
qed

end

definition free_addrs :: "pmm \<Rightarrow> u64 set" where
  "free_addrs p = frame_addr ` free_set p"

definition release_page :: "pmm \<times> page_mem \<Rightarrow> u64 \<Rightarrow> bool \<times> pmm \<times> page_mem" where
  "release_page = (\<lambda>(p, mem) a. let (ok, p') = free_page p a in (ok, p', mem))"

lemma free_addrs_diff:
  assumes "pmm_inv p" "S \<subseteq> free_set p"
  shows "frame_addr ` (free_set p - S) = free_addrs p - frame_addr ` S"
proof -
  have "inj_on frame_addr (free_set p)"
    using frame_addr_inj free_frame_bound[OF assms(1)] free_setD(1) by (metis inj_onI)
  then show ?thesis using assms(2) by (simp add: free_addrs_def inj_on_image_set_diff[of _ "free_set p"])
qed

lemma free_addrs_member:
  "pmm_inv p \<Longrightarrow> f < m_total_frames p \<Longrightarrow> frame_addr f \<in> free_addrs p \<longleftrightarrow> f \<in> free_set p"
  using frame_addr_inj free_frame_bound free_setD(1) unfolding free_addrs_def by (metis image_iff)

interpretation pages: page_source "\<lambda>s. pmm_inv (fst s)" "\<lambda>s. free_addrs (fst s)" alloc_page release_page
proof
  fix s :: "pmm \<times> page_mem" and a assume i: "pmm_inv (fst s)" and a: "a \<in> free_addrs (fst s)"
  then obtain f where f: "f \<in> free_set (fst s)" "a = frame_addr f" by (auto simp: free_addrs_def)
  then have "f \<noteq> 0" "f < m_total_frames (fst s)" using pmm_invD(8)[OF i] free_setD(1) by metis+
  then have "unat a \<noteq> 0" using f(2) unat_frame_addr[OF free_frame_bound[OF i]] by simp
  then show "is_page_aligned a \<and> a \<noteq> 0" using f(2) by auto
next
  fix s s' :: "pmm \<times> page_mem" assume "pmm_inv (fst s)" "alloc_page s = (0, s')"
  then show "s' = s" using alloc_page_spec[of "fst s" "snd s" 0 "fst s'" "snd s'"]
    by (auto simp: prod_eq_iff)
next
  fix s s' :: "pmm \<times> page_mem" and a assume i: "pmm_inv (fst s)" and a: "alloc_page s = (a, s')" "a \<noteq> 0"
  then obtain f where f: "f \<in> free_set (fst s)" "a = frame_addr f" "free_set (fst s') = free_set (fst s) - {f}"
    "pmm_inv (fst s')" using alloc_page_spec[of "fst s" "snd s" a "fst s'" "snd s'"] by auto
  then show "pmm_inv (fst s') \<and> a \<in> free_addrs (fst s) \<and> free_addrs (fst s') = free_addrs (fst s) - {a}"
    using free_addrs_diff[OF i, of "{f}"] by (simp add: free_addrs_def)
next
  fix s s' :: "pmm \<times> page_mem" and a assume "pmm_inv (fst s)" "release_page s a = (False, s')"
  then show "s' = s" using free_page_spec[of "fst s" a False "fst s'"]
    by (auto simp: release_page_def split: prod.splits)
next
  fix s s' :: "pmm \<times> page_mem" and a assume i: "pmm_inv (fst s)" and "release_page s a = (True, s')"
  then have "free_page (fst s) a = (True, fst s')" by (auto simp: release_page_def split: prod.splits)
  from free_page_spec[OF i this] obtain f where f: "f < m_total_frames (fst s)" "a = frame_addr f"
    "f \<notin> free_set (fst s)" "free_set (fst s') = insert f (free_set (fst s))" "pmm_inv (fst s')" by auto
  then show "pmm_inv (fst s') \<and> a \<notin> free_addrs (fst s) \<and> free_addrs (fst s') = insert a (free_addrs (fst s))"
    using free_addrs_member[OF i f(1)] by (simp add: free_addrs_def)
qed

section \<open>Initialisation\<close>

definition frame_overlaps :: "nat \<Rightarrow> u64 \<Rightarrow> u64 \<Rightarrow> bool" where
  "frame_overlaps f s e \<longleftrightarrow> f * 4096 < unat e \<and> unat s < f * 4096 + 4096"

definition pmm_shape :: "pmm \<Rightarrow> bool" where
  "pmm_shape p \<longleftrightarrow> m_total_frames p \<le> 64 * length (m_bitmap p)
     \<and> unat (m_max_managed_paddr p) = m_total_frames p * 4096"

lemma overlap_start: "unat s < f * 4096 + 4096 \<Longrightarrow> unat s div 4096 \<le> f" for f :: nat
  by (simp add: less_mult_imp_div_less less_Suc_eq_le[symmetric])

lemma overlap_end:
  assumes "f * 4096 < unat e" "f < m" "unat mx = m * 4096"
  shows "f < unat ((if addr_align_up e PAGE_SIZE > mx then mx else addr_align_up e PAGE_SIZE) div PAGE_SIZE)"
proof (cases "addr_align_up e PAGE_SIZE > mx")
  case True
  then show ?thesis using assms(2,3) by (simp add: unat_div_distrib)
next
  case False
  have "align_up_checked e PAGE_SIZE = Some (align_up e PAGE_SIZE)"
  proof (cases "align_up_checked e PAGE_SIZE")
    case None
    then have "align_up e PAGE_SIZE = - 1" by (simp add: align_up_def)
    then have "mx = - 1" using False by (simp add: addr_align_up_eq not_less word_order.extremum_unique)
    then have "unat mx = 2 ^ 64 - 1" by (simp add: unsigned_minus_1_eq_mask mask_eq_exp_minus_1)
    then have "(2 ^ 64 - 1 :: nat) mod 4096 = 0" using assms(3) by (metis mod_mult_self2_is_0)
    then show ?thesis by simp
  next
    case (Some r)
    then show ?thesis by (simp add: align_up_def)
  qed
  note u = align_up_checked_Some[OF this PAGE_SIZE_nz]
  obtain k where k: "unat (align_up e PAGE_SIZE) = 4096 * k" using u(2) by auto
  have "unat e \<le> 4096 * k" using u(1) k by (simp add: word_le_nat_alt)
  then have "f < k" using assms(1) by linarith
  then show ?thesis using False k by (simp add: addr_align_up_eq unat_div_distrib)
qed

lemma reserve_range_spec:
  assumes "pmm_shape p"
  shows "\<exists>bm. reserve_range p s e = p\<lparr>m_bitmap := bm\<rparr> \<and> length bm = length (m_bitmap p)
    \<and> (\<forall>g. bm_test (m_bitmap p) g \<longrightarrow> bm_test bm g)
    \<and> (\<forall>f < m_total_frames p. frame_overlaps f s e \<longrightarrow> s < e \<longrightarrow> bm_test bm f)"
proof -
  let ?s = "addr_align_down s PAGE_SIZE"
  let ?e = "if addr_align_up e PAGE_SIZE > m_max_managed_paddr p then m_max_managed_paddr p else addr_align_up e PAGE_SIZE"
  have us: "unat (?s div PAGE_SIZE) = unat s div 4096"
    by (simp add: addr_align_down_eq unat_div_distrib unat_align_down minus_mod_eq_div_mult)
  consider "e \<le> s" | "s < e" "?s \<ge> m_max_managed_paddr p" | "s < e" "?s < m_max_managed_paddr p" by fastforce
  then show ?thesis
  proof cases
    case 1
    then show ?thesis by (intro exI[of _ "m_bitmap p"]) (auto simp: reserve_range_def)
  next
    case 2
    have "\<not> frame_overlaps f s e" if "f < m_total_frames p" for f
    proof
      assume "frame_overlaps f s e"
      then have "unat s div 4096 \<le> f" by (simp add: frame_overlaps_def overlap_start)
      then have "unat ?s \<le> f * 4096" using us
        by (metis addr_align_down_eq align_down_dvd PAGE_SIZE_nz unat_PAGE_SIZE dvd_div_mult_self mult_le_mono1 unat_div_distrib)
      moreover have "m_total_frames p * 4096 \<le> unat ?s" using 2(2) assms by (simp add: word_le_nat_alt pmm_shape_def)
      ultimately show False using that by simp
    qed
    then show ?thesis using 2 by (intro exI[of _ "m_bitmap p"]) (simp add: reserve_range_def Let_def)
  next
    case 3
    let ?fs = "[unat (?s div PAGE_SIZE)..<min (unat (?e div PAGE_SIZE)) (m_total_frames p)]"
    let ?bm = "fold (\<lambda>f bm. bm_set bm f) ?fs (m_bitmap p)"
    have idx: "\<forall>f\<in>set ?fs. f div 64 < length (m_bitmap p)"
      using bm_index assms unfolding pmm_shape_def by auto
    have "f \<in> set ?fs" if "f < m_total_frames p" "frame_overlaps f s e" for f
      using that overlap_start[of s f] overlap_end[OF _ that(1), of e "m_max_managed_paddr p"] assms us
      by (simp add: frame_overlaps_def pmm_shape_def del: if_split)
    then show ?thesis using 3 fold_bm_set[OF idx]
      by (intro exI[of _ ?bm]) (simp add: reserve_range_def Let_def)
  qed
qed

definition bm_extends :: "pmm \<Rightarrow> pmm \<Rightarrow> bool" where
  "bm_extends p p' \<longleftrightarrow> (\<exists>bm. p' = p\<lparr>m_bitmap := bm\<rparr> \<and> length bm = length (m_bitmap p)
     \<and> (\<forall>g. bm_test (m_bitmap p) g \<longrightarrow> bm_test bm g))"

lemma bm_extends_refl: "bm_extends p p"
  unfolding bm_extends_def by (intro exI[of _ "m_bitmap p"]) simp

lemma bm_extends_trans: "bm_extends p q \<Longrightarrow> bm_extends q r \<Longrightarrow> bm_extends p r"
  unfolding bm_extends_def by auto

lemma bm_extends_shape: "bm_extends p q \<Longrightarrow> pmm_shape p \<Longrightarrow> pmm_shape q"
  by (auto simp: bm_extends_def pmm_shape_def)

lemma bm_extends_test: "bm_extends p q \<Longrightarrow> bm_test (m_bitmap p) g \<Longrightarrow> bm_test (m_bitmap q) g"
  by (auto simp: bm_extends_def)

lemma bm_extends_fields:
  "bm_extends p q \<Longrightarrow> m_total_frames q = m_total_frames p \<and> m_max_managed_paddr q = m_max_managed_paddr p
     \<and> m_tracker q = m_tracker p \<and> m_bitmap_paddr q = m_bitmap_paddr p \<and> m_bitmap_size_bytes q = m_bitmap_size_bytes p
     \<and> length (m_bitmap q) = length (m_bitmap p) \<and> m_force_alloc_failure q = m_force_alloc_failure p"
  by (auto simp: bm_extends_def)

lemma reserve_range_extends: "pmm_shape p \<Longrightarrow> bm_extends p (reserve_range p s e)"
  using reserve_range_spec[of p s e] unfolding bm_extends_def by blast

lemma reserve_range_covers:
  assumes "pmm_shape p" "f < m_total_frames p" "frame_overlaps f s e" "s < e"
  shows "bm_test (m_bitmap (reserve_range p s e)) f"
  using reserve_range_spec[OF assms(1), of s e] assms(2-4) by auto

lemma overlap_aligned:
  assumes "frame_overlaps f s e" "s < e" "unat e + 4095 < 2 ^ 64"
  shows "frame_overlaps f (addr_align_down s PAGE_SIZE) (addr_align_up e PAGE_SIZE)
    \<and> addr_align_down s PAGE_SIZE < addr_align_up e PAGE_SIZE"
proof -
  have "align_up_checked e PAGE_SIZE \<noteq> None"
  proof
    assume "align_up_checked e PAGE_SIZE = None"
    then have "2 ^ 64 \<le> unat e + (4096 - unat e mod 4096)" "unat e mod 4096 \<noteq> 0"
      by (simp_all add: align_up_checked_None_iff)
    then show False using assms(3) by linarith
  qed
  then have "align_up_checked e PAGE_SIZE = Some (align_up e PAGE_SIZE)" by (auto simp: align_up_def)
  then have "e \<le> align_up e PAGE_SIZE" using align_up_checked_Some(1) PAGE_SIZE_nz by blast
  moreover have "align_down s PAGE_SIZE \<le> s" by (rule align_down_le)
  ultimately show ?thesis using assms(1,2)
    by (auto simp: frame_overlaps_def addr_align_up_eq addr_align_down_eq word_le_nat_alt word_less_nat_alt)
qed

lemma reserve_entries:
  assumes "pmm_shape p"
  shows "bm_extends p (fold reserve_entry es p)
    \<and> (\<forall>entry\<in>set es. \<forall>f < m_total_frames p. entry_type entry \<noteq> MT_Available
        \<longrightarrow> unat (base_addr entry) + unat (entry_length entry) + 4095 < 2 ^ 64
        \<longrightarrow> base_addr entry < base_addr entry + entry_length entry
        \<longrightarrow> frame_overlaps f (base_addr entry) (base_addr entry + entry_length entry)
        \<longrightarrow> bm_test (m_bitmap (fold reserve_entry es p)) f)"
  using assms
proof (induction es arbitrary: p)
  case Nil
  then show ?case by (simp add: bm_extends_refl)
next
  case (Cons x es)
  let ?q = "reserve_entry x p"
  have e: "bm_extends p ?q"
    using Cons.prems by (simp add: reserve_entry_def reserve_range_extends bm_extends_refl)
  note q = bm_extends_shape[OF e Cons.prems]
  note IH = Cons.IH[OF q]
  have x: "bm_test (m_bitmap ?q) f" if f: "f < m_total_frames p" "entry_type x \<noteq> MT_Available"
    "unat (base_addr x) + unat (entry_length x) + 4095 < 2 ^ 64"
    "base_addr x < base_addr x + entry_length x"
    "frame_overlaps f (base_addr x) (base_addr x + entry_length x)" for f
  proof -
    have "unat (base_addr x + entry_length x) + 4095 < 2 ^ 64"
      using f(3) by (subst unat_add_nowrap) simp_all
    then show ?thesis using overlap_aligned[OF f(5,4)] reserve_range_covers[OF Cons.prems f(1)] f(2)
      by (simp add: reserve_entry_def)
  qed
  have tot: "m_total_frames ?q = m_total_frames p" using bm_extends_fields[OF e] by simp
  show ?case
  proof (intro conjI ballI allI impI)
    show "bm_extends p (fold reserve_entry (x # es) p)" using IH bm_extends_trans[OF e] by simp
  next
    fix entry f
    assume a: "entry \<in> set (x # es)" "f < m_total_frames p" "entry_type entry \<noteq> MT_Available"
      "unat (base_addr entry) + unat (entry_length entry) + 4095 < 2 ^ 64"
      "base_addr entry < base_addr entry + entry_length entry"
      "frame_overlaps f (base_addr entry) (base_addr entry + entry_length entry)"
    show "bm_test (m_bitmap (fold reserve_entry (x # es) p)) f"
    proof (cases "entry = x")
      case True
      then have "bm_test (m_bitmap ?q) f" using x a by blast
      then show ?thesis using IH bm_extends_test by fastforce
    next
      case False
      then have "entry \<in> set es" using a(1) by simp
      then show ?thesis using conjunct2[OF IH] a(2-6) tot by simp
    qed
  qed
qed

lemma free_region_spec:
  assumes "m_total_frames p \<le> 64 * length bm" "wf_region r"
  shows "length (free_region p r bm) = length bm
    \<and> (\<forall>g < m_total_frames p. \<not> bm_test (free_region p r bm) g \<longrightarrow>
         \<not> bm_test bm g \<or> (region_is_available r \<and> unat (r_start r) \<le> g * 4096 \<and> g * 4096 < unat (r_end r)))"
proof -
  define e where "e = (if r_end r > m_max_managed_paddr p then m_max_managed_paddr p else r_end r)"
  define fs where "fs = [unat (r_start r div PAGE_SIZE)..<min (unat (e div PAGE_SIZE)) (m_total_frames p)]"
  have eq: "free_region p r bm =
      (if region_is_available r \<and> r_start r < e then fold (\<lambda>f bm. bm_clear bm f) fs bm else bm)"
    by (simp add: free_region_def Let_def e_def fs_def del: if_split cong: if_cong)
  have idx: "\<forall>f\<in>set fs. f div 64 < length bm"
  proof
    fix f assume "f \<in> set fs"
    then have "f < length bm * 64" using assms(1) by (simp add: fs_def)
    then show "f div 64 < length bm" by (rule less_mult_imp_div_less)
  qed
  have "e \<le> r_end r" by (simp add: e_def order_less_imp_le)
  then have le: "unat e \<le> unat (r_end r)" by (simp add: word_le_nat_alt)
  obtain k where k: "unat (r_start r) = 4096 * k" using assms(2) unfolding wf_region_def is_page_aligned_iff by blast
  have rng: "unat (r_start r) \<le> g * 4096 \<and> g * 4096 < unat (r_end r)" if "g \<in> set fs" for g
  proof -
    have g: "k \<le> g" "g < unat e div 4096" using that k by (simp_all add: fs_def unat_div_distrib)
    then have "Suc g * 4096 \<le> unat e div 4096 * 4096" by (metis Suc_leI mult_le_mono1)
    then have "Suc g * 4096 \<le> unat e" using div_times_less_eq_dividend[of "unat e" 4096] by linarith
    then show ?thesis using k g(1) le by simp
  qed
  show ?thesis
  proof (cases "region_is_available r \<and> r_start r < e")
    case True
    then have f: "free_region p r bm = fold (\<lambda>f bm. bm_clear bm f) fs bm" by (simp only: eq if_True simp_thms)
    show ?thesis unfolding f fold_bm_clear[OF idx] using rng True by blast
  next
    case False
    then have "free_region p r bm = bm" by (simp only: eq if_False)
    then show ?thesis by simp
  qed
qed

lemma free_regions_spec:
  assumes "m_total_frames p \<le> 64 * length bm" "\<forall>r\<in>set rs. wf_region r"
  shows "length (fold (free_region p) rs bm) = length bm
    \<and> (\<forall>g < m_total_frames p. \<not> bm_test (fold (free_region p) rs bm) g \<longrightarrow>
         \<not> bm_test bm g \<or> (\<exists>r\<in>set rs. region_is_available r \<and> unat (r_start r) \<le> g * 4096 \<and> g * 4096 < unat (r_end r)))"
  using assms
proof (induction rs arbitrary: bm)
  case (Cons r rs)
  have s: "length (free_region p r bm) = length bm"
    "\<And>g. g < m_total_frames p \<Longrightarrow> \<not> bm_test (free_region p r bm) g \<Longrightarrow>
         \<not> bm_test bm g \<or> (region_is_available r \<and> unat (r_start r) \<le> g * 4096 \<and> g * 4096 < unat (r_end r))"
    using free_region_spec[OF Cons.prems(1), of r] Cons.prems(2) by simp_all
  have "length (fold (free_region p) rs (free_region p r bm)) = length (free_region p r bm)
    \<and> (\<forall>g < m_total_frames p. \<not> bm_test (fold (free_region p) rs (free_region p r bm)) g \<longrightarrow>
         \<not> bm_test (free_region p r bm) g \<or> (\<exists>r\<in>set rs. region_is_available r \<and> unat (r_start r) \<le> g * 4096 \<and> g * 4096 < unat (r_end r)))"
    using Cons.prems s(1) by (intro Cons.IH) auto
  then show ?case using s by (metis (no_types, lifting) fold_simps(2) list.set_intros(1) list.set_intros(2))
qed simp

lemma scan_entry_res: "scan_entry ok bytes entry_end cur = Some res \<Longrightarrow> \<forall>c. res = Some c \<longrightarrow> ok c"
  by (rule scan_entry.raw_induct[where P = "\<lambda>ok bytes entry_end cur res. \<forall>c. res = Some c \<longrightarrow> ok c"])
    (fastforce split: if_splits)+

lemma scan_entry_ok: "scan_entry ok bytes entry_end cur = Some (Some c) \<Longrightarrow> ok c"
  using scan_entry_res by blast

lemma find_placement_ok: "find_placement ok bytes ss es = Some (Some c) \<Longrightarrow> ok c"
  by (induction es) (auto simp: Let_def scan_entry_ok split: if_splits option.splits)

lemma scan_entry_terminates:
  assumes "unat cur + unat bytes < 2 ^ 64" "unat entry_end + unat bytes + 4096 < 2 ^ 64"
  shows "\<exists>y. scan_entry ok bytes entry_end cur = Some y"
  using assms
proof (induction "unat entry_end + 4096 - unat cur" arbitrary: cur rule: less_induct)
  case less
  show ?case
  proof (cases "cur + bytes \<le> entry_end \<and> \<not> ok cur")
    case True
    have u: "unat (cur + bytes) = unat cur + unat bytes" using less.prems(1) by (simp add: unat_add_nowrap)
    then have le: "unat cur + unat bytes \<le> unat entry_end" using True by (simp add: word_le_nat_alt)
    have u2: "unat (cur + PAGE_SIZE) = unat cur + 4096"
      using le less.prems(2) by (subst unat_add_nowrap) simp_all
    have "\<exists>y. scan_entry ok bytes entry_end (cur + PAGE_SIZE) = Some y"
      using less.hyps[of "cur + PAGE_SIZE"] u2 le less.prems(2) by simp
    then show ?thesis using True scan_entry.simps[of ok bytes entry_end cur] by simp
  next
    case False
    then show ?thesis using scan_entry.simps[of ok bytes entry_end cur] by auto
  qed
qed

definition tracker_ok :: "reserved_tracker \<Rightarrow> bool" where
  "tracker_ok t \<longleftrightarrow> length (m_raw_regions t) \<le> MAX_REGIONS \<and> m_regions t = normalized (m_raw_regions t)"

lemma register_tracker_ok: "tracker_ok t \<Longrightarrow> tracker_ok (snd (register_pmm_bitmap t s n))"
  by (auto simp: tracker_ok_def register_pmm_bitmap_def normalize_def)

lemma free_frame_not_reserved:
  assumes "tracker_ok t" "r \<in> set (m_regions t)" "region_is_available r" "g < 2 ^ 52"
    "unat (r_start r) \<le> g * 4096" "g * 4096 < unat (r_end r)"
  shows "\<not> is_reserved t (frame_addr g)"
proof -
  have "frame_addr g \<in> ival r"
    using assms(4-6) by (simp add: ival_def word_le_nat_alt word_less_nat_alt unat_frame_addr)
  then show ?thesis using assms(1-3) normalized_inv[of "m_raw_regions t"] is_reserved_in_iff[of "m_regions t"]
    by (auto simp: tracker_ok_def is_reserved_def)
qed

lemma unat_bitmap_bytes:
  assumes "n < 2 ^ 52" "512 dvd n"
  shows "unat (bitmap_bytes n) = n div 8"
proof -
  obtain k where k: "n = 512 * k" using assms(2) by blast
  have un: "unat (of_nat n :: u64) = n" using assms(1) by (simp add: unat_of_nat)
  have "unat (of_nat n + 7 :: u64) = n + 7" using assms(1) un by (subst unat_add_nowrap) simp_all
  then have "unat ((of_nat n + 7) div 8 :: u64) = (n + 7) div 8" by (simp add: unat_div_distrib)
  also have "\<dots> = 64 * k" unfolding k by simp
  finally have b: "unat ((of_nat n + 7) div 8 :: u64) = 64 * k" .
  have "unat ((of_nat n + 7) div 8 + 7 :: u64) = 64 * k + 7"
    using b assms(1) k by (subst unat_add_nowrap) simp_all
  then have "unat (take_bit 3 ((of_nat n + 7) div 8 + 7 :: u64)) = (64 * k + 7) mod 8"
    by (simp add: take_bit_eq_mask unat_and_mask)
  also have "\<dots> = 7" by presburger
  finally have t: "take_bit 3 ((of_nat n + 7) div 8 + 7 :: u64) = 7"
    by (simp add: word_unat_eq_iff)
  have "bitmap_bytes n = (of_nat n + 7) div 8 + 7 - take_bit 3 ((of_nat n + 7) div 8 + 7)"
    using and_not_mask_minus[of "(of_nat n + 7) div 8 + 7 :: u64" 3]
    by (simp add: bitmap_bytes_def Let_def mask_eq_exp_minus_1)
  then have "bitmap_bytes n = (of_nat n + 7) div 8" unfolding t by simp
  then show ?thesis using b k by simp
qed

lemma max_managed_shape:
  assumes "mx \<noteq> 0" "unat mx + 2 ^ 21 \<le> 2 ^ 64"
  defines "mm \<equiv> addr_align_up mx (2 * 1024 * 1024)"
  shows "512 dvd unat (mm div PAGE_SIZE)" "unat mm = unat (mm div PAGE_SIZE) * 4096" "0 < unat (mm div PAGE_SIZE)"
    "unat (mm div PAGE_SIZE) < 2 ^ 52"
proof -
  have a: "unat (2 * 1024 * 1024 :: u64) = 2097152" "(2 * 1024 * 1024 :: u64) \<noteq> 0" by simp_all
  have "align_up_checked mx (2 * 1024 * 1024) \<noteq> None"
  proof
    assume "align_up_checked mx (2 * 1024 * 1024) = None"
    then have "2 ^ 64 \<le> unat mx + (2097152 - unat mx mod 2097152)" "unat mx mod 2097152 \<noteq> 0"
      using a by (simp_all add: align_up_checked_None_iff)
    moreover have "unat mx + 2097152 \<le> 2 ^ 64" using assms(2) by simp
    ultimately show False by linarith
  qed
  then have "align_up_checked mx (2 * 1024 * 1024) = Some mm"
    by (auto simp: mm_def addr_align_up_def)
  note u = align_up_checked_Some[OF this a(2), unfolded a(1)]
  obtain k where k: "unat mm = 2097152 * k" using u(2) by blast
  have d: "unat (mm div PAGE_SIZE) = 512 * k" by (simp add: unat_div_distrib k)
  show "512 dvd unat (mm div PAGE_SIZE)" "unat mm = unat (mm div PAGE_SIZE) * 4096" using d k by simp_all
  have "unat mx \<noteq> 0" using assms(1) by (simp add: unat_eq_zero)
  then have "k \<noteq> 0" using u(1) k by (auto simp: word_le_nat_alt)
  then show "0 < unat (mm div PAGE_SIZE)" using d by simp
  show "unat (mm div PAGE_SIZE) < 2 ^ 52" using d k unat_below[of mm] by simp
qed

lemma bm_all_ones: "g div 64 < n \<Longrightarrow> bm_test (replicate n (- 1)) g"
  by (simp add: bm_test_bit)

lemma card_filter_upt: "length (filter P [0..<n]) = card {f. f < n \<and> P f}"
proof -
  have "length (filter P [0..<n]) = card (set (filter P [0..<n]))"
    by (rule distinct_card[symmetric]) simp
  also have "set (filter P [0..<n]) = {f. f < n \<and> P f}" by auto
  finally show ?thesis .
qed

definition frame_protected :: "boot_information \<Rightarrow> u64 \<Rightarrow> u64 \<Rightarrow> u64 \<Rightarrow> u64 \<Rightarrow> nat \<Rightarrow> bool" where
  "frame_protected bi kernel_start kernel_end mb2_paddr mb2_size f \<longleftrightarrow>
     f * 4096 < 0x100000
     \<or> (kernel_start < kernel_end \<and> frame_overlaps f kernel_start kernel_end)
     \<or> (mb2_paddr \<noteq> 0 \<and> mb2_size \<noteq> 0 \<and> frame_overlaps f mb2_paddr (mb2_paddr + mb2_size))
     \<or> (\<exists>entry\<in>set (mmap_entries bi). entry_type entry \<noteq> MT_Available \<and> entry_length entry \<noteq> 0
          \<and> unat (base_addr entry) + unat (entry_length entry) + 4095 < 2 ^ 64
          \<and> frame_overlaps f (base_addr entry) (base_addr entry + entry_length entry))"

lemma mark_free_spec:
  assumes "tracker_ok t" "m_total_frames p \<le> 64 * (unat (m_bitmap_size_bytes p) div 8)"
    and "unat (m_max_managed_paddr p) = m_total_frames p * 4096"
  defines "q \<equiv> mark_free p (m_regions t)"
  shows "pmm_shape q" "f \<in> free_set q \<Longrightarrow> \<not> is_reserved t (frame_addr f)"
    "m_total_frames q = m_total_frames p" "m_tracker q = m_tracker p"
    "m_bitmap_paddr q = m_bitmap_paddr p" "m_bitmap_size_bytes q = m_bitmap_size_bytes p"
    "m_force_alloc_failure q = m_force_alloc_failure p"
proof -
  let ?n = "unat (m_bitmap_size_bytes p) div 8"
  have wf: "\<forall>r\<in>set (m_regions t). wf_region r"
    using assms(1) normalized_inv(2)[of "m_raw_regions t"] by (simp add: tracker_ok_def)
  have "m_total_frames p \<le> 64 * length (replicate ?n (- 1 :: u64))" using assms(2) by simp
  note fr = free_regions_spec[OF this wf]
  show "pmm_shape q" using fr assms(2,3) by (simp add: pmm_shape_def q_def mark_free_def)
  have b: "m_total_frames p < 2 ^ 52" using assms(3) unat_below[of "m_max_managed_paddr p"] by simp
  show "\<not> is_reserved t (frame_addr f)" if "f \<in> free_set q"
  proof -
    have f: "f < m_total_frames p" "\<not> bm_test (fold (free_region p) (m_regions t) (replicate ?n (- 1))) f"
      using that unfolding free_set_def q_def mark_free_def by simp_all
    have "f div 64 < ?n" using f(1) assms(2) by (intro less_mult_imp_div_less) simp
    then have "bm_test (replicate ?n (- 1)) f" by (rule bm_all_ones)
    then obtain r where "r \<in> set (m_regions t)" "region_is_available r"
      "unat (r_start r) \<le> f * 4096" "f * 4096 < unat (r_end r)" using conjunct2[OF fr] f by blast
    then show ?thesis using free_frame_not_reserved[OF assms(1)] f(1) b by simp
  qed
qed (simp_all add: q_def mark_free_def)

lemma reserve_overrides_spec:
  fixes ks :: u64 and bi :: boot_information
  assumes sh: "pmm_shape p" and ke: "unat ke + 4095 < 2 ^ 64" and mb: "unat mb + unat sz + 4095 < 2 ^ 64"
  defines "q \<equiv> reserve_overrides p bi ks ke mb sz"
  shows "bm_extends p q"
    and "f < m_total_frames p \<Longrightarrow> frame_protected bi ks ke mb sz f \<Longrightarrow> bm_test (m_bitmap q) f"
    and "f < m_total_frames p \<Longrightarrow> m_bitmap_paddr p < m_bitmap_paddr p + m_bitmap_size_bytes p \<Longrightarrow>
      frame_overlaps f (m_bitmap_paddr p) (m_bitmap_paddr p + m_bitmap_size_bytes p) \<Longrightarrow> bm_test (m_bitmap q) f"
proof -
  define pa where "pa = reserve_range p 0 0x100000"
  define pb where "pb = reserve_range pa (addr_align_down ks PAGE_SIZE) (addr_align_up ke PAGE_SIZE)"
  define pc where "pc = (if mb \<noteq> 0 \<and> sz > 0
      then reserve_range pb (addr_align_down mb PAGE_SIZE) (addr_align_up (mb + sz) PAGE_SIZE) else pb)"
  define pd where "pd = reserve_range pc (m_bitmap_paddr pc) (m_bitmap_paddr pc + m_bitmap_size_bytes pc)"
  have q: "q = fold reserve_entry (mmap_entries bi) pd"
    by (simp add: q_def reserve_overrides_def Let_def pa_def pb_def pc_def pd_def)
  have ea: "bm_extends p pa" unfolding pa_def by (rule reserve_range_extends[OF sh])
  note sa = bm_extends_shape[OF ea sh]
  have eb: "bm_extends pa pb" unfolding pb_def by (rule reserve_range_extends[OF sa])
  note sb = bm_extends_shape[OF eb sa]
  have ec: "bm_extends pb pc" unfolding pc_def using reserve_range_extends[OF sb] bm_extends_refl by simp
  note sc = bm_extends_shape[OF ec sb]
  have ed: "bm_extends pc pd" unfolding pd_def by (rule reserve_range_extends[OF sc])
  note sd = bm_extends_shape[OF ed sc]
  note re = reserve_entries[OF sd, of "mmap_entries bi", folded q]
  have tot: "m_total_frames pa = m_total_frames p" "m_total_frames pb = m_total_frames p"
    "m_total_frames pc = m_total_frames p" "m_total_frames pd = m_total_frames p"
    and bp: "m_bitmap_paddr pc = m_bitmap_paddr p" "m_bitmap_size_bytes pc = m_bitmap_size_bytes p"
    using bm_extends_fields[OF ea] bm_extends_fields[OF eb] bm_extends_fields[OF ec] bm_extends_fields[OF ed]
    by simp_all
  have dq: "bm_extends pd q" using re by blast
  have cq: "bm_extends pc q" by (rule bm_extends_trans[OF ed dq])
  have bq: "bm_extends pb q" by (rule bm_extends_trans[OF ec cq])
  have aq: "bm_extends pa q" by (rule bm_extends_trans[OF eb bq])
  show "bm_extends p q" by (rule bm_extends_trans[OF ea aq])
  show "bm_test (m_bitmap q) f" if "f < m_total_frames p"
    "m_bitmap_paddr p < m_bitmap_paddr p + m_bitmap_size_bytes p"
    "frame_overlaps f (m_bitmap_paddr p) (m_bitmap_paddr p + m_bitmap_size_bytes p)"
  proof -
    have "bm_test (m_bitmap pd) f" unfolding pd_def
      by (rule reserve_range_covers[OF sc]) (use that tot bp in simp_all)
    then show ?thesis by (rule bm_extends_test[OF dq])
  qed
  show "bm_test (m_bitmap q) f" if f: "f < m_total_frames p" and pr: "frame_protected bi ks ke mb sz f"
  proof -
    from pr consider "f * 4096 < 0x100000" | "ks < ke" "frame_overlaps f ks ke"
      | "mb \<noteq> 0" "sz \<noteq> 0" "frame_overlaps f mb (mb + sz)"
      | entry where "entry \<in> set (mmap_entries bi)" "entry_type entry \<noteq> MT_Available"
          "entry_length entry \<noteq> 0" "unat (base_addr entry) + unat (entry_length entry) + 4095 < 2 ^ 64"
          "frame_overlaps f (base_addr entry) (base_addr entry + entry_length entry)"
      unfolding frame_protected_def by blast
    then show ?thesis
    proof cases
      case 1
      then have "frame_overlaps f 0 0x100000" by (simp add: frame_overlaps_def)
      then have "bm_test (m_bitmap pa) f" unfolding pa_def using reserve_range_covers[OF sh f] by simp
      then show ?thesis by (rule bm_extends_test[OF aq])
    next
      case 2
      then have "bm_test (m_bitmap pb) f"
        unfolding pb_def using reserve_range_covers[OF sa] overlap_aligned[OF 2(2,1) ke] f tot by simp
      then show ?thesis by (rule bm_extends_test[OF bq])
    next
      case 3
      have u: "unat (mb + sz) = unat mb + unat sz" using mb by (subst unat_add_nowrap) simp_all
      then have "unat (mb + sz) + 4095 < 2 ^ 64" "mb < mb + sz"
        using mb 3(2) by (simp_all add: word_less_nat_alt unat_gt_0)
      then have "bm_test (m_bitmap pc) f"
        unfolding pc_def using 3 reserve_range_covers[OF sb] overlap_aligned[OF 3(3)] f tot
        by (simp add: word_gt_0)
      then show ?thesis by (rule bm_extends_test[OF cq])
    next
      case 4
      have "unat (base_addr entry + entry_length entry) = unat (base_addr entry) + unat (entry_length entry)"
        using 4(4) by (subst unat_add_nowrap) simp_all
      then have "base_addr entry < base_addr entry + entry_length entry"
        using 4(3) by (simp add: word_less_nat_alt unat_gt_0)
      then show ?thesis using re 4 f tot by simp
    qed
  qed
qed

lemma tally_fields:
  "free_set (tally p) = free_set p" "m_total_frames (tally p) = m_total_frames p"
  "m_tracker (tally p) = m_tracker p" "m_allocated_frames (tally p) = 0"
  "m_bitmap_paddr (tally p) = m_bitmap_paddr p" "m_bitmap_size_bytes (tally p) = m_bitmap_size_bytes p"
  "m_force_alloc_failure (tally p) = m_force_alloc_failure p"
  by (simp_all add: tally_def Let_def free_set_def)

lemma tally_inv:
  assumes "pmm_shape p" "m_total_frames p < 2 ^ 52" "0 \<notin> free_set p"
    and "\<And>t f. m_tracker p = Some t \<Longrightarrow> f \<in> free_set p \<Longrightarrow> \<not> is_reserved t (frame_addr f)"
  shows "pmm_inv (tally p)"
proof -
  have c: "length (filter (\<lambda>f. \<not> bm_test (m_bitmap p) f) [0..<m_total_frames p]) = card (free_set p)"
    by (simp add: card_filter_upt free_set_def)
  have "free_set p \<subseteq> {0..<m_total_frames p}" by (auto simp: free_set_def)
  then have le: "card (free_set p) \<le> m_total_frames p" using card_mono[of "{0..<m_total_frames p}"] by simp
  then have u: "unat (of_nat (card (free_set p)) :: u64) = card (free_set p)"
    using assms(2) by (simp add: unat_of_nat)
  have f: "m_free_frames (tally p) = of_nat (card (free_set p))" "m_usable_frames (tally p) = of_nat (card (free_set p))"
    "m_initialized (tally p)" "m_last_search_frame (tally p) = 0" "m_bitmap (tally p) = m_bitmap p"
    "m_max_managed_paddr (tally p) = m_max_managed_paddr p"
    unfolding tally_def Let_def c by simp_all
  show ?thesis unfolding pmm_inv_def
    using assms u le f tally_fields[of p] by (simp add: pmm_shape_def)
qed

lemma pmm_init_sound_aux:
  assumes init: "pmm_init p0 bi tr ks ke mb sz = Some (True, p, tr')" and ok: "tracker_ok tr"
    and mx: "unat (max_usable_addr (mmap_entries bi)) + 2 ^ 21 \<le> 2 ^ 64"
    and ke: "unat ke + 4095 < 2 ^ 64" and mb: "unat mb + unat sz + 4095 < 2 ^ 64"
  shows "pmm_inv p \<and> 64 dvd m_total_frames p \<and> m_tracker p = Some tr' \<and> m_allocated_frames p = 0
    \<and> \<not> m_force_alloc_failure p
    \<and> (\<forall>f\<in>free_set p. \<not> frame_protected bi ks ke mb sz f
         \<and> \<not> frame_overlaps f (m_bitmap_paddr p) (m_bitmap_paddr p + m_bitmap_size_bytes p))"
proof -
  define mm where "mm = addr_align_up (max_usable_addr (mmap_entries bi)) (2 * 1024 * 1024)"
  define total where "total = unat (mm div PAGE_SIZE)"
  define bytes where "bytes = bitmap_bytes total"
  have mx0: "max_usable_addr (mmap_entries bi) \<noteq> 0"
    using init by (auto simp: pmm_init_def Let_def)
  note sh = max_managed_shape[OF mx0 mx, folded mm_def total_def]
  obtain cand where cand: "find_placement (placement_ok tr mb sz bytes) bytes (addr_align_up ke PAGE_SIZE) (mmap_entries bi) = Some (Some cand)"
    using init mx0 unfolding pmm_init_def Let_def by (auto simp: mm_def total_def bytes_def split: option.splits)
  define p3 where "p3 = p0\<lparr>m_initialized := False, m_tracker := Some tr, m_force_alloc_failure := False,
     m_max_managed_paddr := mm, m_total_frames := total, m_bitmap_size_bytes := bytes, m_bitmap_paddr := cand,
     m_tracker := Some tr'\<rparr>"
  have tr': "tr' = snd (register_pmm_bitmap tr cand bytes)"
    and p: "p = tally (reserve_overrides (mark_free p3 (m_regions tr')) bi ks ke mb sz)"
    using init mx0 cand unfolding pmm_init_def Let_def mm_def[symmetric] total_def[symmetric] bytes_def[symmetric] p3_def
    by auto
  have ok': "tracker_ok tr'" unfolding tr' by (rule register_tracker_ok[OF ok])
  have ub: "unat bytes = total div 8" unfolding bytes_def by (rule unat_bitmap_bytes[OF sh(4,1)])
  obtain k where k: "total = 512 * k" using sh(1) by blast
  have p3f: "m_total_frames p3 = total" "m_bitmap_size_bytes p3 = bytes" "m_max_managed_paddr p3 = mm"
    "m_tracker p3 = Some tr'" "m_bitmap_paddr p3 = cand" "\<not> m_force_alloc_failure p3" by (simp_all add: p3_def)
  have fits: "m_total_frames p3 \<le> 64 * (unat (m_bitmap_size_bytes p3) div 8)" using k ub p3f by simp
  have mmt: "unat (m_max_managed_paddr p3) = m_total_frames p3 * 4096" using sh(2) p3f by simp
  define p4 where "p4 = mark_free p3 (m_regions tr')"
  define p5 where "p5 = reserve_overrides p4 bi ks ke mb sz"
  note M = mark_free_spec[OF ok' fits mmt, folded p4_def, unfolded p3f]
  note R = reserve_overrides_spec[OF M(1) ke mb, where bi = bi and ks = ks, folded p5_def, unfolded M]
  note F = bm_extends_fields[OF R(1)]
  have sub: "free_set p5 \<subseteq> free_set p4" using F bm_extends_test[OF R(1)] by (auto simp: free_set_def)
  have prot: "\<not> frame_protected bi ks ke mb sz f" if "f \<in> free_set p5" for f
    using that R(2)[of f] F M(3) by (auto simp: free_set_def)
  have "\<not> overlaps_reserved tr cand bytes"
    using find_placement_ok[OF cand] by (simp add: placement_ok_def Let_def)
  moreover have "bytes \<noteq> 0" using ub k sh(3) by auto
  ultimately have "\<not> cand > - 1 - bytes" by (auto simp: overlaps_reserved_def split: if_splits)
  then have "unat (cand + bytes) = unat cand + unat bytes"
    by (simp add: word_le_max_minus not_le unat_add_nowrap)
  then have "cand < cand + bytes" using \<open>bytes \<noteq> 0\<close> by (simp add: word_less_nat_alt unat_gt_0)
  then have bmp: "\<not> frame_overlaps f cand (cand + bytes)" if "f \<in> free_set p5" for f
    using that R(3)[of f] F M(3) by (auto simp: free_set_def)
  have z: "0 \<notin> free_set p5" using prot[of 0] by (auto simp: frame_protected_def)
  have "pmm_inv (tally p5)"
  proof (rule tally_inv[OF bm_extends_shape[OF R(1) M(1)] _ z])
    show "m_total_frames p5 < 2 ^ 52" using F M(3) sh(4) by simp
    show "\<not> is_reserved t (frame_addr f)" if "m_tracker p5 = Some t" "f \<in> free_set p5" for t f
      using that M(2,4) F sub by auto
  qed
  moreover have pe: "p = tally p5" unfolding p p5_def p4_def ..
  ultimately show ?thesis using tally_fields[of p5] F M(3-7) p3f(6) prot bmp k by auto
qed

section \<open>Correctness of the allocator\<close>

lemma is_page_allocated_iff:
  assumes "pmm_inv p" "is_page_aligned a"
  shows "is_page_allocated p a \<longleftrightarrow> a \<notin> free_addrs p"
proof -
  let ?f = "unat (a div PAGE_SIZE)"
  have fa: "frame_addr ?f = a" by (rule frame_addr_of_paddr[OF assms(2)])
  show ?thesis
  proof (cases "?f < m_total_frames p")
    case True
    then have "is_page_allocated p a \<longleftrightarrow> bm_test (m_bitmap p) ?f"
      using pmm_invD(1)[OF assms(1)] by (simp add: is_page_allocated_def is_frame_allocated_def pfn_from_address_def)
    also have "\<dots> \<longleftrightarrow> ?f \<notin> free_set p" using True unfolding free_set_def by blast
    also have "\<dots> \<longleftrightarrow> a \<notin> free_addrs p" using free_addrs_member[OF assms(1) True] fa by simp
    finally show ?thesis .
  next
    case False
    then have "is_page_allocated p a"
      by (simp add: is_page_allocated_def is_frame_allocated_def pfn_from_address_def)
    moreover have "a \<notin> free_addrs p"
    proof
      assume "a \<in> free_addrs p"
      then obtain g where g: "g \<in> free_set p" "a = frame_addr g" by (auto simp: free_addrs_def)
      then have "g < m_total_frames p" by (metis free_setD(1))
      moreover have "?f = g" using g(2) frame_index[OF free_frame_bound[OF assms(1) \<open>g < m_total_frames p\<close>]] by simp
      ultimately show False using False by simp
    qed
    ultimately show ?thesis by simp
  qed
qed

definition example_pmm :: pmm where
  "example_pmm = \<lparr>m_tracker = None, m_bitmap = [NOT 0xF8], m_bitmap_paddr = 0x1000, m_bitmap_size_bytes = 8,
     m_max_managed_paddr = 0x40000, m_total_frames = 64, m_usable_frames = 5, m_reserved_frames = 59,
     m_free_frames = 5, m_allocated_frames = 0, m_last_search_frame = 0,
     m_force_alloc_failure = False, m_initialized = True\<rparr>"

lemma example_free_set: "free_set example_pmm = {3, 4, 5, 6, 7}"
proof -
  have "free_set example_pmm = set (filter (\<lambda>f. \<not> bm_test [NOT 0xF8] f) [0..<64])"
    by (auto simp: free_set_def example_pmm_def)
  also have "filter (\<lambda>f. \<not> bm_test [NOT 0xF8] f) [0..<64] = [3, 4, 5, 6, 7]" by code_simp
  finally show ?thesis by simp
qed

lemma example_pmm_inv: "pmm_inv example_pmm"
  using example_free_set by (auto simp: pmm_inv_def) (simp_all add: example_pmm_def)

text \<open>C7.  A page handed out by \<open>alloc_page\<close> is page-aligned, was free and not reserved,
  becomes allocated, and no other page changes status; the free counter drops by one.  A page of
  the direct map (below 2 GiB) is zeroed and no other page's contents change; a page above it is
  handed out with the contents it had.\<close>

theorem alloc_page_fresh:
  assumes "pmm_inv p" and "alloc_page (p, mem) = (a, p', mem')" and "a \<noteq> 0"
  shows "pmm_inv p' \<and> is_page_aligned a \<and> \<not> is_page_allocated p a \<and> is_page_allocated p' a
    \<and> (\<forall>b. is_page_aligned b \<longrightarrow> b \<noteq> a \<longrightarrow> is_page_allocated p' b = is_page_allocated p b)
    \<and> (\<forall>t. m_tracker p = Some t \<longrightarrow> \<not> is_reserved t a)
    \<and> unat (m_free_frames p) = Suc (unat (m_free_frames p'))
    \<and> (is_direct_mapped a \<longrightarrow> mem' a = (\<lambda>_. 0)) \<and> (\<not> is_direct_mapped a \<longrightarrow> mem' a = mem a)
    \<and> (\<forall>b. b \<noteq> a \<longrightarrow> mem' b = mem b)"
proof -
  from alloc_page_spec[OF assms(1,2)] assms(3) obtain f where f: "f \<in> free_set p" "a = frame_addr f"
    "free_set p' = free_set p - {f}" "pmm_inv p'" "mem' = (if is_direct_mapped a then zero_page mem a else mem)"
    by auto
  have fa: "free_addrs p' = free_addrs p - {a}" "a \<in> free_addrs p"
    using pages.acquire_page[of "(p, mem)" a "(p', mem')"] assms by simp_all
  have al: "is_page_aligned a" using f(2) by simp
  have "card (free_set p) = Suc (card (free_set p'))" using f(1,3) by (metis card.remove finite_free_set)
  then have "unat (m_free_frames p) = Suc (unat (m_free_frames p'))"
    using pmm_invD(4)[OF assms(1)] pmm_invD(4)[OF f(4)] by simp
  then show ?thesis
    using f(4,5) al fa is_page_allocated_iff[OF assms(1)] is_page_allocated_iff[OF f(4)]
      pmm_invD(9)[OF assms(1) _ f(1)] f(2) by (auto simp: zero_page_def)
qed

theorem alloc_page_fresh_witness:
  "\<exists>p' mem'. alloc_page (example_pmm, \<lambda>_ _. 7) = (0x3000, p', mem') \<and>
    pmm_inv p' \<and> is_page_aligned 0x3000 \<and> \<not> is_page_allocated example_pmm 0x3000 \<and> is_page_allocated p' 0x3000
    \<and> mem' 0x3000 = (\<lambda>_. 0)"
proof -
  have e: "fst (alloc_page (example_pmm, \<lambda>_ _. 7)) = 0x3000" by code_simp
  obtain p' mem' where a: "alloc_page (example_pmm, \<lambda>_ _. 7) = (0x3000, p', mem')"
    using e by (metis prod.collapse)
  show ?thesis using alloc_page_fresh[OF example_pmm_inv a] a by (simp add: is_direct_mapped_def)
qed

text \<open>C8.  The word-wise search is complete: as long as the free counter is non-zero and
  no failure is injected, \<open>alloc_page\<close> succeeds.\<close>

theorem alloc_page_complete:
  assumes "pmm_inv p" and "64 dvd m_total_frames p" and "\<not> m_force_alloc_failure p" and "m_free_frames p \<noteq> 0"
  shows "fst (alloc_page (p, mem)) \<noteq> 0 \<and> pmm_inv (fst (snd (alloc_page (p, mem))))"
proof -
  obtain a p' mem' where a: "alloc_page (p, mem) = (a, p', mem')" using prod_cases3 by blast
  then have "a \<noteq> 0" using alloc_page_succeeds[OF assms, of mem] by simp
  then show ?thesis using alloc_page_spec[OF assms(1) a] a by auto
qed

theorem alloc_page_complete_witness:
  "fst (alloc_page (example_pmm, \<lambda>_ _. 0)) \<noteq> 0 \<and> pmm_inv (fst (snd (alloc_page (example_pmm, \<lambda>_ _. 0))))"
  by (rule alloc_page_complete[OF example_pmm_inv]) (simp_all add: example_pmm_def)

text \<open>C9.  Any number of successive allocations yields pairwise distinct pages, all of
  them free beforehand and none of them free afterwards.\<close>

theorem allocations_distinct:
  assumes "pmm_inv p" and "acquire_many alloc_page n (p, mem) = (as, p', mem')"
  shows "distinct as \<and> set as \<subseteq> free_addrs p \<and> free_addrs p' = free_addrs p - set as \<and> pmm_inv p'"
  using pages.acquire_many_spec[of "(p, mem)" n as "(p', mem')"] assms by simp

theorem allocations_distinct_witness:
  "\<exists>p' mem'. acquire_many alloc_page 6 (example_pmm, \<lambda>_ _. 0) = ([0x3000, 0x4000, 0x5000, 0x6000, 0x7000], p', mem')
    \<and> free_addrs p' = free_addrs example_pmm - set [0x3000, 0x4000, 0x5000, 0x6000, 0x7000] \<and> pmm_inv p'"
proof -
  have e: "fst (acquire_many alloc_page 6 (example_pmm, \<lambda>_ _. 0)) = [0x3000, 0x4000, 0x5000, 0x6000, 0x7000]"
    by code_simp
  obtain p' mem' where a: "acquire_many alloc_page 6 (example_pmm, \<lambda>_ _. 0) = ([0x3000, 0x4000, 0x5000, 0x6000, 0x7000], p', mem')"
    using e by (metis prod.collapse)
  show ?thesis using allocations_distinct[OF example_pmm_inv a] a by blast
qed

lemma alloc_then_free:
  assumes "pmm_inv p" and "alloc_page (p, mem) = (a, p', mem')" and "a \<noteq> 0"
  shows "\<exists>p''. free_page p' a = (True, p'') \<and> free_addrs p'' = free_addrs p \<and> pmm_inv p''"
proof -
  from alloc_page_spec[OF assms(1,2)] assms(3) obtain f where f: "f \<in> free_set p" "a = frame_addr f"
    "free_set p' = free_set p - {f}" "pmm_inv p'" "m_tracker p' = m_tracker p" "m_total_frames p' = m_total_frames p"
    by auto
  note D = pmm_invD[OF f(4)]
  have lt: "f < m_total_frames p'" using free_setD(1)[OF f(1)] f(6) by simp
  have fi: "unat (a div PAGE_SIZE) = f" using f(2) frame_index[OF free_frame_bound[OF f(4) lt]] by simp
  have "bm_test (m_bitmap p') f" using f(3) lt unfolding free_set_def by blast
  moreover have "unat a < unat (m_max_managed_paddr p')"
    using lt D(3) f(2) unat_frame_addr[OF free_frame_bound[OF f(4) lt]] by simp
  moreover have "\<not> (case m_tracker p' of None \<Rightarrow> False | Some t \<Rightarrow> is_reserved t a)"
    using f(2,5) pmm_invD(9)[OF assms(1) _ f(1)] by (auto split: option.splits)
  moreover have "m_allocated_frames p' \<noteq> 0"
  proof -
    have "card (free_set p) = Suc (card (free_set p'))" using f(1,3) by (metis card.remove finite_free_set)
    moreover have "m_usable_frames p' = m_usable_frames p"
      using assms(2,3) by (auto simp: alloc_page_def Let_def split: if_splits option.splits)
    ultimately have "unat (m_allocated_frames p') > 0"
      using D(4,5) pmm_invD(4,5)[OF assms(1)] by simp
    then show ?thesis by auto
  qed
  moreover have "is_page_aligned a" using f(2) by simp
  ultimately have ok: "fst (free_page p' a)"
    using D(1) assms(3) fi by (simp add: free_page_def Let_def word_less_nat_alt linorder_not_le)
  then obtain p'' where p'': "free_page p' a = (True, p'')" by (metis prod.collapse)
  then have r: "release_page (p', mem') a = (True, (p'', mem'))" by (simp add: release_page_def)
  have "pmm_inv p''" "free_addrs p'' = free_addrs p"
    using pages.acquire_release[of "(p, mem)" a "(p', mem')" "(p'', mem')"] assms r by simp_all
  then show ?thesis using p'' by blast
qed

text \<open>C10.  Releasing a page just allocated succeeds and restores the set of free pages;
  releasing it a second time is rejected and changes nothing.\<close>

theorem free_after_alloc:
  assumes "pmm_inv p" and "alloc_page (p, mem) = (a, p', mem')" and "a \<noteq> 0"
  shows "\<exists>p''. free_page p' a = (True, p'') \<and> free_addrs p'' = free_addrs p \<and> pmm_inv p''
    \<and> free_page p'' a = (False, p'')"
proof -
  obtain p'' where p'': "free_page p' a = (True, p'')" "free_addrs p'' = free_addrs p" "pmm_inv p''"
    using alloc_then_free[OF assms] by blast
  have "pmm_inv p'" using alloc_page_spec[OF assms(1,2)] assms(3) by auto
  then have "\<not> fst (free_page p'' a)"
    using pages.release_twice[of "(p', mem')" a "(p'', mem')"] p''(1)
    by (auto simp: release_page_def split: prod.splits)
  then show ?thesis using p'' free_page_spec[of p'' a] by (metis prod.collapse)
qed

theorem free_after_alloc_witness:
  "\<exists>p' mem' p''. alloc_page (example_pmm, \<lambda>_ _. 0) = (0x3000, p', mem') \<and> free_page p' 0x3000 = (True, p'')
     \<and> free_addrs p'' = free_addrs example_pmm \<and> free_page p'' 0x3000 = (False, p'')"
proof -
  have e: "fst (alloc_page (example_pmm, \<lambda>_ _. 0)) = 0x3000" by code_simp
  obtain p' mem' where a: "alloc_page (example_pmm, \<lambda>_ _. 0) = (0x3000, p', mem')"
    using e by (metis prod.collapse)
  show ?thesis using free_after_alloc[OF example_pmm_inv a] a by auto
qed

text \<open>C11.  A contiguous allocation of \<open>n\<close> pages returns a run of \<open>n\<close> frames that were all
  free and unreserved; exactly those frames leave the free set.\<close>

theorem alloc_pages_contiguous:
  assumes "pmm_inv p" and "alloc_pages (p, mem) n = (a, p', mem')" and "a \<noteq> 0"
  shows "pmm_inv p' \<and> is_page_aligned a
    \<and> (\<forall>i < unat n. \<not> is_page_allocated p (a + of_nat i * PAGE_SIZE) \<and> is_page_allocated p' (a + of_nat i * PAGE_SIZE))
    \<and> free_addrs p' = free_addrs p - (\<lambda>i. a + of_nat i * PAGE_SIZE) ` {0..<unat n}
    \<and> card (free_set p) = card (free_set p') + unat n
    \<and> (\<forall>t i. m_tracker p = Some t \<longrightarrow> i < unat n \<longrightarrow> \<not> is_reserved t (a + of_nat i * PAGE_SIZE))"
proof -
  obtain r where r: "a = frame_addr r" "{r..<r + unat n} \<subseteq> free_set p"
    "free_set p' = free_set p - {r..<r + unat n}" "pmm_inv p'" "m_tracker p' = m_tracker p" "m_total_frames p' = m_total_frames p"
    using alloc_pages_spec[OF assms] by blast
  have ad: "a + of_nat i * PAGE_SIZE = frame_addr (r + i)" for i
    by (simp add: r(1) frame_addr_def distrib_right)
  have in_free: "r + i \<in> free_set p" "r + i \<notin> free_set p'" "r + i < m_total_frames p" if "i < unat n" for i
    using that r(2,3) free_setD(1) by (auto simp: subset_iff)
  have "card (free_set p') = card (free_set p) - unat n" unfolding r(3) using r(2) by (simp add: card_Diff_subset)
  moreover have "unat n \<le> card (free_set p)" using card_mono[OF finite_free_set r(2)] by simp
  ultimately have "card (free_set p) = card (free_set p') + unat n" by simp
  moreover have "free_addrs p' = free_addrs p - (\<lambda>i. a + of_nat i * PAGE_SIZE) ` {0..<unat n}"
  proof -
    have "(\<lambda>i. a + of_nat i * PAGE_SIZE) ` {0..<unat n} = frame_addr ` {r..<r + unat n}"
      unfolding ad image_image[of frame_addr "\<lambda>i. r + i", symmetric] by (simp add: add.commute)
    moreover have "inj_on frame_addr (free_set p)"
      using frame_index[OF free_frame_bound[OF assms(1)]] free_setD(1) by (intro inj_onI) metis
    ultimately show ?thesis using r(2,3) unfolding free_addrs_def by (simp add: inj_on_image_set_diff)
  qed
  ultimately show ?thesis
    using r(1,4) in_free is_page_allocated_iff[OF assms(1)] is_page_allocated_iff[OF r(4)]
      free_addrs_member[OF assms(1)] free_addrs_member[OF r(4)] r(6) pmm_invD(9)[OF assms(1)]
    unfolding ad by auto
qed

theorem alloc_pages_contiguous_witness:
  "\<exists>p' mem'. alloc_pages (example_pmm, \<lambda>_ _. 0) 3 = (0x3000, p', mem') \<and> pmm_inv p'
    \<and> \<not> is_page_allocated example_pmm 0x5000 \<and> is_page_allocated p' 0x5000"
proof -
  have e: "fst (alloc_pages (example_pmm, \<lambda>_ _. 0) 3) = 0x3000" by code_simp
  obtain p' mem' where a: "alloc_pages (example_pmm, \<lambda>_ _. 0) 3 = (0x3000, p', mem')"
    using e by (metis prod.collapse)
  have "0x3000 + of_nat 2 * PAGE_SIZE = (0x5000 :: u64)" by (simp add: PAGE_SIZE_def)
  then have "pmm_inv p' \<and> \<not> is_page_allocated example_pmm 0x5000 \<and> is_page_allocated p' 0x5000"
    using alloc_pages_contiguous[OF example_pmm_inv a] by (auto dest!: spec[of _ "2 :: nat"])
  then show ?thesis using a by blast
qed

text \<open>Frames 3, 4 and 7 are free and the search hint is 4.\<close>

definition straddle_pmm :: pmm where
  "straddle_pmm = example_pmm\<lparr>m_bitmap := [NOT 0x98], m_free_frames := 3, m_allocated_frames := 2, m_last_search_frame := 4\<rparr>"

lemma straddle_free_set: "free_set straddle_pmm = {3, 4, 7}"
proof -
  have "free_set straddle_pmm = set (filter (\<lambda>f. \<not> bm_test [NOT 0x98] f) [0..<64])"
    unfolding straddle_pmm_def by (auto simp: free_set_def example_pmm_def)
  also have "filter (\<lambda>f. \<not> bm_test [NOT 0x98] f) [0..<64] = [3, 4, 7]" by code_simp
  finally show ?thesis by simp
qed

lemma straddle_inv: "pmm_inv straddle_pmm"
  using straddle_free_set by (auto simp: pmm_inv_def straddle_pmm_def) (simp_all add: example_pmm_def)

text \<open>C12.  Exactly which contiguous requests succeed: a request for at least two pages is served
  exactly when some run of that many free frames lies wholly at or above the search hint or
  wholly below it.  The two scans therefore miss a run that straddles the hint, also when it is
  long enough.\<close>

theorem alloc_pages_misses_straddling_run:
  assumes "pmm_inv p" and "\<not> m_force_alloc_failure p" and "2 \<le> unat n"
  shows "fst (alloc_pages (p, mem) n) \<noteq> 0 \<longleftrightarrow>
    (\<exists>r. {r..<r + unat n} \<subseteq> free_set p \<and> (m_last_search_frame p \<le> r \<or> r + unat n \<le> m_last_search_frame p))"
  by (rule alloc_pages_search[OF assms])

theorem alloc_pages_misses_straddling_run_witness:
  "fst (alloc_pages (straddle_pmm, \<lambda>_ _. 0) 2) = 0 \<and> {3..<3 + 2} \<subseteq> free_set straddle_pmm
     \<and> m_last_search_frame straddle_pmm = 4"
proof -
  have h: "m_last_search_frame straddle_pmm = 4" "\<not> m_force_alloc_failure straddle_pmm"
    by (simp_all add: straddle_pmm_def example_pmm_def)
  have "\<not> (\<exists>r. {r..<r + unat (2 :: u64)} \<subseteq> free_set straddle_pmm \<and> (4 \<le> r \<or> r + unat (2 :: u64) \<le> 4))"
  proof
    assume "\<exists>r. {r..<r + unat (2 :: u64)} \<subseteq> free_set straddle_pmm \<and> (4 \<le> r \<or> r + unat (2 :: u64) \<le> 4)"
    then obtain r where r: "{r..<r + 2} \<subseteq> {3, 4, 7 :: nat}" "4 \<le> r \<or> r + 2 \<le> 4"
      unfolding straddle_free_set by auto
    have "r \<in> {r..<r + 2}" "Suc r \<in> {r..<r + 2}" by auto
    then have "r \<in> {3, 4, 7}" "Suc r \<in> {3, 4, 7}" using r(1) by blast+
    then show False using r(2) by auto
  qed
  moreover have "{3..<3 + 2} \<subseteq> free_set straddle_pmm" unfolding straddle_free_set by auto
  ultimately show ?thesis
    using alloc_pages_misses_straddling_run[OF straddle_inv h(2), of 2 "\<lambda>_ _. 0"] h(1) by auto
qed

section \<open>Correctness of initialisation\<close>

lemma populate_tracker_ok: "tracker_ok (populate t bi ks ke mb sz)"
proof -
  have len: "length (import_mmap raws es) \<le> MAX_REGIONS" if "length raws \<le> 3" for raws es
    using that import_mmap_shape[of raws es] by (simp add: MAX_REGIONS_def)
  show ?thesis
    by (cases "ks < ke"; cases "mb \<noteq> 0 \<and> 0 < sz")
      (simp_all add: tracker_ok_def populate_def normalize_def Let_def len)
qed

definition example_boot :: boot_information where
  "example_boot = \<lparr>bi_valid = True, mmap_truncated = False, usable_ram_overflow = False,
     command_line = [], bootloader_name = [], mem_lower_kb = 640, mem_upper_kb = 1024,
     total_usable_ram_bytes = 0x100000, total_mmap_entries_detected = 2,
     mmap_entries = [\<lparr>base_addr = 0xF0000, entry_length = 0x10000, entry_type = MT_Reserved\<rparr>,
                     \<lparr>base_addr = 0x100000, entry_length = 0x100000, entry_type = MT_Available\<rparr>],
     framebuffer = \<lparr>fb_valid = False, fb_address = 0, fb_pitch = 0, fb_width = 0, fb_height = 0,
                    fb_bpp = 0, fb_type = 0, fb_red = (0, 0), fb_green = (0, 0), fb_blue = (0, 0), fb_total_size = 0\<rparr>,
     acpi = \<lparr>acpi_valid = False, acpi_is_v2 = False, acpi_revision = 0, acpi_oem_id = [], acpi_copy_addr = 0,
             acpi_length = 0, acpi_rsdt = 0, acpi_xsdt = 0\<rparr>,
     efi = \<lparr>efi_present = False, efi_valid = False, efi_is_physical = False, efi_is_firmware_owned = False,
            efi_system_table = 0\<rparr>,
     mb2_info_paddr = 0x9000, mb2_info_total_size = 0x100\<rparr>"

definition example_boot_tracker :: reserved_tracker where
  "example_boot_tracker = populate \<lparr>m_raw_regions = [], m_regions = []\<rparr> example_boot 0x100000 0x108000 0x9000 0x100"

lemma example_init_runs:
  "\<exists>p tr'. pmm_init example_pmm example_boot example_boot_tracker 0x100000 0x108000 0x9000 0x100 = Some (True, p, tr')"
proof -
  have mx: "max_usable_addr (mmap_entries example_boot) = 0x200000" by code_simp
  have tot: "unat (addr_align_up 0x200000 (2 * 1024 * 1024) div PAGE_SIZE) = 512" by code_simp
  have "find_placement (placement_ok example_boot_tracker 0x9000 0x100 (bitmap_bytes 512)) (bitmap_bytes 512)
      (addr_align_up 0x108000 PAGE_SIZE) (mmap_entries example_boot) = Some (Some 0x108000)" by code_simp
  then show ?thesis unfolding pmm_init_def mx Let_def tot by simp
qed

text \<open>C13.  Initialisation establishes the allocator invariant, and no frame it leaves
  free overlaps the first mebibyte, the kernel image, the Multiboot2 block, the bitmap
  itself or any firmware region that is not available RAM.\<close>

theorem pmm_init_protects:
  assumes "pmm_init p0 bi tr kernel_start kernel_end mb2_paddr mb2_size = Some (True, p, tr')"
    and "tracker_ok tr"
    and "unat (max_usable_addr (mmap_entries bi)) + 2 ^ 21 \<le> 2 ^ 64"
    and "unat kernel_end + 4095 < 2 ^ 64" and "unat mb2_paddr + unat mb2_size + 4095 < 2 ^ 64"
  shows "pmm_inv p \<and> 64 dvd m_total_frames p \<and> m_tracker p = Some tr' \<and> m_allocated_frames p = 0
    \<and> (\<forall>f\<in>free_set p. \<not> frame_protected bi kernel_start kernel_end mb2_paddr mb2_size f
         \<and> \<not> frame_overlaps f (m_bitmap_paddr p) (m_bitmap_paddr p + m_bitmap_size_bytes p))"
  using pmm_init_sound_aux[OF assms] by blast

theorem pmm_init_protects_witness:
  "\<exists>p tr'. pmm_init example_pmm example_boot example_boot_tracker 0x100000 0x108000 0x9000 0x100 = Some (True, p, tr')
     \<and> pmm_inv p \<and> 0 \<notin> free_set p \<and> 0x104 \<notin> free_set p"
proof -
  obtain p tr' where i: "pmm_init example_pmm example_boot example_boot_tracker 0x100000 0x108000 0x9000 0x100 = Some (True, p, tr')"
    using example_init_runs by blast
  have "tracker_ok example_boot_tracker" unfolding example_boot_tracker_def by (rule populate_tracker_ok)
  moreover have "max_usable_addr (mmap_entries example_boot) = 0x200000" by code_simp
  ultimately have p: "pmm_inv p \<and> (\<forall>f\<in>free_set p. \<not> frame_protected example_boot 0x100000 0x108000 0x9000 0x100 f)"
    using pmm_init_protects[OF i] by simp
  moreover have "frame_protected example_boot 0x100000 0x108000 0x9000 0x100 0"
    "frame_protected example_boot 0x100000 0x108000 0x9000 0x100 0x104"
    by (simp_all add: frame_protected_def frame_overlaps_def)
  ultimately show ?thesis using i by blast
qed

end
