(* ===== verification/Vmm.thy ===== *)
theory Vmm
  imports Pmm
begin

text \<open>
  \<open>memory/vmm.{hpp,cpp}\<close>: page-table entries and the four-level paging engine.  Page
  tables live in the physical memory of the PMM model; a table is named by its physical
  address, which the code reaches through the direct map.  The CR3 register is a field of
  the state, the linker's section markers and \<open>IA32_EFER\<close> are parameters; TLB
  invalidation and the GDT reload have no effect on the modelled state.
\<close>

section \<open>Page-table entries\<close>

datatype vmm_status =
    Success | NotInitialized | InvalidVirtualAddress | UnalignedAddress
  | OutOfMemory | AlreadyMapped | NotMapped | HugePageCollision

definition pte_is_present :: "u64 \<Rightarrow> bool" where "pte_is_present raw = ((raw AND push_bit 0 1) \<noteq> 0)"
definition pte_is_writable :: "u64 \<Rightarrow> bool" where "pte_is_writable raw = ((raw AND push_bit 1 1) \<noteq> 0)"
definition pte_is_user :: "u64 \<Rightarrow> bool" where "pte_is_user raw = ((raw AND push_bit 2 1) \<noteq> 0)"
definition pte_is_write_through :: "u64 \<Rightarrow> bool" where "pte_is_write_through raw = ((raw AND push_bit 3 1) \<noteq> 0)"
definition pte_is_cache_disabled :: "u64 \<Rightarrow> bool" where "pte_is_cache_disabled raw = ((raw AND push_bit 4 1) \<noteq> 0)"
definition pte_is_accessed :: "u64 \<Rightarrow> bool" where "pte_is_accessed raw = ((raw AND push_bit 5 1) \<noteq> 0)"
definition pte_is_dirty :: "u64 \<Rightarrow> bool" where "pte_is_dirty raw = ((raw AND push_bit 6 1) \<noteq> 0)"
definition pte_is_huge :: "u64 \<Rightarrow> bool" where "pte_is_huge raw = ((raw AND push_bit 7 1) \<noteq> 0)"
definition pte_is_global :: "u64 \<Rightarrow> bool" where "pte_is_global raw = ((raw AND push_bit 8 1) \<noteq> 0)"
definition pte_is_no_execute :: "u64 \<Rightarrow> bool" where "pte_is_no_execute raw = ((raw AND push_bit 63 1) \<noteq> 0)"

definition pte_physical_address :: "u64 \<Rightarrow> u64" where
  "pte_physical_address raw = raw AND 0x000FFFFFFFFFF000"

definition pte_flags :: "u64 \<Rightarrow> u64" where
  "pte_flags raw =
     (if pte_is_present raw then PF_Present else 0)
  OR (if pte_is_writable raw then PF_Writable else 0)
  OR (if pte_is_user raw then PF_User else 0)
  OR (if pte_is_write_through raw then PF_WriteThrough else 0)
  OR (if pte_is_cache_disabled raw then PF_CacheDisable else 0)
  OR (if pte_is_accessed raw then PF_Accessed else 0)
  OR (if pte_is_dirty raw then PF_Dirty else 0)
  OR (if pte_is_huge raw then PF_HugePage else 0)
  OR (if pte_is_global raw then PF_Global else 0)
  OR (if pte_is_no_execute raw then PF_NoExecute else 0)"

definition pte_set :: "u64 \<Rightarrow> u64 \<Rightarrow> u64" where
  "pte_set paddr flags =
     (paddr AND 0x000FFFFFFFFFF000) OR (flags AND 0x1FF) OR (flags AND push_bit 63 1)"

section \<open>State\<close>

record vmm =
  m_root_pml4_paddr :: u64
  m_root_pml4 :: "u64 option"
  m_vmm_initialized :: bool
  hw_cr3 :: u64

record kernel_sections =
  text_s :: u64
  text_e :: u64
  rodata_s :: u64
  rodata_e :: u64
  data_s :: u64
  data_e :: u64
  bss_s :: u64
  bss_e :: u64

definition write_entry :: "page_mem \<Rightarrow> u64 \<Rightarrow> nat \<Rightarrow> u64 \<Rightarrow> page_mem" where
  "write_entry mem tbl i e = mem(tbl := (mem tbl)(i := e))"

section \<open>Initialisation\<close>

definition section_flags :: "kernel_sections \<Rightarrow> u64 \<Rightarrow> u64" where
  "section_flags ks pa_val =
     (let va_val = 0xFFFFFFFF80000000 + pa_val in
      if va_val \<ge> text_s ks \<and> va_val < text_e ks then PF_Present
      else if va_val \<ge> rodata_s ks \<and> va_val < rodata_e ks then PF_Present OR PF_NoExecute
      else if va_val \<ge> data_s ks \<and> va_val < data_e ks then PF_Present OR PF_Writable OR PF_NoExecute
      else if va_val \<ge> bss_s ks \<and> va_val < bss_e ks then PF_Present OR PF_Writable OR PF_NoExecute
      else if pa_val < 0x100000 then PF_Present OR PF_Writable OR PF_NoExecute
      else if pa_val \<ge> 0x100000 \<and> va_val < text_s ks then PF_Present OR PF_Writable
      else PF_Present OR PF_Writable OR PF_NoExecute)"

definition fill_pd2 :: "u64 \<Rightarrow> page_mem \<Rightarrow> page_mem" where
  "fill_pd2 pd2 mem =
     fold (\<lambda>i m. write_entry m pd2 i
             (pte_set (0x40000000 + of_nat i * 2 * 1024 * 1024)
                (PF_Present OR PF_Writable OR PF_HugePage OR PF_NoExecute))) [0..<512] mem"

definition fill_pt0 :: "kernel_sections \<Rightarrow> u64 \<Rightarrow> page_mem \<Rightarrow> page_mem" where
  "fill_pt0 ks pt0 mem =
     fold (\<lambda>f m. write_entry m pt0 f (pte_set (of_nat f * 4096) (section_flags ks (of_nat f * 4096)))) [0..<512] mem"

definition fill_pd1 :: "u64 \<Rightarrow> page_mem \<Rightarrow> page_mem" where
  "fill_pd1 pd1 mem =
     fold (\<lambda>i m. write_entry m pd1 i
             (pte_set (of_nat i * 2 * 1024 * 1024)
                (PF_Present OR PF_Writable OR PF_HugePage OR PF_NoExecute))) [1..<256] mem"

definition free_all :: "pmm \<Rightarrow> u64 list \<Rightarrow> pmm" where
  "free_all p as = fold (\<lambda>a p. snd (free_page p a)) as p"

definition vmm_init ::
  "u64 \<Rightarrow> kernel_sections \<Rightarrow> vmm \<Rightarrow> pmm \<times> page_mem \<Rightarrow> bool \<times> vmm \<times> pmm \<times> page_mem" where
  "vmm_init efer ks v0 = (\<lambda>(p0, mem0).
     let v = v0\<lparr>m_vmm_initialized := False\<rparr>; table = PF_Present OR PF_Writable in
     if (efer AND push_bit 11 1) = 0 then (False, v, p0, mem0)
     else let (pml4, p1, mem1) = alloc_page (p0, mem0) in
     if pml4 = 0 then (False, v, p1, mem1)
     else let (pdpt, p2, mem2) = alloc_page (p1, mem1) in
     if pdpt = 0 then (False, v, free_all p2 [pml4], mem2)
     else let mem2' = write_entry mem2 pml4 511 (pte_set pdpt table);
              (pd2, p3, mem3) = alloc_page (p2, mem2') in
     if pd2 = 0 then (False, v, free_all p3 [pdpt, pml4], mem3)
     else let mem3' = fill_pd2 pd2 (write_entry mem3 pdpt 511 (pte_set pd2 table));
              (pd1, p4, mem4) = alloc_page (p3, mem3') in
     if pd1 = 0 then (False, v, free_all p4 [pd2, pdpt, pml4], mem4)
     else let mem4' = write_entry mem4 pdpt 510 (pte_set pd1 table);
              (pt0, p5, mem5) = alloc_page (p4, mem4') in
     if pt0 = 0 then (False, v, free_all p5 [pd1, pd2, pdpt, pml4], mem5)
     else let mem5' = fill_pd1 pd1 (fill_pt0 ks pt0 (write_entry mem5 pd1 0 (pte_set pt0 table)))
          in (True, v\<lparr>m_root_pml4_paddr := pml4, m_root_pml4 := Some pml4, hw_cr3 := pml4,
                      m_vmm_initialized := True\<rparr>, p5, mem5'))"

section \<open>Mapping\<close>

text \<open>One level of the walk of \<open>map_page_in_table\<close>: allocate and link a missing table, or
  add the user bit to a present entry; \<open>None\<close> is the out-of-memory return.\<close>

definition next_table ::
  "u64 \<Rightarrow> u64 \<Rightarrow> u64 \<Rightarrow> nat \<Rightarrow> pmm \<times> page_mem \<Rightarrow> u64 option \<times> pmm \<times> page_mem" where
  "next_table flags table_flags tbl idx = (\<lambda>(p, mem).
     let e = mem tbl idx in
     if \<not> pte_is_present e then
       let (pa, p', mem') = alloc_page (p, mem) in
       if pa = 0 then (None, p', mem')
       else let e' = pte_set pa table_flags
            in (Some (pte_physical_address e'), p', write_entry mem' tbl idx e')
     else if test_flag flags PF_User \<and> \<not> pte_is_user e then
       let e' = pte_set (pte_physical_address e) (pte_flags e OR PF_User)
       in (Some (pte_physical_address e'), p, write_entry mem tbl idx e')
     else (Some (pte_physical_address e), p, mem))"

definition leaf_table ::
  "u64 \<Rightarrow> u64 \<Rightarrow> u64 \<Rightarrow> u64 \<Rightarrow> pmm \<times> page_mem \<Rightarrow> (vmm_status + u64) \<times> pmm \<times> page_mem" where
  "leaf_table flags table_flags pml4 vaddr s =
     (case next_table flags table_flags pml4 (pml4_index vaddr) s of
        (None, s1) \<Rightarrow> (Inl OutOfMemory, s1)
      | (Some pdpt, s1) \<Rightarrow>
     (case next_table flags table_flags pdpt (pdpt_index vaddr) s1 of
        (None, s2) \<Rightarrow> (Inl OutOfMemory, s2)
      | (Some pd, s2) \<Rightarrow>
         if pte_is_huge (snd s2 pd (pd_index vaddr)) then (Inl HugePageCollision, s2)
         else
     (case next_table flags table_flags pd (pd_index vaddr) s2 of
        (None, s3) \<Rightarrow> (Inl OutOfMemory, s3)
      | (Some pt, s3) \<Rightarrow> (Inr pt, s3))))"

definition map_page_in_table ::
  "vmm \<Rightarrow> pmm \<times> page_mem \<Rightarrow> u64 \<Rightarrow> u64 \<Rightarrow> u64 \<Rightarrow> u64 \<Rightarrow> vmm_status \<times> pmm \<times> page_mem" where
  "map_page_in_table v s pml4_pa vaddr paddr flags =
     (if \<not> m_vmm_initialized v then (NotInitialized, s)
      else if \<not> is_canonical vaddr then (InvalidVirtualAddress, s)
      else if \<not> is_page_aligned vaddr \<or> \<not> is_page_aligned paddr then (UnalignedAddress, s)
      else
        let pml4 = (if pml4_pa = 0 then the (m_root_pml4 v) else pml4_pa);
            table_flags = (if test_flag flags PF_User then PF_Present OR PF_Writable OR PF_User
                           else PF_Present OR PF_Writable)
        in case leaf_table flags table_flags pml4 vaddr s of
             (Inl st, s') \<Rightarrow> (st, s')
           | (Inr pt, s') \<Rightarrow>
               if pte_is_present (snd s' pt (pt_index vaddr)) then (AlreadyMapped, s')
               else (Success, fst s',
                     write_entry (snd s') pt (pt_index vaddr) (pte_set paddr (flags OR PF_Present))))"

definition map_page :: "vmm \<Rightarrow> pmm \<times> page_mem \<Rightarrow> u64 \<Rightarrow> u64 \<Rightarrow> u64 \<Rightarrow> vmm_status \<times> pmm \<times> page_mem" where
  "map_page v s vaddr paddr flags = map_page_in_table v s (m_root_pml4_paddr v) vaddr paddr flags"

definition unmap_page :: "vmm \<Rightarrow> page_mem \<Rightarrow> u64 \<Rightarrow> vmm_status \<times> page_mem" where
  "unmap_page v mem vaddr =
     (if \<not> m_vmm_initialized v then (NotInitialized, mem)
      else if \<not> is_canonical vaddr then (InvalidVirtualAddress, mem)
      else if \<not> is_page_aligned vaddr then (UnalignedAddress, mem)
      else
        let pml4e = mem (the (m_root_pml4 v)) (pml4_index vaddr) in
        if \<not> pte_is_present pml4e then (NotMapped, mem)
        else let pdpte = mem (pte_physical_address pml4e) (pdpt_index vaddr) in
        if \<not> pte_is_present pdpte then (NotMapped, mem)
        else let pde = mem (pte_physical_address pdpte) (pd_index vaddr) in
        if \<not> pte_is_present pde then (NotMapped, mem)
        else if pte_is_huge pde then (HugePageCollision, mem)
        else let pt = pte_physical_address pde in
        if \<not> pte_is_present (mem pt (pt_index vaddr)) then (NotMapped, mem)
        else (Success, write_entry mem pt (pt_index vaddr) 0))"

section \<open>Translation\<close>

text \<open>\<open>walk\<close> is the table walk that \<open>translate\<close> and \<open>walk_live_cr3\<close> share: the leaf
  entry and the physical address, or \<open>None\<close> when a level is not present.\<close>

definition walk :: "page_mem \<Rightarrow> u64 \<Rightarrow> u64 \<Rightarrow> (u64 \<times> u64) option" where
  "walk mem pml4 vaddr =
     (let pml4e = mem pml4 (pml4_index vaddr) in
      if \<not> pte_is_present pml4e then None
      else let pdpte = mem (pte_physical_address pml4e) (pdpt_index vaddr) in
      if \<not> pte_is_present pdpte then None
      else let pde = mem (pte_physical_address pdpte) (pd_index vaddr) in
      if \<not> pte_is_present pde then None
      else if pte_is_huge pde then Some (pde, pte_physical_address pde + (vaddr AND 0x1FFFFF))
      else let pte = mem (pte_physical_address pde) (pt_index vaddr) in
      if \<not> pte_is_present pte then None
      else Some (pte, pte_physical_address pte + page_offset vaddr))"

definition translate :: "vmm \<Rightarrow> page_mem \<Rightarrow> u64 \<Rightarrow> (u64 \<times> u64) option" where
  "translate v mem vaddr =
     (if \<not> m_vmm_initialized v \<or> \<not> is_canonical vaddr then None
      else let pml4_pa = (if hw_cr3 v \<noteq> 0 then hw_cr3 v AND NOT 0xFFF else m_root_pml4_paddr v)
           in case walk mem pml4_pa vaddr of
                None \<Rightarrow> None
              | Some (e, pa) \<Rightarrow> Some (pa, pte_flags e))"

definition is_mapped :: "vmm \<Rightarrow> page_mem \<Rightarrow> u64 \<Rightarrow> bool" where
  "is_mapped v mem vaddr = (translate v mem vaddr \<noteq> None)"

definition walk_live_cr3 :: "vmm \<Rightarrow> page_mem \<Rightarrow> u64 \<Rightarrow> (u64 \<times> u64) option" where
  "walk_live_cr3 v mem vaddr =
     (if \<not> is_canonical vaddr then None else walk mem (hw_cr3 v AND NOT 0xFFF) vaddr)"

section \<open>User address spaces\<close>

definition create_user_address_space :: "vmm \<Rightarrow> pmm \<times> page_mem \<Rightarrow> u64 \<times> pmm \<times> page_mem" where
  "create_user_address_space v = (\<lambda>(p, mem).
     case m_root_pml4 v of
       None \<Rightarrow> (0, p, mem)
     | Some root \<Rightarrow>
        if \<not> m_vmm_initialized v then (0, p, mem)
        else let (pml4_pa, p', mem') = alloc_page (p, mem) in
          if pml4_pa = 0 then (0, p', mem')
          else let cleared = fold (\<lambda>i m. write_entry m pml4_pa i 0) [0..<256] mem';
                   copied = fold (\<lambda>i m. write_entry m pml4_pa i (m root i)) [256..<512] cleared
               in (pml4_pa, p', copied))"

definition release_pt :: "u64 \<Rightarrow> pmm \<times> page_mem \<Rightarrow> pmm \<times> page_mem" where
  "release_pt pt s =
     fold (\<lambda>l (p, mem). if pte_is_present (mem pt l)
              then (snd (free_page p (pte_physical_address (mem pt l))), write_entry mem pt l 0)
              else (p, mem)) [0..<512] s"

definition release_pd :: "u64 \<Rightarrow> pmm \<times> page_mem \<Rightarrow> pmm \<times> page_mem" where
  "release_pd pd s =
     fold (\<lambda>k (p, mem). if pte_is_present (mem pd k) \<and> \<not> pte_is_huge (mem pd k)
              then (let (p', mem') = release_pt (pte_physical_address (mem pd k)) (p, mem)
                    in (snd (free_page p' (pte_physical_address (mem' pd k))), mem'))
              else (p, mem)) [0..<512] s"

definition release_pdpt :: "u64 \<Rightarrow> pmm \<times> page_mem \<Rightarrow> pmm \<times> page_mem" where
  "release_pdpt pdpt s =
     fold (\<lambda>j (p, mem). if pte_is_present (mem pdpt j) \<and> \<not> pte_is_huge (mem pdpt j)
              then (let (p', mem') = release_pd (pte_physical_address (mem pdpt j)) (p, mem)
                    in (snd (free_page p' (pte_physical_address (mem' pdpt j))), mem'))
              else (p, mem)) [0..<512] s"

definition destroy_user_address_space :: "vmm \<Rightarrow> u64 \<Rightarrow> pmm \<times> page_mem \<Rightarrow> pmm \<times> page_mem" where
  "destroy_user_address_space v pml4_pa s =
     (if pml4_pa = 0 \<or> pml4_pa = m_root_pml4_paddr v then s
      else let (p, mem) =
             fold (\<lambda>i (p, mem). if pte_is_present (mem pml4_pa i)
                then (let (p', mem') = release_pdpt (pte_physical_address (mem pml4_pa i)) (p, mem)
                      in (snd (free_page p' (pte_physical_address (mem' pml4_pa i))), mem'))
                else (p, mem)) [0..<256] s
           in (snd (free_page p pml4_pa), mem))"

section \<open>Entries bit by bit\<close>

lemma and_push_bit: "(w AND push_bit n 1) \<noteq> 0 \<longleftrightarrow> bit w n" for w :: u64
  by (simp add: push_bit_of_1 and_exp_eq_0_iff_not_bit)

lemmas pte_bit_iffs =
  pte_is_present_def[unfolded and_push_bit] pte_is_writable_def[unfolded and_push_bit]
  pte_is_user_def[unfolded and_push_bit] pte_is_write_through_def[unfolded and_push_bit]
  pte_is_cache_disabled_def[unfolded and_push_bit] pte_is_accessed_def[unfolded and_push_bit]
  pte_is_dirty_def[unfolded and_push_bit] pte_is_huge_def[unfolded and_push_bit]
  pte_is_global_def[unfolded and_push_bit] pte_is_no_execute_def[unfolded and_push_bit]

lemma addr_mask: "(0x000FFFFFFFFFF000 :: u64) = push_bit 12 (mask 40)"
  by (simp add: mask_eq_exp_minus_1 push_bit_eq_mult)

lemma bit_pte_addr: "bit (pte_physical_address e) n \<longleftrightarrow> 12 \<le> n \<and> n < 52 \<and> bit e n"
  unfolding pte_physical_address_def addr_mask by (auto simp: bit_simps)

lemma bit_single: "bit (push_bit k 1 :: u64) n \<longleftrightarrow> n = k \<and> k < 64"
  by (auto simp: push_bit_of_1 bit_exp_iff)

lemma bit_511: "bit (0x1FF :: u64) n \<longleftrightarrow> n < 9"
  by (subst low_mask_9) (auto simp: bit_mask_iff)

lemma bit_PF:
  "bit PF_Present n \<longleftrightarrow> n = 0" "bit PF_Writable n \<longleftrightarrow> n = 1" "bit PF_User n \<longleftrightarrow> n = 2"
  "bit PF_WriteThrough n \<longleftrightarrow> n = 3" "bit PF_CacheDisable n \<longleftrightarrow> n = 4" "bit PF_Accessed n \<longleftrightarrow> n = 5"
  "bit PF_Dirty n \<longleftrightarrow> n = 6" "bit PF_HugePage n \<longleftrightarrow> n = 7" "bit PF_Global n \<longleftrightarrow> n = 8" "bit PF_NoExecute n \<longleftrightarrow> n = 63"
  unfolding page_flag_defs bit_single by simp_all

lemma bit_pte_set:
  "bit (pte_set a f) n \<longleftrightarrow> (12 \<le> n \<and> n < 52 \<and> bit a n) \<or> (n < 9 \<and> bit f n) \<or> (n = 63 \<and> bit f n)"
proof -
  have "bit (a AND 0x000FFFFFFFFFF000) n \<longleftrightarrow> 12 \<le> n \<and> n < 52 \<and> bit a n"
    using bit_pte_addr[of a n] by (simp only: pte_physical_address_def)
  then show ?thesis unfolding pte_set_def bit_or_iff bit_and_iff[of f] bit_511 bit_single by auto
qed

lemma bit_if_zero: "bit (if c then w else 0) n \<longleftrightarrow> c \<and> bit w n" for w :: u64
  by simp

lemma bit_pte_flags: "bit (pte_flags e) n \<longleftrightarrow> (n < 9 \<or> n = 63) \<and> bit e n"
proof -
  have nine: "n < 9 \<longleftrightarrow> n = 0 \<or> n = 1 \<or> n = 2 \<or> n = 3 \<or> n = 4 \<or> n = 5 \<or> n = 6 \<or> n = 7 \<or> n = 8" by auto
  show ?thesis
    unfolding pte_flags_def bit_or_iff bit_if_zero bit_PF pte_bit_iffs nine
    by (rule iffI; elim disjE conjE; simp)
qed

lemma pte_present_set [simp]: "pte_is_present (pte_set a f) \<longleftrightarrow> bit f 0"
  and pte_user_set: "pte_is_user (pte_set a f) \<longleftrightarrow> bit f 2"
  and pte_huge_set [simp]: "pte_is_huge (pte_set a f) \<longleftrightarrow> bit f 7"
  by (simp_all add: pte_bit_iffs bit_pte_set)

lemma aligned_bit: "is_page_aligned a \<Longrightarrow> bit a n \<Longrightarrow> 12 \<le> n"
proof (rule ccontr)
  assume a: "is_page_aligned a" "bit a n" "\<not> 12 \<le> n"
  then have "bit (a AND mask 12) n" by (simp add: bit_simps)
  then show False using a(1) by (simp add: is_page_aligned_def page_mask_eq)
qed

lemma small_bit:
  assumes "unat a < 2 ^ k" "bit a n" shows "n < k"
proof (rule ccontr)
  assume "\<not> n < k"
  have "bit (unat a) n" using assms(2) by (simp add: bit_unsigned_iff)
  moreover have "take_bit k (unat a) = unat a" using assms(1) by (simp add: take_bit_nat_eq_self)
  ultimately have "bit (take_bit k (unat a)) n" by simp
  then show False using \<open>\<not> n < k\<close> by (simp add: bit_take_bit_iff)
qed

lemma pte_addr_set:
  assumes "is_page_aligned a" "unat a < 2 ^ 52"
  shows "pte_physical_address (pte_set a f) = a"
  by (rule bit_word_eqI) (auto simp: bit_pte_addr bit_pte_set dest: aligned_bit[OF assms(1)] small_bit[OF assms(2)])

lemma pte_addr_reset [simp]:
  "pte_physical_address (pte_set (pte_physical_address e) f) = pte_physical_address e"
  by (rule bit_word_eqI) (auto simp: bit_pte_addr bit_pte_set)

lemma pte_flags_set: "pte_flags (pte_set a f) = f AND (PF_NoExecute OR 0x1FF)"
  by (rule bit_word_eqI) (auto simp only: bit_pte_flags bit_pte_set bit_and_iff bit_or_iff bit_PF bit_511)

lemma bit_user_upgrade [simp]:
  "pte_is_present e \<Longrightarrow> bit (pte_flags e OR PF_User) 0" "bit (pte_flags e OR PF_User) 7 \<longleftrightarrow> pte_is_huge e"
  by (simp_all only: bit_pte_flags pte_bit_iffs bit_or_iff bit_PF) simp_all

lemma bit_flag_consts [simp]:
  "bit PF_Present 0" "bit (f OR PF_Present) 0" "bit (PF_Present OR f) 0"
  unfolding bit_or_iff bit_PF by simp_all

text \<open>C19.  A page-table entry keeps what is stored in it: the frame address and, for the
  ten architectural flags, the permission bits; nothing else of the flag word leaks into
  the address.\<close>

theorem pte_roundtrip:
  assumes "is_page_aligned paddr" and "unat paddr < 2 ^ 52"
  shows "pte_physical_address (pte_set paddr flags) = paddr
    \<and> pte_flags (pte_set paddr flags) = flags AND (PF_NoExecute OR 0x1FF)"
  using pte_addr_set[OF assms] pte_flags_set by blast

theorem pte_roundtrip_witness:
  "pte_physical_address (pte_set 0x200000 (PF_Present OR PF_Writable)) = 0x200000
    \<and> pte_flags (pte_set 0x200000 (PF_Present OR PF_Writable)) = (PF_Present OR PF_Writable) AND (PF_NoExecute OR 0x1FF)"
  by (rule pte_roundtrip) (simp_all add: is_page_aligned_iff dvd_def)

section \<open>The tree of page tables\<close>

text \<open>\<open>tbl mem 4 root path\<close> is the table reached from the root by the entries of \<open>path\<close>;
  at level 2 a large page ends the path.  The tables of an address space form a tree: no
  table is reached by two paths, and none of them is free memory.\<close>

fun tbl :: "page_mem \<Rightarrow> nat \<Rightarrow> u64 \<Rightarrow> nat list \<Rightarrow> u64 option" where
  "tbl mem d t [] = Some t"
| "tbl mem d t (i # is) =
     (if pte_is_present (mem t i) \<and> \<not> (d = 2 \<and> pte_is_huge (mem t i))
      then tbl mem (d - 1) (pte_physical_address (mem t i)) is else None)"

definition path_ok :: "nat list \<Rightarrow> bool" where
  "path_ok p \<longleftrightarrow> length p \<le> 3 \<and> (\<forall>i\<in>set p. i < 512)"

definition table_tree :: "page_mem \<Rightarrow> u64 \<Rightarrow> bool" where
  "table_tree mem root \<longleftrightarrow> (\<forall>p q a. path_ok p \<longrightarrow> path_ok q \<longrightarrow>
     tbl mem 4 root p = Some a \<longrightarrow> tbl mem 4 root q = Some a \<longrightarrow> p = q)"

definition tables_off :: "page_mem \<Rightarrow> u64 \<Rightarrow> u64 set \<Rightarrow> bool" where
  "tables_off mem root F \<longleftrightarrow> (\<forall>p a. path_ok p \<longrightarrow> tbl mem 4 root p = Some a \<longrightarrow> a \<notin> F)"

definition vm_inv :: "u64 \<Rightarrow> pmm \<times> page_mem \<Rightarrow> bool" where
  "vm_inv root s \<longleftrightarrow> pmm_inv (fst s) \<and> table_tree (snd s) root \<and> tables_off (snd s) root (free_addrs (fst s))
     \<and> (\<forall>a\<in>free_addrs (fst s). is_direct_mapped a)"

lemma tbl_append:
  "tbl mem d t (p @ q) = (case tbl mem d t p of None \<Rightarrow> None | Some t' \<Rightarrow> tbl mem (d - length p) t' q)"
  by (induction p arbitrary: d t) (auto split: option.split)

lemma tbl_snoc:
  "tbl mem d t (p @ [i]) = (case tbl mem d t p of None \<Rightarrow> None
     | Some t' \<Rightarrow> if pte_is_present (mem t' i) \<and> \<not> (d - length p = 2 \<and> pte_is_huge (mem t' i))
                 then Some (pte_physical_address (mem t' i)) else None)"
  by (auto simp: tbl_append split: option.splits)

lemma path_ok_snocD: "path_ok (p @ [i]) \<Longrightarrow> path_ok p"
  by (auto simp: path_ok_def)

lemma path_ok_appendD: "path_ok (p @ q) \<Longrightarrow> path_ok p"
  by (auto simp: path_ok_def)

lemma table_treeD:
  "table_tree mem root \<Longrightarrow> path_ok p \<Longrightarrow> path_ok q \<Longrightarrow> tbl mem 4 root p = Some a \<Longrightarrow>
   tbl mem 4 root q = Some a \<Longrightarrow> p = q"
  unfolding table_tree_def by blast

lemma write_entry_same [simp]: "write_entry mem t i e t i = e"
  by (simp add: write_entry_def)

lemma write_entry_other: "t' \<noteq> t \<or> j \<noteq> i \<Longrightarrow> write_entry mem t i e t' j = mem t' j"
  by (auto simp: write_entry_def)

text \<open>Replacing one entry changes only the paths that run through it.\<close>

lemma tbl_write_other:
  assumes "table_tree mem root" "path_ok p" "tbl mem 4 root p = Some t"
  shows "path_ok q \<Longrightarrow> take (Suc (length p)) q \<noteq> p @ [i] \<Longrightarrow> tbl (write_entry mem t i e) 4 root q = tbl mem 4 root q"
proof (induction q rule: rev_induct)
  case (snoc j q)
  have q: "path_ok q" using snoc.prems(1) by (rule path_ok_snocD)
  have "take (Suc (length p)) q \<noteq> p @ [i]"
  proof
    assume a: "take (Suc (length p)) q = p @ [i]"
    then have "Suc (length p) \<le> length q"
      by (metis length_append_singleton length_take min_def nat_le_linear)
    then show False using a snoc.prems(2) by simp
  qed
  then have IH: "tbl (write_entry mem t i e) 4 root q = tbl mem 4 root q" using snoc.IH[OF q] by blast
  show ?case
  proof (cases "tbl mem 4 root q")
    case None
    then show ?thesis by (simp add: tbl_snoc IH)
  next
    case (Some t')
    have "t' \<noteq> t \<or> j \<noteq> i"
    proof (rule ccontr)
      assume "\<not> ?thesis"
      then have "q = p" "j = i" using table_treeD[OF assms(1) q assms(2)] Some assms(3) by auto
      then show False using snoc.prems(2) by simp
    qed
    then have "write_entry mem t i e t' j = mem t' j" by (rule write_entry_other)
    then show ?thesis by (simp add: tbl_snoc IH Some)
  qed
qed simp

lemma tbl_same_links:
  assumes "\<And>t i. pte_is_present (mem' t i) = pte_is_present (mem t i)"
    "\<And>t i. pte_is_huge (mem' t i) = pte_is_huge (mem t i)"
    "\<And>t i. pte_is_present (mem t i) \<Longrightarrow> pte_physical_address (mem' t i) = pte_physical_address (mem t i)"
  shows "tbl mem' d t p = tbl mem d t p"
  by (induction p arbitrary: d t) (auto simp: assms)

lemma tbl_zero_page:
  assumes "\<And>q. path_ok q \<Longrightarrow> tbl mem 4 root q \<noteq> Some pa"
  shows "path_ok q \<Longrightarrow> tbl (zero_page mem pa) 4 root q = tbl mem 4 root q"
proof (induction q rule: rev_induct)
  case (snoc j q)
  have q: "path_ok q" using snoc.prems by (rule path_ok_snocD)
  have "zero_page mem pa t' j = mem t' j" if "tbl mem 4 root q = Some t'" for t'
    using assms[OF q] that by (auto simp: zero_page_def)
  then show ?case using snoc.IH[OF q] by (auto simp: tbl_snoc split: option.splits)
qed simp

section \<open>Walks and tables\<close>

abbreviation vpath :: "u64 \<Rightarrow> nat list" where
  "vpath va \<equiv> [pml4_index va, pdpt_index va, pd_index va]"

lemma path_ok_vpath: "path_ok (vpath va)" "path_ok [pml4_index va, pdpt_index va]" "path_ok [pml4_index va]" "path_ok []"
  by (auto simp: path_ok_def)

lemma walk_tbl:
  "walk mem root va =
     (case tbl mem 4 root [pml4_index va, pdpt_index va] of None \<Rightarrow> None
      | Some pd \<Rightarrow>
         if pte_is_present (mem pd (pd_index va)) \<and> pte_is_huge (mem pd (pd_index va))
         then Some (mem pd (pd_index va), pte_physical_address (mem pd (pd_index va)) + (va AND 0x1FFFFF))
         else (case tbl mem 4 root (vpath va) of None \<Rightarrow> None
               | Some pt \<Rightarrow> if pte_is_present (mem pt (pt_index va))
                           then Some (mem pt (pt_index va), pte_physical_address (mem pt (pt_index va)) + page_offset va)
                           else None))"
  by (simp add: walk_def Let_def)

lemma walk_leaf_write:
  assumes "table_tree mem root" "tbl mem 4 root (vpath va) = Some pt"
  shows "walk (write_entry mem pt (pt_index va) e) root va' =
     (if vpath va' = vpath va \<and> pt_index va' = pt_index va
      then (if pte_is_present e then Some (e, pte_physical_address e + page_offset va') else None)
      else walk mem root va')"
proof -
  let ?m = "write_entry mem pt (pt_index va) e"
  have same: "tbl ?m 4 root q = tbl mem 4 root q" if "path_ok q" for q
  proof (rule tbl_write_other[OF assms(1) path_ok_vpath(1) assms(2) that])
    have "length q \<le> 3" using that by (simp add: path_ok_def)
    then show "take (Suc (length (vpath va))) q \<noteq> vpath va @ [pt_index va]" by (auto dest: arg_cong[of _ _ length])
  qed
  have pd_other: "?m pd i = mem pd i" if "tbl mem 4 root [pml4_index va', pdpt_index va'] = Some pd" for pd i
  proof -
    have "pd \<noteq> pt"
      using table_treeD[OF assms(1) path_ok_vpath(1)[of va] path_ok_vpath(2)[of va'] assms(2)] that by auto
    then show ?thesis by (simp add: write_entry_def)
  qed
  show ?thesis
  proof (cases "vpath va' = vpath va")
    case True
    obtain pd where pd: "tbl mem 4 root [pml4_index va', pdpt_index va'] = Some pd"
      "\<not> (pte_is_present (mem pd (pd_index va')) \<and> pte_is_huge (mem pd (pd_index va')))"
      using assms(2) True tbl_snoc[of mem 4 root "[pml4_index va', pdpt_index va']" "pd_index va'"]
      by (auto split: option.splits if_splits)
    have p3: "tbl mem 4 root (vpath va') = Some pt" using True assms(2) by simp
    have w: "walk m root va' = (if pte_is_present (m pt (pt_index va'))
        then Some (m pt (pt_index va'), pte_physical_address (m pt (pt_index va')) + page_offset va') else None)"
      if "tbl m 4 root [pml4_index va', pdpt_index va'] = Some pd" "tbl m 4 root (vpath va') = Some pt"
        "m pd (pd_index va') = mem pd (pd_index va')" for m
      unfolding walk_tbl[of m] that(1,2) option.case that(3) if_not_P[OF pd(2)] ..
    have "walk ?m root va' = (if pte_is_present (?m pt (pt_index va'))
        then Some (?m pt (pt_index va'), pte_physical_address (?m pt (pt_index va')) + page_offset va') else None)"
      by (rule w) (simp_all only: same path_ok_vpath pd(1) p3 pd_other[OF pd(1)])
    moreover note w[OF pd(1) p3 refl]
    ultimately show ?thesis using True
      by (cases "pt_index va' = pt_index va") (simp_all add: write_entry_other)
  next
    case False
    have pt_other: "?m pt' (pt_index va') = mem pt' (pt_index va')" if "tbl mem 4 root (vpath va') = Some pt'" for pt'
      using table_treeD[OF assms(1) path_ok_vpath(1)[of va'] path_ok_vpath(1)[of va] that] assms(2) False
      by (auto simp: write_entry_def)
    show ?thesis unfolding walk_tbl[of ?m] walk_tbl[of mem]
      using False pd_other pt_other by (auto simp del: tbl.simps simp: same path_ok_vpath split: option.splits)
  qed
qed

section \<open>One level of a mapping\<close>

lemma walk_same_links:
  assumes "table_tree mem root" "path_ok p" "length p \<le> 2" "tbl mem 4 root p = Some t"
    and e: "pte_is_present (mem t i)" "pte_is_present e" "pte_physical_address e = pte_physical_address (mem t i)"
      "pte_is_huge e = pte_is_huge (mem t i)" and h: "length p = 2 \<Longrightarrow> \<not> pte_is_huge (mem t i)"
  shows "tbl (write_entry mem t i e) 4 root q = tbl mem 4 root q" "walk (write_entry mem t i e) root va = walk mem root va"
proof -
  let ?m = "write_entry mem t i e"
  have link: "pte_is_present (?m t' j) = pte_is_present (mem t' j)" "pte_is_huge (?m t' j) = pte_is_huge (mem t' j)"
    "pte_physical_address (?m t' j) = pte_physical_address (mem t' j)" for t' j
    using e by (cases "t' = t \<and> j = i"; force simp: write_entry_def)+
  show same: "tbl ?m 4 root q = tbl mem 4 root q" for q by (rule tbl_same_links) (simp_all only: link)
  have pt: "?m pt (pt_index va) = mem pt (pt_index va)" if "tbl mem 4 root (vpath va) = Some pt" for pt
  proof -
    have "pt \<noteq> t" using table_treeD[OF assms(1) path_ok_vpath(1) assms(2) that] assms(3,4) by auto
    then show ?thesis by (simp add: write_entry_def)
  qed
  have pd: "?m pd (pd_index va) = mem pd (pd_index va)"
    if "tbl mem 4 root [pml4_index va, pdpt_index va] = Some pd" "pte_is_huge (mem pd (pd_index va))" for pd
  proof (rule write_entry_other, rule ccontr)
    assume "\<not> (pd \<noteq> t \<or> pd_index va \<noteq> i)"
    then have "pd = t" "pd_index va = i" by auto
    then have "p = [pml4_index va, pdpt_index va]"
      using table_treeD[OF assms(1,2) path_ok_vpath(2) assms(4)] that(1) by simp
    then show False using h that(2) \<open>pd = t\<close> \<open>pd_index va = i\<close> by simp
  qed
  show "walk ?m root va = walk mem root va" unfolding walk_tbl[of ?m] walk_tbl[of mem] same link
    using pt pd by (auto simp del: tbl.simps split: option.splits)
qed

lemma new_table:
  assumes tree: "table_tree mem root" and p: "path_ok (p @ [i])" "tbl mem 4 root p = Some t"
    and e: "\<not> pte_is_present (mem t i)" and fr: "\<forall>q. path_ok q \<longrightarrow> tbl mem 4 root q \<noteq> Some pa"
    and e': "pte_is_present e'" "\<not> pte_is_huge e'" "pte_physical_address e' = pa"
  defines "m \<equiv> write_entry (zero_page mem pa) t i e'"
  shows "path_ok q \<Longrightarrow> tbl m 4 root q = (if q = p @ [i] then Some pa else tbl mem 4 root q)"
    and "walk m root va = walk mem root va"
proof -
  let ?z = "zero_page mem pa"
  have fresh: "tbl mem 4 root q \<noteq> Some pa" if "path_ok q" for q using fr that by blast
  have zt: "tbl ?z 4 root q = tbl mem 4 root q" if "path_ok q" for q by (rule tbl_zero_page[OF fresh that])
  have pp: "path_ok p" "length p \<le> 2" using p(1) by (auto simp: path_ok_def)
  have tpa: "t \<noteq> pa" using fresh[OF pp(1)] p(2) by auto
  have ztree: "table_tree ?z root" using tree zt unfolding table_tree_def by metis
  have ztp: "tbl ?z 4 root p = Some t" using zt[OF pp(1)] p(2) by simp
  have old: "tbl mem 4 root (p @ [i] @ r) = None" for r
    using e p(2) by (simp add: tbl_append)
  have other: "tbl m 4 root q = tbl mem 4 root q" if "path_ok q" "take (Suc (length p)) q \<noteq> p @ [i]" for q
    unfolding m_def using tbl_write_other[OF ztree pp(1) ztp that] zt[OF that(1)] by simp
  have mt: "m t i = e'" "m pa j = 0" for j using tpa by (simp_all add: m_def write_entry_def zero_page_def)
  have mp: "tbl m 4 root p = Some t"
    using other[OF pp(1)] p(2) by simp
  have here: "tbl m 4 root (p @ [i]) = Some pa" using mp e' mt(1) by (simp add: tbl_snoc)
  have below: "tbl m 4 root (p @ [i] @ j # r) = None" for j r
    using here tbl_append[of m 4 root "p @ [i]" "j # r"] mt(2) by (simp add: pte_is_present_def)
  show T: "tbl m 4 root q = (if q = p @ [i] then Some pa else tbl mem 4 root q)" if "path_ok q" for q
  proof (cases "take (Suc (length p)) q = p @ [i]")
    case True
    define r where "r = drop (Suc (length p)) q"
    have q: "q = p @ [i] @ r" using True append_take_drop_id[of "Suc (length p)" q] by (simp add: r_def)
    show ?thesis
    proof (cases r)
      case Nil
      then show ?thesis using here q by simp
    next
      case (Cons j r')
      then show ?thesis using below[of j r'] old[of r] q by simp
    qed
  next
    case False
    then show ?thesis using other[OF that] by auto
  qed
  have same_entry: "m a j = mem a j" if "path_ok q" "tbl mem 4 root q = Some a" "a \<noteq> t \<or> j \<noteq> i" for q a j
    using fresh[OF that(1)] that(2,3) by (auto simp: m_def write_entry_def zero_page_def)
  show "walk m root va = walk mem root va"
  proof (cases "take (Suc (length p)) (vpath va) = p @ [i]")
    case True
    have z: "\<not> pte_is_present (m pa j)" for j using mt(2) by (simp add: pte_is_present_def)
    have nt: "a \<noteq> t" if "path_ok q" "tbl mem 4 root q = Some a" "q \<noteq> p" for q a
      using table_treeD[OF tree that(1) pp(1) that(2)] p(2) that(3) by auto
    have len: "length p = 0 \<or> length p = 1 \<or> length p = 2" using pp(2) by linarith
    then show ?thesis
    proof (elim disjE)
      assume "length p = 0"
      then have "p = []" "i = pml4_index va" "t = root" using True p(2) by auto
      then show ?thesis using e e' z mt(1) by (simp add: walk_def)
    next
      assume "length p = 1"
      then have pe: "p = [pml4_index va]" "i = pdpt_index va" using True by (auto simp: length_Suc_conv)
      then have r: "pte_is_present (mem root (pml4_index va))" "pte_physical_address (mem root (pml4_index va)) = t"
        using p(2) by (auto split: if_splits)
      have "m root (pml4_index va) = mem root (pml4_index va)"
        using same_entry[of "[]" root] nt[of "[]" root] pe by (simp add: path_ok_def)
      then show ?thesis using r pe e e' z mt(1) by (simp add: walk_def)
    next
      assume "length p = 2"
      then have pe: "p = [pml4_index va, pdpt_index va]" "i = pd_index va"
        using True by (auto simp: length_Suc_conv numeral_2_eq_2)
      then have r: "pte_is_present (mem root (pml4_index va))"
        "pte_is_present (mem (pte_physical_address (mem root (pml4_index va))) (pdpt_index va))"
        "pte_physical_address (mem (pte_physical_address (mem root (pml4_index va))) (pdpt_index va)) = t"
        using p(2) by (auto split: if_splits)
      have "m root (pml4_index va) = mem root (pml4_index va)"
        using same_entry[of "[]" root] nt[of "[]" root] pe by (simp add: path_ok_def)
      moreover have "m (pte_physical_address (mem root (pml4_index va))) (pdpt_index va)
          = mem (pte_physical_address (mem root (pml4_index va))) (pdpt_index va)"
        using same_entry[of "[pml4_index va]"] nt[of "[pml4_index va]"] pe r(1) path_ok_vpath(3) by simp
      ultimately show ?thesis using r pe e e' z mt(1) by (simp add: walk_def)
    qed
  next
    case False
    have ne: "[pml4_index va, pdpt_index va] \<noteq> p @ [i]" "vpath va \<noteq> p @ [i]"
      using False by (metis append_eq_conv_conj append.simps length_append_singleton take_all_iff le_refl)+
    have pd: "m pd (pd_index va) = mem pd (pd_index va)" if "tbl mem 4 root [pml4_index va, pdpt_index va] = Some pd" for pd
    proof (rule same_entry[OF path_ok_vpath(2) that], rule ccontr)
      assume "\<not> (pd \<noteq> t \<or> pd_index va \<noteq> i)"
      then have "p = [pml4_index va, pdpt_index va]" "i = pd_index va"
        using table_treeD[OF tree path_ok_vpath(2) pp(1) that] p(2) by auto
      then show False using ne(2) by simp
    qed
    have pt: "m pt (pt_index va) = mem pt (pt_index va)" if "tbl mem 4 root (vpath va) = Some pt" for pt
    proof (rule same_entry[OF path_ok_vpath(1) that])
      have "pt \<noteq> t" using table_treeD[OF tree path_ok_vpath(1) pp(1) that] p(2) pp(2) by auto
      then show "pt \<noteq> t \<or> pt_index va \<noteq> i" by simp
    qed
    show ?thesis
      unfolding walk_tbl[of m] walk_tbl[of mem] T[OF path_ok_vpath(1)] T[OF path_ok_vpath(2)] if_not_P[OF ne(1)] if_not_P[OF ne(2)]
      using pd pt by (auto simp del: tbl.simps split: option.splits)
  qed
qed

lemma vm_invD:
  assumes "vm_inv root s"
  shows "pmm_inv (fst s)" "table_tree (snd s) root" "tables_off (snd s) root (free_addrs (fst s))"
    "\<And>a. a \<in> free_addrs (fst s) \<Longrightarrow> is_direct_mapped a"
  using assms by (auto simp: vm_inv_def)

lemma direct_small: "is_direct_mapped a \<Longrightarrow> unat a < 2 ^ 52"
  by (simp add: is_direct_mapped_def word_less_nat_alt)

definition table_flags_ok :: "u64 \<Rightarrow> bool" where
  "table_flags_ok f \<longleftrightarrow> bit f 0 \<and> \<not> bit f 7"

lemma next_table_spec:
  assumes inv: "vm_inv root s" and p: "path_ok (path @ [i])" "tbl (snd s) 4 root path = Some t"
    and h: "length path = 2 \<Longrightarrow> \<not> pte_is_huge (snd s t i)" and tf: "table_flags_ok tf"
    and n: "next_table flags tf t i s = (r, s')"
  shows "vm_inv root s' \<and> (\<forall>va. walk (snd s') root va = walk (snd s) root va)
    \<and> (r = None \<longrightarrow> s' = s) \<and> (\<forall>a. r = Some a \<longrightarrow> tbl (snd s') 4 root (path @ [i]) = Some a)"
proof -
  obtain pm mem where s: "s = (pm, mem)" by (cases s)
  note I = vm_invD[OF inv, unfolded s fst_conv snd_conv]
  have pp: "path_ok path" "length path \<le> 2" using p(1) by (auto simp: path_ok_def)
  have t: "tbl mem 4 root path = Some t" using p(2) s by simp
  consider (new) "\<not> pte_is_present (mem t i)"
    | (upgrade) "pte_is_present (mem t i)" "test_flag flags PF_User \<and> \<not> pte_is_user (mem t i)"
    | (keep) "pte_is_present (mem t i)" "\<not> (test_flag flags PF_User \<and> \<not> pte_is_user (mem t i))" by blast
  then show ?thesis
  proof cases
    case new
    obtain pa pm' mem' where a: "alloc_page (pm, mem) = (pa, pm', mem')" using prod_cases3 by blast
    show ?thesis
    proof (cases "pa = 0")
      case True
      then have "pm' = pm \<and> mem' = mem" using pages.acquire_fail[of "(pm, mem)" "(pm', mem')"] a I(1) by simp
      moreover have "r = None \<and> s' = (pm', mem')" using n new a True s by (simp add: next_table_def Let_def)
      ultimately show ?thesis using inv s by simp
    next
      case False
      note ap = pages.acquire_page[of "(pm, mem)", OF _ a False, unfolded fst_conv, OF I(1)]
      have pa: "pa \<in> free_addrs pm" "free_addrs pm' = free_addrs pm - {pa}" "pmm_inv pm'" using ap by auto
      have dm: "is_direct_mapped pa" by (rule I(4)[OF pa(1)])
      have al: "is_page_aligned pa" using pages.avail_aligned[of "(pm, mem)"] I(1) pa(1) by simp
      have m': "mem' = zero_page mem pa" using alloc_page_spec[OF I(1) a] False dm by auto
      define e' where "e' = pte_set pa tf"
      have e': "pte_is_present e'" "\<not> pte_is_huge e'" "pte_physical_address e' = pa"
        using tf pte_addr_set[OF al direct_small[OF dm]] by (simp_all add: e'_def table_flags_ok_def)
      have rs: "r = Some pa" "s' = (pm', write_entry (zero_page mem pa) t i e')"
        using n new a False s m' e'(3) by (simp_all add: next_table_def Let_def e'_def)
      have fresh: "tbl mem 4 root q \<noteq> Some pa" if "path_ok q" for q
        using I(3) pa(1) that by (auto simp: tables_off_def)
      then have fr: "\<forall>q. path_ok q \<longrightarrow> tbl mem 4 root q \<noteq> Some pa" by blast
      note T = new_table[OF I(2) p(1) t new fr e']
      have "table_tree (snd s') root" unfolding table_tree_def
      proof (intro allI impI)
        fix q1 q2 b assume q: "path_ok q1" "path_ok q2" "tbl (snd s') 4 root q1 = Some b" "tbl (snd s') 4 root q2 = Some b"
        then show "q1 = q2"
          using fresh[OF q(1)] fresh[OF q(2)] table_treeD[OF I(2) q(1,2)]
          by (auto simp: rs(2) T(1) split: if_splits)
      qed
      moreover have "tables_off (snd s') root (free_addrs (fst s'))"
        using I(3) pa(2) by (auto simp: tables_off_def rs(2) T(1))
      moreover have "\<forall>a\<in>free_addrs (fst s'). is_direct_mapped a" using I(4) pa(2) rs(2) by simp
      ultimately have "vm_inv root s'" using pa(3) rs(2) by (simp add: vm_inv_def)
      moreover have "walk (snd s') root va = walk (snd s) root va" for va using T(2) rs(2) s by simp
      ultimately show ?thesis using rs T(1)[OF p(1)] by simp
    qed
  next
    case upgrade
    define e' where "e' = pte_set (pte_physical_address (mem t i)) (pte_flags (mem t i) OR PF_User)"
    have e': "pte_is_present e'" "pte_physical_address e' = pte_physical_address (mem t i)"
      "pte_is_huge e' = pte_is_huge (mem t i)"
      using upgrade(1) by (simp_all add: e'_def)
    have rs: "r = Some (pte_physical_address (mem t i))" "s' = (pm, write_entry mem t i e')"
      using n upgrade s by (auto simp: next_table_def Let_def e'_def)
    have "length path = 2 \<Longrightarrow> \<not> pte_is_huge (mem t i)" using h s by simp
    note W = walk_same_links[OF I(2) pp t upgrade(1) e' this]
    have "tbl mem 4 root (path @ [i]) = Some (pte_physical_address (mem t i))"
      using t upgrade(1) h s pp(2) by (auto simp: tbl_snoc)
    moreover have "vm_inv root s'"
      using I W(1) rs(2) by (simp add: vm_inv_def table_tree_def tables_off_def)
    ultimately show ?thesis using rs W s by simp
  next
    case keep
    have rs: "r = Some (pte_physical_address (mem t i))" "s' = s"
      using n keep s by (auto simp: next_table_def Let_def)
    have "tbl mem 4 root (path @ [i]) = Some (pte_physical_address (mem t i))"
      using t keep(1) h s pp(2) by (auto simp: tbl_snoc)
    then show ?thesis using rs s inv by simp
  qed
qed

section \<open>Mapping and unmapping\<close>

lemma same_page_indices:
  assumes "va div PAGE_SIZE = va' div PAGE_SIZE"
  shows "vpath va = vpath va' \<and> pt_index va = pt_index va'"
proof -
  have "unat va div 4096 = unat va' div 4096" using assms by (metis unat_PAGE_SIZE unat_div_distrib)
  moreover have "unat x div 2 ^ 39 = unat x div 4096 div 2 ^ 27" "unat x div 2 ^ 30 = unat x div 4096 div 2 ^ 18"
    "unat x div 2 ^ 21 = unat x div 4096 div 2 ^ 9" for x :: u64
    by (simp_all add: div_mult2_eq[symmetric])
  ultimately show ?thesis by (simp add: table_index_unat)
qed

lemma page_base:
  shows "unat (w - page_offset w) = 4096 * (unat w div 4096)"
    and "(w - page_offset w) div PAGE_SIZE = w div PAGE_SIZE"
    and "page_offset (w - page_offset w) = 0"
    and "is_canonical w \<Longrightarrow> is_canonical (w - page_offset w)"
proof -
  have "unat (w - page_offset w) = unat w - unat w mod 4096"
    by (simp add: unat_sub word_le_nat_alt unat_page_offset)
  then show d: "unat (w - page_offset w) = 4096 * (unat w div 4096)"
    by (simp add: minus_mod_eq_mult_div)
  show "(w - page_offset w) div PAGE_SIZE = w div PAGE_SIZE"
    by (simp add: word_unat_eq_iff unat_div_distrib d)
  show "page_offset (w - page_offset w) = 0"
    by (simp add: word_unat_eq_iff unat_page_offset d)
  show "is_canonical (w - page_offset w)" if "is_canonical w"
  proof -
    have le: "4096 * (unat w div 4096) \<le> unat w" by simp
    have "2 ^ 64 - 2 ^ 47 \<le> 4096 * (unat w div 4096)" if "2 ^ 64 - 2 ^ 47 \<le> unat w"
      using div_le_mono[OF that, of 4096] by simp
    with le \<open>is_canonical w\<close> show ?thesis unfolding is_canonical_iff d by linarith
  qed
qed

lemma indices_same_page:
  assumes "is_canonical va" "is_canonical va'" "vpath va = vpath va'" "pt_index va = pt_index va'"
  shows "va div PAGE_SIZE = va' div PAGE_SIZE"
proof -
  note si = same_page_indices[OF page_base(2)]
  have "(va - page_offset va) = (va' - page_offset va')"
    by (rule canonical_indices_inject)
      (use si[of va] si[of va'] assms page_base(3,4) in simp_all)
  then show ?thesis by (metis page_base(2))
qed

lemma same_page_iff:
  "is_canonical va \<Longrightarrow> is_canonical va' \<Longrightarrow>
     vpath va' = vpath va \<and> pt_index va' = pt_index va \<longleftrightarrow> va' div PAGE_SIZE = va div PAGE_SIZE"
  using indices_same_page same_page_indices by metis

lemma leaf_table_spec:
  assumes inv: "vm_inv root s" and tfo: "table_flags_ok tf" and m: "leaf_table flags tf root va s = (r, s')"
  shows "vm_inv root s' \<and> (\<forall>va'. walk (snd s') root va' = walk (snd s) root va')
    \<and> (\<forall>pt. r = Inr pt \<longrightarrow> tbl (snd s') 4 root (vpath va) = Some pt) \<and> r \<noteq> Inl Success"
proof -
  note [simp del] = tbl.simps
  obtain r1 s1 where n1: "next_table flags tf root (pml4_index va) s = (r1, s1)" by (meson surj_pair)
  have p1: "path_ok ([] @ [pml4_index va])" "tbl (snd s) 4 root [] = Some root" by (simp_all add: path_ok_def tbl.simps)
  note L1 = next_table_spec[OF inv p1 _ tfo n1, simplified]
  show ?thesis
  proof (cases r1)
    case None
    then show ?thesis using m n1 L1 by (auto simp: leaf_table_def)
  next
    case r1: (Some pdpt)
    obtain r2 s2 where n2: "next_table flags tf pdpt (pdpt_index va) s1 = (r2, s2)" by (meson surj_pair)
    have i1: "vm_inv root s1" "tbl (snd s1) 4 root [pml4_index va] = Some pdpt" using L1 r1 by (auto)
    have p2: "path_ok ([pml4_index va] @ [pdpt_index va])" using path_ok_vpath(2) by simp
    note L2 = next_table_spec[OF i1(1) p2 i1(2) _ tfo n2, simplified]
    show ?thesis
    proof (cases "\<exists>pd. r2 = Some pd \<and> \<not> pte_is_huge (snd s2 pd (pd_index va))")
      case False
      then have "(r = Inl OutOfMemory \<or> r = Inl HugePageCollision) \<and> s' = s2"
        using m n1 n2 r1 by (auto simp: leaf_table_def split: option.splits)
      then show ?thesis using L1 L2 by (auto)
    next
      case True
      then obtain pd where r2: "r2 = Some pd" "\<not> pte_is_huge (snd s2 pd (pd_index va))" by blast
      obtain r3 s3 where n3: "next_table flags tf pd (pd_index va) s2 = (r3, s3)" by (meson surj_pair)
      have i2: "vm_inv root s2" "tbl (snd s2) 4 root [pml4_index va, pdpt_index va] = Some pd" using L2 r2 by (auto)
      have p3: "path_ok ([pml4_index va, pdpt_index va] @ [pd_index va])" using path_ok_vpath(1) by simp
      note L3 = next_table_spec[OF i2(1) p3 i2(2) r2(2) tfo n3]
      have "r = (case r3 of None \<Rightarrow> Inl OutOfMemory | Some pt \<Rightarrow> Inr pt) \<and> s' = s3"
        using m n1 n2 n3 r1 r2 by (auto simp: leaf_table_def split: option.splits)
      then show ?thesis using L1 L2 L3 by (auto split: option.splits)
    qed
  qed
qed

lemma walk_absent:
  assumes "tbl mem 4 root (vpath va) = Some pt" "\<not> pte_is_present (mem pt (pt_index va))"
  shows "walk mem root va = None"
proof -
  obtain pd where "tbl mem 4 root [pml4_index va, pdpt_index va] = Some pd"
    "\<not> (pte_is_present (mem pd (pd_index va)) \<and> pte_is_huge (mem pd (pd_index va)))"
    using assms(1) tbl_snoc[of mem 4 root "[pml4_index va, pdpt_index va]" "pd_index va"]
    by (auto split: option.splits if_splits)
  then show ?thesis using assms unfolding walk_tbl by (auto simp del: tbl.simps)
qed

lemma vm_inv_leaf_write:
  assumes "vm_inv root s" "tbl (snd s) 4 root (vpath va) = Some pt"
  shows "vm_inv root (fst s, write_entry (snd s) pt (pt_index va) e)"
proof -
  note I = vm_invD[OF assms(1)]
  have "tbl (write_entry (snd s) pt (pt_index va) e) 4 root q = tbl (snd s) 4 root q" if "path_ok q" for q
  proof (rule tbl_write_other[OF I(2) path_ok_vpath(1) assms(2) that])
    have "length q \<le> 3" using that by (simp add: path_ok_def)
    then show "take (Suc (length (vpath va))) q \<noteq> vpath va @ [pt_index va]" by (auto dest: arg_cong[of _ _ length])
  qed
  then show ?thesis using I unfolding vm_inv_def table_tree_def tables_off_def by auto
qed

lemma map_page_in_table_spec:
  assumes inv: "vm_inv root s" and root: "root = (if pml4_pa = 0 then the (m_root_pml4 v) else pml4_pa)"
    and m: "map_page_in_table v s pml4_pa va pa flags = (st, s')"
  defines "e \<equiv> pte_set pa (flags OR PF_Present)"
  shows "vm_inv root s'
    \<and> (st \<noteq> Success \<longrightarrow> (\<forall>va'. walk (snd s') root va' = walk (snd s) root va'))
    \<and> (st = Success \<longrightarrow> walk (snd s) root va = None \<and> is_canonical va \<and> is_page_aligned va \<and> is_page_aligned pa
        \<and> (\<forall>va'. walk (snd s') root va' =
             (if vpath va' = vpath va \<and> pt_index va' = pt_index va
              then Some (e, pte_physical_address e + page_offset va') else walk (snd s) root va')))"
proof (cases "\<not> m_vmm_initialized v \<or> \<not> is_canonical va \<or> \<not> is_page_aligned va \<or> \<not> is_page_aligned pa")
  case True
  then have "st \<noteq> Success \<and> s' = s" using m by (auto simp: map_page_in_table_def split: if_splits)
  then show ?thesis using inv by simp
next
  case False
  define tf where "tf = (if test_flag flags PF_User then PF_Present OR PF_Writable OR PF_User else PF_Present OR PF_Writable)"
  have tfo: "table_flags_ok tf" unfolding tf_def table_flags_ok_def by (auto simp only: bit_or_iff bit_PF split: if_splits)
  obtain r s1 where l: "leaf_table flags tf root va s = (r, s1)" by (meson surj_pair)
  note L = leaf_table_spec[OF inv tfo l]
  have m': "(st, s') = (case r of Inl st \<Rightarrow> (st, s1) | Inr pt \<Rightarrow>
      if pte_is_present (snd s1 pt (pt_index va)) then (AlreadyMapped, s1)
      else (Success, fst s1, write_entry (snd s1) pt (pt_index va) e))"
    using m False l root unfolding map_page_in_table_def Let_def tf_def[symmetric] e_def by (auto split: sum.splits)
  show ?thesis
  proof (cases "\<exists>pt. r = Inr pt \<and> \<not> pte_is_present (snd s1 pt (pt_index va))")
    case True
    then obtain pt where r: "r = Inr pt" "\<not> pte_is_present (snd s1 pt (pt_index va))" by blast
    have t: "tbl (snd s1) 4 root (vpath va) = Some pt" and i: "vm_inv root s1" using L r by (auto simp del: tbl.simps)
    have rs: "st = Success" "s' = (fst s1, write_entry (snd s1) pt (pt_index va) e)" using m' r by auto
    have p: "pte_is_present e" by (simp add: e_def)
    have w: "walk (snd s1) root va' = walk (snd s) root va'" for va' using L by blast
    show ?thesis
      using rs vm_inv_leaf_write[OF i t] walk_leaf_write[OF vm_invD(2)[OF i] t] walk_absent[OF t r(2)] p False
      unfolding w by simp
  next
    case nm: False
    then have "st \<noteq> Success \<and> s' = s1" using m' L by (auto split: sum.splits if_splits)
    then show ?thesis using L by simp
  qed
qed

lemma low_page: "a AND NOT 0xFFF = a - page_offset a" for a :: u64
  using and_not_mask_minus[of a 12] by (simp add: page_offset_def low_mask_12 take_bit_eq_mask)

lemma page_plus_offset:
  assumes "is_page_aligned pa" "unat off < 4096"
  shows "page_offset (pa + off) = off" "(pa + off) AND NOT 0xFFF = pa" "unat (pa + off) = unat pa + unat off"
proof -
  have a: "4096 dvd unat pa" using assms(1) by (simp add: is_page_aligned_iff)
  then have "unat pa \<le> 2 ^ 64 - 4096" using unat_below[of pa] by (auto elim!: dvdE)
  then show u: "unat (pa + off) = unat pa + unat off" using assms(2) by (subst unat_add_nowrap) simp_all
  show o: "page_offset (pa + off) = off"
    using a assms(2) by (simp add: word_unat_eq_iff unat_page_offset u mod_add_eq[symmetric] dvd_imp_mod_0)
  show "(pa + off) AND NOT 0xFFF = pa" unfolding low_page o by simp
qed

lemma cr3_aligned:
  assumes "is_page_aligned r"
  shows "r AND NOT 0xFFF = r"
  unfolding low_mask_12
  by (auto simp: bit_eq_iff bit_and_iff bit_not_iff bit_mask_iff dest: aligned_bit[OF assms])

lemma translate_root:
  assumes "m_vmm_initialized v" "hw_cr3 v = root" "root \<noteq> 0" "is_page_aligned root"
  shows "translate v mem va = (if is_canonical va then map_option (\<lambda>(e, pa). (pa, pte_flags e)) (walk mem root va) else None)"
  using assms cr3_aligned[of root] by (simp add: translate_def Let_def split: option.split)

lemma unmap_page_spec:
  assumes "m_root_pml4 v = Some root" "unmap_page v mem va = (st, mem')"
  shows "if st = Success
    then is_canonical va \<and> (\<exists>pt. tbl mem 4 root (vpath va) = Some pt \<and> pte_is_present (mem pt (pt_index va))
           \<and> mem' = write_entry mem pt (pt_index va) 0)
    else mem' = mem"
  using assms by (auto simp: unmap_page_def Let_def split: if_splits)

section \<open>An example address space\<close>

definition example_vmm :: vmm where
  "example_vmm = \<lparr>m_root_pml4_paddr = 0x2000, m_root_pml4 = Some 0x2000, m_vmm_initialized = True, hw_cr3 = 0x2000\<rparr>"

lemma empty_vm_inv:
  assumes "pmm_inv p" "root \<notin> free_addrs p" "\<forall>a\<in>free_addrs p. is_direct_mapped a"
  shows "vm_inv root (p, \<lambda>_ _. 0)"
proof -
  have "tbl (\<lambda>_ _. 0) 4 root q = (if q = [] then Some root else None)" for q
    by (cases q) (simp_all add: pte_is_present_def)
  then show ?thesis using assms by (auto simp: vm_inv_def table_tree_def tables_off_def split: if_splits)
qed

lemma example_free_addrs: "free_addrs example_pmm = {0x3000, 0x4000, 0x5000, 0x6000, 0x7000}"
  by (simp add: free_addrs_def example_free_set frame_addr_def PAGE_SIZE_def)

lemma example_vm_inv: "vm_inv 0x2000 (example_pmm, \<lambda>_ _. 0)"
  by (rule empty_vm_inv) (simp_all add: example_pmm_inv example_free_addrs is_direct_mapped_def)

definition example_mapping :: "vmm_status \<times> pmm \<times> page_mem" where
  "example_mapping = map_page_in_table example_vmm (example_pmm, \<lambda>_ _. 0) 0x2000 0x400000 0x9000 (PF_Writable OR PF_User)"

lemma example_mapped: "example_mapping = (Success, snd example_mapping)"
proof -
  have "fst example_mapping = Success" by code_simp
  then show ?thesis by (metis prod.collapse)
qed

lemmas example_vmm_facts = example_vmm_def is_page_aligned_iff is_canonical_iff

lemma map_translate:
  assumes "m_vmm_initialized v" "hw_cr3 v = root" "root \<noteq> 0" "is_page_aligned root"
    and "vm_inv root s" "unat pa < 2 ^ 52"
    and "map_page_in_table v s root va pa flags = (Success, s')"
  shows "vm_inv root s' \<and> translate v (snd s) va = None
    \<and> (\<forall>va'. translate v (snd s') va' =
         (if is_canonical va' \<and> va' div PAGE_SIZE = va div PAGE_SIZE
          then Some (pa + page_offset va', (flags OR PF_Present) AND (PF_NoExecute OR 0x1FF))
          else translate v (snd s) va'))"
proof -
  have r: "root = (if root = 0 then the (m_root_pml4 v) else root)" using assms(3) by simp
  note M = map_page_in_table_spec[OF assms(5) r assms(7), simplified]
  have ca: "is_canonical va" "is_page_aligned pa" using M by auto
  have a: "pte_physical_address (pte_set pa (flags OR PF_Present)) = pa"
    using pte_addr_set ca(2) assms(6) by blast
  note t = translate_root[OF assms(1-4)]
  have "translate v (snd s') va' =
         (if is_canonical va' \<and> va' div PAGE_SIZE = va div PAGE_SIZE
          then Some (pa + page_offset va', (flags OR PF_Present) AND (PF_NoExecute OR 0x1FF))
          else translate v (snd s) va')" for va'
    using M same_page_iff[OF ca(1), of va'] by (auto simp: t a pte_flags_set)
  then show ?thesis using M by (simp add: t)
qed

text \<open>C14.  A successful mapping is exact, in an address space whose tables form a tree
  of allocated pages, with all free pages below 2 GiB (\<open>vm_inv\<close>): the page was not mapped before, every address of
  the page now translates to the corresponding address of the frame with the requested
  flags, the translation of every other address is unchanged, and the tables still form a
  tree of allocated pages.\<close>

theorem map_page_translate:
  assumes "m_vmm_initialized v" "hw_cr3 v = root" "root \<noteq> 0" "is_page_aligned root"
    and "vm_inv root s" "unat pa < 2 ^ 52"
    and "map_page_in_table v s root va pa flags = (Success, s')"
  shows "vm_inv root s' \<and> translate v (snd s) va = None
    \<and> (\<forall>va'. translate v (snd s') va' =
         (if is_canonical va' \<and> va' div PAGE_SIZE = va div PAGE_SIZE
          then Some (pa + page_offset va', (flags OR PF_Present) AND (PF_NoExecute OR 0x1FF))
          else translate v (snd s) va'))"
  by (rule map_translate[OF assms])

theorem map_page_translate_witness:
  "vm_inv 0x2000 (snd example_mapping)
    \<and> translate example_vmm (snd (snd example_mapping)) 0x400123 = Some (0x9123, 7)
    \<and> translate example_vmm (snd (snd example_mapping)) 0x401000 = None"
proof -
  note m = map_page_translate[OF _ _ _ _ example_vm_inv _ example_mapped[unfolded example_mapping_def],
      folded example_mapping_def]
  have "((PF_Writable OR PF_User) OR PF_Present) AND (PF_NoExecute OR 0x1FF) = 7"
    "(0x400123 :: u64) div PAGE_SIZE = 0x400000 div PAGE_SIZE" "(0x401000 :: u64) div PAGE_SIZE \<noteq> 0x400000 div PAGE_SIZE"
    "page_offset 0x400123 = 0x123" "translate example_vmm (\<lambda>_ _. 0) 0x401000 = None" by code_simp+
  then show ?thesis using m by (simp add: example_vmm_facts)
qed

text \<open>C15.  A successful \<open>unmap_page\<close> removes exactly one page: its addresses translate to
  nothing, every other address keeps its translation; a failed call changes nothing.\<close>

theorem unmap_page_translate:
  assumes "m_vmm_initialized v" "hw_cr3 v = root" "root \<noteq> 0" "is_page_aligned root"
    and "m_root_pml4 v = Some root" "vm_inv root (p, mem)"
    and "unmap_page v mem va = (st, mem')"
  shows "vm_inv root (p, mem') \<and> (st \<noteq> Success \<longrightarrow> mem' = mem) \<and> (st = Success \<longrightarrow> is_mapped v mem va
    \<and> (\<forall>va'. translate v mem' va' =
        (if is_canonical va' \<and> va' div PAGE_SIZE = va div PAGE_SIZE then None else translate v mem va')))"
proof (cases "st = Success")
  case False
  then show ?thesis using unmap_page_spec[OF assms(5,7)] assms(6) by simp
next
  case True
  then obtain pt where u: "is_canonical va" "tbl mem 4 root (vpath va) = Some pt"
      "pte_is_present (mem pt (pt_index va))" "mem' = write_entry mem pt (pt_index va) 0"
    using unmap_page_spec[OF assms(5,7)] by auto
  note t = translate_root[OF assms(1-4)]
  have w: "walk mem' root va' = (if vpath va' = vpath va \<and> pt_index va' = pt_index va then None else walk mem root va')" for va'
    using walk_leaf_write[OF _ u(2), of 0 va'] vm_invD(2)[OF assms(6)] unfolding u(4) by (simp add: pte_is_present_def)
  have "walk mem root va \<noteq> None" using u(2,3) by (auto simp: walk_def Let_def split: if_splits)
  moreover have "vm_inv root (p, mem')" using vm_inv_leaf_write[OF assms(6), of va pt 0] u by simp
  ultimately show ?thesis
    using True u(1) same_page_iff[OF u(1)] by (auto simp: t w is_mapped_def)
qed

theorem unmap_page_translate_witness:
  "\<exists>mem'. unmap_page example_vmm (snd (snd example_mapping)) 0x400000 = (Success, mem')
    \<and> vm_inv 0x2000 (fst (snd example_mapping), mem') \<and> translate example_vmm mem' 0x400123 = None"
proof -
  have u: "fst (unmap_page example_vmm (snd (snd example_mapping)) 0x400000) = Success" by code_simp
  obtain mem' where u': "unmap_page example_vmm (snd (snd example_mapping)) 0x400000 = (Success, mem')"
    using u by (metis prod.collapse)
  have "vm_inv 0x2000 (snd example_mapping)"
    using map_page_in_table_spec[OF example_vm_inv _ example_mapped[unfolded example_mapping_def]]
    by (simp add: example_mapping_def)
  then have i: "vm_inv 0x2000 (fst (snd example_mapping), snd (snd example_mapping))" by simp
  have "(0x400123 :: u64) div PAGE_SIZE = 0x400000 div PAGE_SIZE" by code_simp
  then show ?thesis using unmap_page_translate[OF _ _ _ _ _ i u'] u'
    by (simp add: example_vmm_facts)
qed

end
