(* ===== verification/Vmm_Boot.thy ===== *)
theory Vmm_Boot
  imports Vmm
begin

text \<open>The kernel address space that \<open>VirtualMemoryManager::init\<close> builds
  (\<open>src/kernel/memory/vmm.cpp\<close>): the contents of the five boot tables, the translation they
  give to every address, and the address spaces of user processes derived from them.\<close>

unbundle bit_operations_syntax

section \<open>The kernel address space built by init\<close>

lemma fold_write:
  "fold (\<lambda>i m. write_entry m t i (g i)) [a..<b] mem =
     mem(t := (\<lambda>i. if a \<le> i \<and> i < b then g i else mem t i))"
proof (cases "a \<le> b")
  case True
  then show ?thesis
  proof (induction b rule: dec_induct)
    case (step n)
    then show ?case by (auto simp: write_entry_def fun_eq_iff)
  qed (auto simp: fun_eq_iff)
qed (auto simp: fun_eq_iff)


lemma alloc_zeroed:
  assumes "pmm_inv p" "\<forall>a\<in>free_addrs p. is_direct_mapped a" "alloc_page (p, mem) = (a, p', mem')" "a \<noteq> 0"
  shows "pmm_inv p'" "a \<in> free_addrs p" "free_addrs p' = free_addrs p - {a}" "is_page_aligned a"
    "mem' = mem(a := (\<lambda>_. 0))" "\<forall>a\<in>free_addrs p'. is_direct_mapped a"
proof -
  have q: "pmm_inv p'" "a \<in> free_addrs p" "free_addrs p' = free_addrs p - {a}"
    using pages.acquire_page[of "(p, mem)" a "(p', mem')"] assms by auto
  then show "pmm_inv p'" "a \<in> free_addrs p" "free_addrs p' = free_addrs p - {a}" by auto
  show "is_page_aligned a" using pages.avail_aligned[of "(p, mem)" a] assms(1) q(2) by simp
  show "mem' = mem(a := (\<lambda>_. 0))"
    using alloc_page_spec[OF assms(1,3)] assms(2,4) q(2) by (auto simp: zero_page_def fun_eq_iff)
  show "\<forall>a\<in>free_addrs p'. is_direct_mapped a" using assms(2) q(3) by blast
qed


























section \<open>User address spaces\<close>

text \<open>Writes to pages that are no tables of an address space change none of its walks.\<close>

lemma tbl_agree:
  assumes "\<forall>q a. path_ok q \<longrightarrow> tbl mem 4 root q = Some a \<longrightarrow> mem' a = mem a"
  shows "path_ok q \<Longrightarrow> tbl mem' 4 root q = tbl mem 4 root q"
proof (induction q rule: rev_induct)
  case (snoc j q)
  have q: "path_ok q" using snoc.prems by (rule path_ok_snocD)
  then have "mem' t' = mem t'" if "tbl mem 4 root q = Some t'" for t' using assms that by blast
  then show ?case using snoc.IH[OF q] by (auto simp: tbl_snoc split: option.splits)
qed simp

lemma walk_agree:
  assumes a: "\<forall>q a. path_ok q \<longrightarrow> tbl mem 4 root q = Some a \<longrightarrow> mem' a = mem a"
  shows "walk mem' root va = walk mem root va"
proof -
  note t = tbl_agree[OF a]
  have "mem' pd = mem pd" if "tbl mem 4 root [pml4_index va, pdpt_index va] = Some pd" for pd
    using a path_ok_vpath(2) that by blast
  moreover have "mem' pt = mem pt" if "tbl mem 4 root (vpath va) = Some pt" for pt
    using a path_ok_vpath(1) that by blast
  ultimately show ?thesis
    unfolding walk_tbl t[OF path_ok_vpath(1)] t[OF path_ok_vpath(2)]
    by (cases "tbl mem 4 root [pml4_index va, pdpt_index va]"; cases "tbl mem 4 root (vpath va)")
      (simp_all del: tbl.simps)
qed

lemma tbl_other_page:
  assumes off: "\<forall>q. path_ok q \<longrightarrow> tbl mem 4 root q \<noteq> Some pa"
  shows "path_ok q \<Longrightarrow> tbl (mem(pa := f)) 4 root q = tbl mem 4 root q"
  by (rule tbl_agree) (use off in auto)

definition user_root :: "page_mem \<Rightarrow> u64 \<Rightarrow> nat \<Rightarrow> u64" where
  "user_root mem root = (\<lambda>i. if 256 \<le> i \<and> i < 512 then mem root i else 0)"

lemma fold_copy:
  assumes "a \<noteq> root"
  shows "fold (\<lambda>i m. write_entry m a i (m root i)) [x..<y] mem =
     mem(a := (\<lambda>i. if x \<le> i \<and> i < y then mem root i else mem a i))"
proof (cases "x \<le> y")
  case True
  then show ?thesis
  proof (induction y rule: dec_induct)
    case (step n)
    then show ?case using assms by (auto simp: write_entry_def fun_eq_iff)
  qed (auto simp: fun_eq_iff)
qed (auto simp: fun_eq_iff)

lemma create_user_spec:
  assumes inv: "vm_inv root (p, mem)" and v: "m_root_pml4 v = Some root" "m_vmm_initialized v"
    and c: "create_user_address_space v (p, mem) = (a, p', mem')" "a \<noteq> 0"
  shows "a \<in> free_addrs p" "free_addrs p' = free_addrs p - {a}" "mem' = mem(a := user_root mem root)"
    "alloc_page (p, mem) = (a, p', mem(a := (\<lambda>_. 0)))" "pmm_inv p'"
proof -
  note I = vm_invD[OF inv, simplified]
  obtain a1 p1 mem1 where al: "alloc_page (p, mem) = (a1, p1, mem1)" by (meson prod_cases3)
  define copied where "copied a m = fold (\<lambda>i m. write_entry m a i (m root i)) [256..<512]
    (fold (\<lambda>i m. write_entry m a i 0) [0..<256] m)" for a m
  have "(a, p', mem') = (if a1 = 0 then (0, p1, mem1) else (a1, p1, copied a1 mem1))"
    using c(1) unfolding create_user_address_space_def v(1) option.case split_conv Let_def al copied_def[symmetric]
    by (simp add: v(2))
  then have a1: "a1 = a" "p1 = p'" "a1 \<noteq> 0" "mem' = copied a mem1" using c(2) by (auto split: if_splits)
  note z = alloc_zeroed[OF I(1) _ al a1(3), unfolded a1(1,2)]
  have z': "pmm_inv p'" "a \<in> free_addrs p" "free_addrs p' = free_addrs p - {a}" "mem1 = mem(a := (\<lambda>_. 0))"
    using z I(4) by blast+
  have r: "a \<noteq> root" using I(3)[unfolded tables_off_def, rule_format, of "[]" root] path_ok_vpath(4) z'(2) by auto
  show "mem' = mem(a := user_root mem root)"
    unfolding a1(4) copied_def fold_write fold_copy[OF r] z'(4) using r by (auto simp: user_root_def fun_eq_iff)
  show "a \<in> free_addrs p" "free_addrs p' = free_addrs p - {a}" "pmm_inv p'"
    "alloc_page (p, mem) = (a, p', mem(a := (\<lambda>_. 0)))" using z' al a1(1,2) by simp_all
qed

lemma walk_other_page:
  assumes off: "\<forall>q. path_ok q \<longrightarrow> tbl mem 4 root q \<noteq> Some pa"
  shows "walk (mem(pa := f)) root va = walk mem root va"
  by (rule walk_agree) (use off in auto)

lemma user_half:
  assumes "is_canonical va"
  shows "va < 0x800000000000 \<longleftrightarrow> pml4_index va < 256"
proof -
  define r where "r = unat va div 2 ^ 39"
  have i: "pml4_index va = r mod 512" by (simp add: table_index_unat r_def)
  have c: "unat va < 2 ^ 47 \<or> 2 ^ 64 - 2 ^ 47 \<le> unat va" using assms is_canonical_iff by simp
  show ?thesis
  proof (cases "unat va < 2 ^ 47")
    case True
    then have "r < 256" by (simp add: r_def less_mult_imp_div_less)
    then show ?thesis using True i by (simp add: word_less_nat_alt)
  next
    case False
    have "r < 2 ^ 25" using unat_below[of va] by (simp add: r_def less_mult_imp_div_less)
    moreover have "2 ^ 25 - 2 ^ 8 \<le> r" using False c div_le_mono[of "2 ^ 64 - 2 ^ 47" "unat va" "2 ^ 39"] by (simp add: r_def)
    ultimately have "r div 512 = 65535" by (intro div_nat_eqI) auto
    then have "256 \<le> r mod 512" using div_mult_mod_eq[of r 512] \<open>2 ^ 25 - 2 ^ 8 \<le> r\<close> by simp
    then show ?thesis using False i by (simp add: word_less_nat_alt)
  qed
qed

lemma user_root_walk:
  assumes "a \<noteq> root"
  shows "walk (mem(a := user_root mem root)) a va =
    (if pml4_index va < 256 then None else walk (mem(a := user_root mem root)) root va)"
  using assms by (simp add: walk_def Let_def user_root_def pte_is_present_def)

lemma user_root_tbl:
  assumes "a \<noteq> root" "path_ok (i # q)"
  shows "tbl (mem(a := user_root mem root)) 4 a (i # q) =
    (if i < 256 then None else tbl (mem(a := user_root mem root)) 4 root (i # q))"
  using assms by (auto simp: user_root_def pte_is_present_def path_ok_def)

lemma user_root_inv:
  assumes inv: "vm_inv root (p, mem)" and a: "a \<in> free_addrs p"
    and p': "pmm_inv p'" "free_addrs p' = free_addrs p - {a}"
  defines "m \<equiv> mem(a := user_root mem root)"
  shows "vm_inv root (p', m)" "vm_inv a (p', m)" "walk m root va = walk mem root va" "a \<noteq> root"
proof -
  note I = vm_invD[OF inv, simplified]
  have off: "\<forall>q. path_ok q \<longrightarrow> tbl mem 4 root q \<noteq> Some a" using I(3) a unfolding tables_off_def by blast
  show r: "a \<noteq> root" using off[rule_format, of "[]"] path_ok_vpath(4) by auto
  have t: "tbl m 4 root q = tbl mem 4 root q" if "path_ok q" for q unfolding m_def by (rule tbl_other_page[OF off that])
  show "walk m root va = walk mem root va" unfolding m_def by (rule walk_other_page[OF off])
  show "vm_inv root (p', m)" using I p' t unfolding vm_inv_def table_tree_def tables_off_def by auto
  have ta: "tbl m 4 a q = (if q = [] then Some a else if hd q < 256 then None else tbl mem 4 root q)" if "path_ok q" for q
    using that t[OF that] user_root_tbl[OF r, of "hd q" "tl q" mem] by (cases q) (auto simp: m_def simp del: tbl.simps(2))
  have tab: "(q = [] \<and> b = a) \<or> (q \<noteq> [] \<and> b \<noteq> a \<and> tbl mem 4 root q = Some b)" if "path_ok q" "tbl m 4 a q = Some b" for q b
    using ta[OF that(1)] that off by (auto split: if_splits)
  have "table_tree m a" unfolding table_tree_def
    using tab I(2)[unfolded table_tree_def] by blast
  moreover have "tables_off m a (free_addrs p')" unfolding tables_off_def
    using tab I(3)[unfolded tables_off_def] p'(2) by blast
  ultimately show "vm_inv a (p', m)" using p' I(4) by (auto simp: vm_inv_def)
qed

lemma example_create:
  "\<exists>p' mem'. create_user_address_space example_vmm (example_pmm, \<lambda>_ _. 0) = (0x3000, p', mem')"
proof -
  have "fst (alloc_page (example_pmm, \<lambda>_ _. 0)) = 0x3000" by code_simp
  then obtain p' mem' where a: "alloc_page (example_pmm, \<lambda>_ _. 0) = (0x3000, p', mem')" by (metis prod.collapse)
  have v: "m_root_pml4 example_vmm = Some 0x2000" "m_vmm_initialized example_vmm" by (simp_all add: example_vmm_def)
  show ?thesis unfolding create_user_address_space_def split_conv v(1) option.case a Let_def
    using v(2) by (simp del: upt_rec_numeral upt.simps)
qed

text \<open>C17.  A new user address space is isolated: its lower half maps nothing, its upper half
  is the kernel's, the kernel's own translations do not change, and both roots keep the
  table invariant.\<close>

theorem user_space_isolated:
  assumes "vm_inv root (p, mem)" "m_root_pml4 v = Some root" "m_vmm_initialized v" "root \<noteq> 0" "is_page_aligned root"
    and "create_user_address_space v (p, mem) = (a, p', mem')" "a \<noteq> 0"
  shows "vm_inv root (p', mem') \<and> vm_inv a (p', mem') \<and>
    (\<forall>va. translate (v\<lparr>hw_cr3 := root\<rparr>) mem' va = translate (v\<lparr>hw_cr3 := root\<rparr>) mem va
      \<and> translate (v\<lparr>hw_cr3 := a\<rparr>) mem' va =
         (if va < 0x800000000000 then None else translate (v\<lparr>hw_cr3 := root\<rparr>) mem va))"
proof -
  note C = create_user_spec[OF assms(1-3,6,7)]
  note U = user_root_inv[OF assms(1) C(1,5,2), folded C(3)]
  have "is_page_aligned a" using pages.avail_aligned[of "(p, mem)" a] C(1) assms(1) by (simp add: vm_inv_def)
  then have t: "translate (v\<lparr>hw_cr3 := r\<rparr>) m va =
      (if is_canonical va then map_option (\<lambda>(e, pa). (pa, pte_flags e)) (walk m r va) else None)"
    if "r \<in> {root, a}" for r m va
    using that assms(3-5,7) by (intro translate_root) auto
  have "walk mem' a va = (if pml4_index va < 256 then None else walk mem root va)" for va
    using user_root_walk[OF U(4), of mem va] U(3) unfolding C(3)[symmetric] by simp
  then show ?thesis using U(1-3) user_half by (auto simp: t)
qed

theorem user_space_isolated_witness:
  "\<exists>p' mem'. create_user_address_space example_vmm (example_pmm, \<lambda>_ _. 0) = (0x3000, p', mem')
    \<and> vm_inv 0x3000 (p', mem') \<and> translate (example_vmm\<lparr>hw_cr3 := 0x3000\<rparr>) mem' 0x400000 = None"
proof -
  obtain p' mem' where c: "create_user_address_space example_vmm (example_pmm, \<lambda>_ _. 0) = (0x3000, p', mem')"
    using example_create by blast
  show ?thesis using c user_space_isolated[OF example_vm_inv _ _ _ _ c] by (simp add: example_vmm_facts)
qed

lemma fold_noop:
  assumes "\<forall>i\<in>set is. f i s = s"
  shows "fold f is s = s"
  using assms by (induction "is") simp_all

text \<open>C18.  Destroying an address space right after creating it returns its root page: the
  free pages are those from before the creation, and no other page's contents change.\<close>

theorem create_destroy:
  assumes "vm_inv root (p, mem)" "m_root_pml4 v = Some root" "m_root_pml4_paddr v = root" "m_vmm_initialized v"
    and "create_user_address_space v (p, mem) = (a, p', mem')" "a \<noteq> 0"
    and "destroy_user_address_space v a (p', mem') = (p'', mem'')"
  shows "free_addrs p'' = free_addrs p \<and> pmm_inv p'' \<and> (\<forall>b. b \<noteq> a \<longrightarrow> mem'' b = mem b)"
proof -
  note C = create_user_spec[OF assms(1,2,4-6)]
  note U = user_root_inv[OF assms(1) C(1,5,2), folded C(3)]
  obtain q where q: "free_page p' a = (True, q)" "free_addrs q = free_addrs p" "pmm_inv q"
    using alloc_then_free[OF _ C(4) assms(6)] assms(1) by (auto simp: vm_inv_def)
  let ?step = "\<lambda>i (p, mem). if pte_is_present (mem a i)
      then let (p', mem') = release_pdpt (pte_physical_address (mem a i)) (p, mem)
           in (snd (free_page p' (pte_physical_address (mem' a i))), mem')
      else (p, mem)"
  have "?step i (p', mem') = (p', mem')" if "i \<in> set [0..<256]" for i
    using that unfolding C(3) by (simp add: user_root_def pte_is_present_def)
  then have "fold ?step [0..<256] (p', mem') = (p', mem')" by (intro fold_noop) blast
  then have "p'' = q \<and> mem'' = mem'"
    using assms(7) q(1) U(4) assms(3,6) unfolding destroy_user_address_space_def by (simp del: upt.simps upt_rec_numeral)
  then show ?thesis using q C(3) by simp
qed

theorem create_destroy_witness:
  "\<exists>p' mem' p'' mem''. create_user_address_space example_vmm (example_pmm, \<lambda>_ _. 0) = (0x3000, p', mem')
    \<and> destroy_user_address_space example_vmm 0x3000 (p', mem') = (p'', mem'') \<and> free_addrs p'' = free_addrs example_pmm"
proof -
  obtain p' mem' where c: "create_user_address_space example_vmm (example_pmm, \<lambda>_ _. 0) = (0x3000, p', mem')"
    using example_create by blast
  obtain p'' mem'' where d: "destroy_user_address_space example_vmm 0x3000 (p', mem') = (p'', mem'')" by (meson surj_pair)
  show ?thesis using c d create_destroy[OF example_vm_inv _ _ _ c _ d] by (simp add: example_vmm_def)
qed

end
