(* ===== verification/Threads.thy ===== *)
theory Threads
  imports Vmm Bounded_Fifo
begin

text \<open>
  Threads and the scheduler's ready queue: the thread control block and its context
  (\<open>src/kernel/threading/thread_types.hpp\<close>, \<open>thread.hpp\<close>, \<open>thread.cpp\<close>) and the bounded
  queue of \<open>ready_queue.hpp\<close>.  A pointer to a thread is its index in the scheduler's pool;
  the queue reads the state of a thread through the pool, so its operations take the pool
  as an argument.
\<close>

unbundle bit_operations_syntax

section \<open>Thread control blocks\<close>

datatype thread_state = TS_Created | TS_Ready | TS_Running | TS_Blocked | TS_Terminated | TS_Idle

datatype thread_priority = TP_Idle | TP_Low | TP_Normal | TP_High | TP_Realtime

definition INVALID_THREAD_ID :: u32 where "INVALID_THREAD_ID = 0"
definition BOOTSTRAP_THREAD_ID :: u32 where "BOOTSTRAP_THREAD_ID = 1"
definition IDLE_THREAD_ID :: u32 where "IDLE_THREAD_ID = 2"
definition DEFAULT_TIMESLICE_TICKS :: u64 where "DEFAULT_TIMESLICE_TICKS = 2"
definition THREAD_NAME_MAX_LEN :: nat where "THREAD_NAME_MAX_LEN = 32"

record thread_context =
  c_r15 :: u64
  c_r14 :: u64
  c_r13 :: u64
  c_r12 :: u64
  c_rbp :: u64
  c_rbx :: u64
  c_rflags :: u64
  c_rsp :: u64
  c_rip :: u64

record stack_info =
  guard_page :: u64
  stack_bottom :: u64
  stack_top :: u64
  physical_base :: u64
  usable_bytes :: u64
  page_count :: u64
  slot_index :: int

record tcb =
  t_id :: u32
  t_name :: string
  t_state :: thread_state
  t_priority :: thread_priority
  t_context :: thread_context
  t_stack :: stack_info
  t_entry :: u64
  t_argument :: u64
  ticks_allocated :: u64
  ticks_consumed :: u64
  timeslice_ticks :: u64
  switch_count :: u64
  preemption_count :: u64
  voluntary_yield_count :: u64
  is_idle :: bool
  is_bootstrap :: bool
  t_active :: bool
  t_cr3 :: u64

definition empty_context :: thread_context where
  "empty_context = \<lparr>c_r15 = 0, c_r14 = 0, c_r13 = 0, c_r12 = 0, c_rbp = 0, c_rbx = 0,
     c_rflags = 0x202, c_rsp = 0, c_rip = 0\<rparr>"

definition empty_stack :: stack_info where
  "empty_stack = \<lparr>guard_page = 0, stack_bottom = 0, stack_top = 0, physical_base = 0,
     usable_bytes = 0, page_count = 0, slot_index = -1\<rparr>"

definition empty_tcb :: tcb where
  "empty_tcb = \<lparr>t_id = INVALID_THREAD_ID, t_name = '''', t_state = TS_Created, t_priority = TP_Normal,
     t_context = empty_context, t_stack = empty_stack, t_entry = 0, t_argument = 0,
     ticks_allocated = 0, ticks_consumed = 0, timeslice_ticks = DEFAULT_TIMESLICE_TICKS,
     switch_count = 0, preemption_count = 0, voluntary_yield_count = 0,
     is_idle = False, is_bootstrap = False, t_active = False, t_cr3 = 0\<rparr>"

definition init_thread_context :: "tcb \<Rightarrow> u64 \<Rightarrow> u64 \<Rightarrow> u64 \<Rightarrow> tcb" where
  "init_thread_context t entry argument trampoline_addr =
     t\<lparr>t_entry := entry, t_argument := argument,
       t_context := \<lparr>c_r15 = 0, c_r14 = 0, c_r13 = argument, c_r12 = entry, c_rbp = 0, c_rbx = 0,
         c_rflags = 0x202, c_rsp = stack_top (t_stack t) AND NOT 0xF, c_rip = trampoline_addr\<rparr>\<rparr>"

type_synonym tcb_pool = "tcb list"

section \<open>The ready queue\<close>

definition RQ_CAPACITY :: nat where "RQ_CAPACITY = 64"

record ready_queue =
  rq_entries :: "nat option list"
  rq_head :: nat
  rq_tail :: nat
  rq_count :: nat

definition rq_clear :: ready_queue where
  "rq_clear = \<lparr>rq_entries = replicate RQ_CAPACITY None, rq_head = 0, rq_tail = 0, rq_count = 0\<rparr>"

definition rq_is_empty :: "ready_queue \<Rightarrow> bool" where "rq_is_empty q = (rq_count q = 0)"
definition rq_is_full :: "ready_queue \<Rightarrow> bool" where "rq_is_full q = (rq_count q \<ge> RQ_CAPACITY)"

text \<open>The loops of \<open>contains\<close> and \<open>remove\<close> walk the ring: \<open>rq_find t es idx n i\<close> is the pair
  of loop counter and ring index at which \<open>t\<close> is found.\<close>

fun rq_find :: "nat \<Rightarrow> nat option list \<Rightarrow> nat \<Rightarrow> nat \<Rightarrow> nat \<Rightarrow> (nat \<times> nat) option" where
  "rq_find t es idx 0 i = None"
| "rq_find t es idx (Suc n) i =
     (if es ! idx = Some t then Some (i, idx) else rq_find t es ((idx + 1) mod RQ_CAPACITY) n (Suc i))"

definition rq_contains :: "ready_queue \<Rightarrow> nat option \<Rightarrow> bool" where
  "rq_contains q thread =
     (case thread of None \<Rightarrow> False
      | Some t \<Rightarrow> \<not> rq_is_empty q \<and> rq_find t (rq_entries q) (rq_head q) (rq_count q) 0 \<noteq> None)"

definition rq_enqueue :: "tcb_pool \<Rightarrow> nat option \<Rightarrow> ready_queue \<Rightarrow> bool \<times> ready_queue" where
  "rq_enqueue pool thread q =
     (case thread of None \<Rightarrow> (False, q)
      | Some t \<Rightarrow>
         if t_state (pool ! t) \<noteq> TS_Ready then (False, q)
         else if rq_is_full q then (False, q)
         else if rq_contains q thread then (False, q)
         else (True, q\<lparr>rq_entries := (rq_entries q)[rq_tail q := Some t],
                       rq_tail := (rq_tail q + 1) mod RQ_CAPACITY, rq_count := rq_count q + 1\<rparr>))"

definition rq_dequeue :: "ready_queue \<Rightarrow> nat option \<times> ready_queue" where
  "rq_dequeue q =
     (if rq_is_empty q then (None, q)
      else (rq_entries q ! rq_head q,
            q\<lparr>rq_entries := (rq_entries q)[rq_head q := None],
              rq_head := (rq_head q + 1) mod RQ_CAPACITY, rq_count := rq_count q - 1\<rparr>))"

fun rq_shift :: "nat option list \<Rightarrow> nat \<Rightarrow> nat \<Rightarrow> nat option list" where
  "rq_shift es cur 0 = es"
| "rq_shift es cur (Suc n) =
     (let next_pos = (cur + 1) mod RQ_CAPACITY
      in rq_shift (es[cur := es ! next_pos]) next_pos n)"

definition rq_remove :: "nat option \<Rightarrow> ready_queue \<Rightarrow> bool \<times> ready_queue" where
  "rq_remove thread q =
     (case thread of None \<Rightarrow> (False, q)
      | Some t \<Rightarrow>
         if rq_is_empty q then (False, q)
         else case rq_find t (rq_entries q) (rq_head q) (rq_count q) 0 of
             None \<Rightarrow> (False, q)
           | Some (i, idx) \<Rightarrow>
               let es = rq_shift (rq_entries q) idx (rq_count q - 1 - i);
                   tail = (if rq_tail q = 0 then RQ_CAPACITY - 1 else rq_tail q - 1)
               in (True, q\<lparr>rq_entries := es[tail := None], rq_tail := tail, rq_count := rq_count q - 1\<rparr>))"

fun rq_dup :: "nat option \<Rightarrow> nat option list \<Rightarrow> nat \<Rightarrow> nat \<Rightarrow> bool" where
  "rq_dup e es idx 0 = False"
| "rq_dup e es idx (Suc n) = (es ! idx = e \<or> rq_dup e es ((idx + 1) mod RQ_CAPACITY) n)"

fun rq_check :: "tcb_pool \<Rightarrow> nat option list \<Rightarrow> nat \<Rightarrow> nat \<Rightarrow> bool" where
  "rq_check pool es idx 0 = True"
| "rq_check pool es idx (Suc n) =
     (case es ! idx of None \<Rightarrow> False
      | Some t \<Rightarrow>
          t_state (pool ! t) = TS_Ready \<and> \<not> is_idle (pool ! t)
          \<and> \<not> rq_dup (es ! idx) es ((idx + 1) mod RQ_CAPACITY) n
          \<and> rq_check pool es ((idx + 1) mod RQ_CAPACITY) n)"

definition rq_verify_invariants :: "tcb_pool \<Rightarrow> ready_queue \<Rightarrow> bool" where
  "rq_verify_invariants pool q =
     (rq_count q \<le> RQ_CAPACITY \<and> (rq_head q + rq_count q) mod RQ_CAPACITY = rq_tail q
      \<and> rq_check pool (rq_entries q) (rq_head q) (rq_count q))"

section \<open>The queue as a list\<close>

definition rq_items :: "ready_queue \<Rightarrow> nat list" where
  "rq_items q = map the (ring_list (rq_entries q) (rq_head q) (rq_count q))"

definition rq_inv :: "ready_queue \<Rightarrow> bool" where
  "rq_inv q \<longleftrightarrow> length (rq_entries q) = RQ_CAPACITY \<and> rq_head q < RQ_CAPACITY \<and> rq_count q \<le> RQ_CAPACITY
     \<and> rq_tail q = (rq_head q + rq_count q) mod RQ_CAPACITY
     \<and> ring_list (rq_entries q) (rq_head q) (rq_count q) = map Some (rq_items q) \<and> distinct (rq_items q)"

lemma rq_invD:
  assumes "rq_inv q"
  shows "length (rq_entries q) = RQ_CAPACITY" "rq_head q < RQ_CAPACITY" "rq_count q \<le> RQ_CAPACITY"
    "rq_tail q = (rq_head q + rq_count q) mod RQ_CAPACITY"
    "ring_list (rq_entries q) (rq_head q) (rq_count q) = map Some (rq_items q)" "distinct (rq_items q)"
  using assms by (auto simp: rq_inv_def)

lemma length_rq_items [simp]: "length (rq_items q) = rq_count q"
  by (simp add: rq_items_def)

lemma rq_count_0: "rq_count q = 0 \<longleftrightarrow> rq_items q = []"
  by (metis length_0_conv length_rq_items)

lemma rq_inv_items:
  "length (rq_entries q) = RQ_CAPACITY \<Longrightarrow> rq_head q < RQ_CAPACITY \<Longrightarrow>
   rq_tail q = (rq_head q + rq_count q) mod RQ_CAPACITY \<Longrightarrow> rq_count q \<le> RQ_CAPACITY \<Longrightarrow>
   ring_list (rq_entries q) (rq_head q) (rq_count q) = map Some xs \<Longrightarrow> distinct xs \<Longrightarrow>
   rq_inv q \<and> rq_items q = xs"
  by (simp add: rq_inv_def rq_items_def o_def)

lemma rq_find_ring:
  assumes "length es = RQ_CAPACITY"
  shows "rq_find t es (idx mod RQ_CAPACITY) n i =
    (if Some t \<in> set (ring_list es idx n)
     then Some (i + length (takeWhile (\<lambda>x. x \<noteq> Some t) (ring_list es idx n)),
                (idx + length (takeWhile (\<lambda>x. x \<noteq> Some t) (ring_list es idx n))) mod RQ_CAPACITY)
     else None)"
proof (induction n arbitrary: idx i)
  case (Suc n)
  have "(idx mod RQ_CAPACITY + 1) mod RQ_CAPACITY = Suc idx mod RQ_CAPACITY" by (simp add: mod_Suc_eq)
  then show ?case using Suc.IH[of "Suc idx" "Suc i"] assms by (simp add: ring_list_Suc)
qed simp

lemma rq_contains_iff:
  assumes "rq_inv q"
  shows "rq_contains q (Some t) \<longleftrightarrow> t \<in> set (rq_items q)"
proof -
  note D = rq_invD[OF assms]
  have "rq_find t (rq_entries q) (rq_head q mod RQ_CAPACITY) (rq_count q) 0 \<noteq> None \<longleftrightarrow> Some t \<in> set (map Some (rq_items q))"
    by (simp add: rq_find_ring[OF D(1)] D(5))
  then show ?thesis using D(2) by (auto simp: rq_contains_def rq_is_empty_def rq_count_0)
qed

lemma rq_enqueue_spec:
  assumes "rq_inv q" "rq_enqueue pool (Some t) q = (b, q')"
  shows "rq_inv q' \<and> (b \<longleftrightarrow> (t_state (pool ! t) = TS_Ready \<and> t \<notin> set (rq_items q)) \<and> length (rq_items q) < RQ_CAPACITY)
    \<and> rq_items q' = rq_items q @ (if b then [t] else [])"
proof (cases "t_state (pool ! t) = TS_Ready \<and> t \<notin> set (rq_items q) \<and> rq_count q < RQ_CAPACITY")
  case False
  then show ?thesis using assms by (auto simp: rq_enqueue_def rq_contains_iff rq_is_full_def split: if_splits)
next
  case True
  note D = rq_invD[OF assms(1)]
  define q1 where "q1 = q\<lparr>rq_entries := (rq_entries q)[rq_tail q := Some t],
      rq_tail := (rq_tail q + 1) mod RQ_CAPACITY, rq_count := rq_count q + 1\<rparr>"
  have e: "b" "q' = q1" using assms True by (auto simp: rq_enqueue_def rq_contains_iff rq_is_full_def q1_def)
  have "ring_list (rq_entries q1) (rq_head q) (Suc (rq_count q)) = map Some (rq_items q) @ [Some t]"
    using ring_list_append[of "rq_count q" "rq_entries q" "rq_head q" "Some t"] True D(1,4,5) by (simp add: q1_def)
  then have "rq_inv q1 \<and> rq_items q1 = rq_items q @ [t]"
    using D True by (intro rq_inv_items) (simp_all add: q1_def mod_Suc_eq)
  then show ?thesis using e True by simp
qed

lemma rq_dequeue_empty: "rq_inv q \<Longrightarrow> rq_items q = [] \<Longrightarrow> rq_dequeue q = (None, q)"
  by (simp add: rq_dequeue_def rq_is_empty_def rq_count_0)

lemma rq_dequeue_head:
  assumes "rq_inv q" "rq_items q = t # ts"
  shows "\<exists>q'. rq_dequeue q = (Some t, q') \<and> rq_inv q' \<and> rq_items q' = ts"
proof -
  note D = rq_invD[OF assms(1)]
  obtain n where n: "rq_count q = Suc n" using assms(2) length_rq_items[of q] by (cases "rq_count q") auto
  define q1 where "q1 = q\<lparr>rq_entries := (rq_entries q)[rq_head q := None],
      rq_head := (rq_head q + 1) mod RQ_CAPACITY, rq_count := n\<rparr>"
  have r: "rq_entries q ! rq_head q = Some t" "ring_list (rq_entries q) (Suc (rq_head q)) n = map Some ts"
    using D(1,2,5) n assms(2) by (simp_all add: ring_list_Suc)
  have "(Suc (rq_head q) + (RQ_CAPACITY - 1)) mod RQ_CAPACITY = rq_head q" using D(2) by simp
  moreover have "RQ_CAPACITY - 1 < length (rq_entries q)" "n \<le> RQ_CAPACITY - 1" using D(1,2,3) n by simp_all
  ultimately have "ring_list ((rq_entries q)[rq_head q := None]) (Suc (rq_head q)) n = map Some ts"
    using ring_list_update_outside[of n "RQ_CAPACITY - 1" "rq_entries q" "Suc (rq_head q)" None] D(1) r(2) by simp
  moreover have "ring_list (rq_entries q1) (rq_head q1) n = ring_list (rq_entries q1) (Suc (rq_head q)) n"
    using ring_list_mod[of "rq_entries q1" "Suc (rq_head q)" n] D(1) by (simp add: q1_def)
  ultimately have "rq_inv q1 \<and> rq_items q1 = ts"
    using D n assms(2) by (intro rq_inv_items) (simp_all add: q1_def mod_add_left_eq)
  moreover have "rq_dequeue q = (Some t, q1)" using n r(1) by (simp add: rq_dequeue_def rq_is_empty_def q1_def)
  ultimately show ?thesis by blast
qed

interpretation rq: bounded_fifo rq_inv rq_items RQ_CAPACITY
  "\<lambda>t q. t_state (pool ! t) = TS_Ready \<and> t \<notin> set (rq_items q)" "\<lambda>t. rq_enqueue pool (Some t)" rq_dequeue for pool
  by unfold_locales (use rq_enqueue_spec rq_dequeue_empty rq_dequeue_head rq_invD(3) in simp_all)

lemma length_rq_shift [simp]: "length (rq_shift es cur n) = length es"
  by (induction es cur n rule: rq_shift.induct) (simp_all add: Let_def)

lemma rq_shift_nth:
  assumes "length es = RQ_CAPACITY" "k + m < c" "c \<le> RQ_CAPACITY" "i < c"
  shows "ring_list (rq_shift es ((h + k) mod RQ_CAPACITY) m) h c ! i =
    (if k \<le> i \<and> i < k + m then ring_list es h c ! Suc i else ring_list es h c ! i)"
  using assms
proof (induction m arbitrary: es k)
  case (Suc m)
  let ?cur = "(h + k) mod RQ_CAPACITY" and ?next = "(h + Suc k) mod RQ_CAPACITY"
  define es' where "es' = es[?cur := es ! ?next]"
  have n: "(?cur + 1) mod RQ_CAPACITY = ?next" by (simp add: mod_Suc_eq)
  have r: "ring_list es' h c = (ring_list es h c)[k := ring_list es h c ! Suc k]"
    using ring_list_update_inside[of k c es h "es ! ?next"] Suc.prems
    by (simp add: es'_def ring_list_nth)
  have "ring_list (rq_shift es' ?next m) h c ! i =
      (if Suc k \<le> i \<and> i < Suc k + m then ring_list es' h c ! Suc i else ring_list es' h c ! i)"
    using Suc.prems by (intro Suc.IH) (simp_all add: es'_def)
  moreover have "rq_shift es ?cur (Suc m) = rq_shift es' ?next m"
    unfolding rq_shift.simps(2) n Let_def es'_def ..
  ultimately show ?case using Suc.prems unfolding r by (auto simp: nth_list_update)
qed auto

lemma remove1_first:
  assumes "t \<in> set xs"
  defines "k \<equiv> length (takeWhile (\<lambda>x. x \<noteq> t) xs)"
  shows "remove1 t xs = map (\<lambda>i. if k \<le> i then xs ! Suc i else xs ! i) [0..<length xs - 1]" "k < length xs"
proof -
  show k: "k < length xs" using assms(1) unfolding k_def by (induction xs) auto
  have "remove1 t xs = take k xs @ drop (Suc k) xs"
    using assms(1) unfolding k_def by (induction xs) (auto simp: drop_Cons split: nat.splits)
  also have "\<dots> = map (\<lambda>i. if k \<le> i then xs ! Suc i else xs ! i) [0..<length xs - 1]"
    using k by (intro nth_equalityI) (auto simp: nth_append)
  finally show "remove1 t xs = map (\<lambda>i. if k \<le> i then xs ! Suc i else xs ! i) [0..<length xs - 1]" .
qed

lemma rq_tail_back:
  assumes "0 < c"
  shows "(if (h + c) mod RQ_CAPACITY = 0 then RQ_CAPACITY - 1 else (h + c) mod RQ_CAPACITY - 1) = (h + (c - 1)) mod RQ_CAPACITY"
proof -
  have "h + c = Suc (h + (c - 1))" using assms by simp
  then show ?thesis by (simp only: mod_Suc) (simp add: RQ_CAPACITY_def)
qed

lemma takeWhile_Some: "takeWhile (\<lambda>x. x \<noteq> Some t) (map Some xs) = map Some (takeWhile (\<lambda>x. x \<noteq> t) xs)"
  by (simp add: takeWhile_map o_def)

lemma rq_remove_spec:
  assumes "rq_inv q" "rq_remove (Some t) q = (b, q')"
  shows "rq_inv q' \<and> (b \<longleftrightarrow> t \<in> set (rq_items q)) \<and> rq_items q' = remove1 t (rq_items q)"
proof (cases "t \<in> set (rq_items q)")
  case False
  then have "rq_find t (rq_entries q) (rq_head q) (rq_count q) 0 = None"
    using rq_contains_iff[OF assms(1), of t]
    by (cases "rq_find t (rq_entries q) (rq_head q) (rq_count q) 0") (auto simp: rq_contains_def rq_is_empty_def)
  then show ?thesis using assms False by (auto simp: rq_remove_def remove1_idem split: if_splits)
next
  case True
  note D = rq_invD[OF assms(1)]
  define k where "k = length (takeWhile (\<lambda>x. x \<noteq> t) (rq_items q))"
  define c where "c = rq_count q"
  note R = remove1_first[OF True, folded k_def, simplified, folded c_def]
  have "rq_find t (rq_entries q) (rq_head q mod RQ_CAPACITY) c 0 = Some (k, (rq_head q + k) mod RQ_CAPACITY)"
    using True by (simp add: rq_find_ring[OF D(1)] D(5) takeWhile_Some k_def c_def)
  then have f: "rq_find t (rq_entries q) (rq_head q) c 0 = Some (k, (rq_head q + k) mod RQ_CAPACITY)" using D(2) by simp
  define es where "es = rq_shift (rq_entries q) ((rq_head q + k) mod RQ_CAPACITY) (c - 1 - k)"
  define tail where "tail = (rq_head q + (c - 1)) mod RQ_CAPACITY"
  have tl: "(if rq_tail q = 0 then RQ_CAPACITY - 1 else rq_tail q - 1) = tail"
    unfolding tail_def D(4) c_def[symmetric] by (rule rq_tail_back) (use R(2) in simp)
  define q1 where "q1 = q\<lparr>rq_entries := es[tail := None], rq_tail := tail, rq_count := c - 1\<rparr>"
  have e: "b" "q' = q1"
    using assms(2) f R(2) unfolding rq_remove_def option.case c_def[symmetric] tl
    by (auto simp: rq_is_empty_def c_def[symmetric] Let_def es_def tl q1_def)
  have "ring_list (rq_entries q1) (rq_head q) (c - 1) = ring_list es (rq_head q) (c - 1)"
    using ring_list_update_outside[of "c - 1" "c - 1" es "rq_head q" None] R(2) D(1,3)
    by (simp add: q1_def tail_def es_def c_def)
  also have "\<dots> = map Some (remove1 t (rq_items q))"
  proof (rule nth_equalityI)
    fix i assume "i < length (ring_list es (rq_head q) (c - 1))"
    then have i: "i < c - 1" by simp
    have s: "ring_list es (rq_head q) c ! i = (if k \<le> i \<and> i < k + (c - 1 - k)
        then map Some (rq_items q) ! Suc i else map Some (rq_items q) ! i)"
      unfolding es_def D(5)[symmetric] c_def[symmetric] using R(2) D(1,3) i by (intro rq_shift_nth) (simp_all add: c_def)
    moreover have "ring_list es (rq_head q) (c - 1) ! i = ring_list es (rq_head q) c ! i" using i by (simp add: ring_list_nth)
    ultimately show "ring_list es (rq_head q) (c - 1) ! i = map Some (remove1 t (rq_items q)) ! i"
      using i R(2) by (auto simp: R(1) c_def)
  qed (simp add: R(1))
  finally have "rq_inv q1 \<and> rq_items q1 = remove1 t (rq_items q)"
    using D by (intro rq_inv_items) (simp_all add: q1_def es_def tail_def c_def)
  then show ?thesis using e True by simp
qed

lemma rq_dup_ring:
  assumes "length es = RQ_CAPACITY"
  shows "rq_dup e es (idx mod RQ_CAPACITY) n \<longleftrightarrow> e \<in> set (ring_list es idx n)"
proof (induction n arbitrary: idx)
  case (Suc n)
  have "(idx mod RQ_CAPACITY + 1) mod RQ_CAPACITY = Suc idx mod RQ_CAPACITY" by (simp add: mod_Suc_eq)
  then show ?case using Suc.IH[of "Suc idx"] assms by (auto simp: ring_list_Suc)
qed simp

lemma rq_check_ring:
  assumes "length es = RQ_CAPACITY"
  shows "rq_check pool es (idx mod RQ_CAPACITY) n \<longleftrightarrow> distinct (ring_list es idx n) \<and>
    (\<forall>x\<in>set (ring_list es idx n). \<exists>t. x = Some t \<and> t_state (pool ! t) = TS_Ready \<and> \<not> is_idle (pool ! t))"
proof (induction n arbitrary: idx)
  case (Suc n)
  have "(idx mod RQ_CAPACITY + 1) mod RQ_CAPACITY = Suc idx mod RQ_CAPACITY" by (simp add: mod_Suc_eq)
  then show ?case using Suc.IH[of "Suc idx"] assms
    by (auto simp: ring_list_Suc rq_dup_ring[OF assms] split: option.splits)
qed simp

lemma rq_verify_iff:
  assumes "rq_inv q"
  shows "rq_verify_invariants pool q \<longleftrightarrow> (\<forall>t\<in>set (rq_items q). t_state (pool ! t) = TS_Ready \<and> \<not> is_idle (pool ! t))"
proof -
  note D = rq_invD[OF assms]
  have "rq_check pool (rq_entries q) (rq_head q mod RQ_CAPACITY) (rq_count q) \<longleftrightarrow>
      (\<forall>t\<in>set (rq_items q). t_state (pool ! t) = TS_Ready \<and> \<not> is_idle (pool ! t))"
    by (auto simp: rq_check_ring[OF D(1)] D(5) D(6) distinct_map)
  then show ?thesis using D(2-4) by (simp add: rq_verify_invariants_def)
qed

lemma rq_clear_inv [simp]: "rq_inv rq_clear" "rq_items rq_clear = []"
  by (simp_all add: rq_inv_def rq_clear_def rq_items_def RQ_CAPACITY_def)

text \<open>C20.  The ready queue is first-in first-out: starting empty, after any sequence of
  enqueue and dequeue calls the threads accepted are exactly those delivered followed by
  those still queued, in order; at most 64 are queued and none twice.\<close>

theorem ready_queue_fifo:
  assumes "run_fifo (\<lambda>t. rq_enqueue pool (Some t)) rq_dequeue ops rq_clear = (accepted, delivered, q)"
  shows "accepted = delivered @ rq_items q \<and> length (rq_items q) \<le> 64 \<and> distinct (rq_items q)
    \<and> (\<forall>t. rq_contains q (Some t) \<longleftrightarrow> t \<in> set (rq_items q))"
proof -
  have "rq_inv q" "accepted = delivered @ rq_items q" using rq.fifo_order[OF rq_clear_inv(1) assms] by simp_all
  then show ?thesis using rq_invD(3,6)[of q] rq_contains_iff[of q] by (simp add: RQ_CAPACITY_def)
qed

theorem ready_queue_fifo_witness:
  "\<exists>q. run_fifo (\<lambda>t. rq_enqueue (replicate 64 (empty_tcb\<lparr>t_state := TS_Ready\<rparr>)) (Some t)) rq_dequeue
      [Push 5, Push 6, Push 5, Pop, Push 5] rq_clear = ([5, 6, 5], [5], q)
    \<and> rq_items q = [6, 5] \<and> rq_contains q (Some 6)"
proof -
  let ?r = "run_fifo (\<lambda>t. rq_enqueue (replicate 64 (empty_tcb\<lparr>t_state := TS_Ready\<rparr>)) (Some t)) rq_dequeue
      [Push 5, Push 6, Push 5, Pop, Push 5] rq_clear"
  have e: "fst ?r = [5, 6, 5]" "fst (snd ?r) = [5]" by code_simp+
  obtain q where r: "?r = ([5, 6, 5], [5], q)" using e by (metis prod.collapse)
  have i: "rq_items q = [6, 5]" "rq_contains q (Some 6) = (6 \<in> set (rq_items q))"
    using ready_queue_fifo[OF r] by (simp_all del: run_fifo.simps)
  show ?thesis by (rule exI[of _ q]) (use r i in \<open>simp del: run_fifo.simps\<close>)
qed

end
