(* ===== verification/Stack_Allocator.thy ===== *)
theory Stack_Allocator
  imports Vmm_Boot Threads
begin

text \<open>
  Kernel thread stacks (\<open>src/kernel/threading/stack_allocator.hpp\<close> and \<open>.cpp\<close>): 64 slots of
  one unmapped guard page and four mapped pages each, backed by a contiguous run of frames.
  The allocator works on the physical memory manager and the page tables; the lemmas show
  that a new stack is mapped exactly, that its guard page stays unmapped, and that slots
  never overlap.
\<close>

unbundle bit_operations_syntax

definition STACK_USABLE_PAGES :: u64 where "STACK_USABLE_PAGES = 4"
definition GUARD_PAGES :: u64 where "GUARD_PAGES = 1"
definition PAGES_PER_SLOT :: u64 where "PAGES_PER_SLOT = GUARD_PAGES + STACK_USABLE_PAGES"
definition SLOT_SIZE_BYTES :: u64 where "SLOT_SIZE_BYTES = PAGES_PER_SLOT * PAGE_SIZE"
definition MAX_STACK_SLOTS :: nat where "MAX_STACK_SLOTS = 64"
definition THREAD_STACK_BASE_VIRT :: u64 where "THREAD_STACK_BASE_VIRT = 0xFFFFFFFF72000000"

record stack_allocator =
  s_slot_in_use :: "bool list"
  s_pages_allocated :: u64
  s_pages_reclaimed :: u64
  s_initialized :: bool

definition stack_allocator_init :: stack_allocator where
  "stack_allocator_init = \<lparr>s_slot_in_use = replicate MAX_STACK_SLOTS False, s_pages_allocated = 0,
     s_pages_reclaimed = 0, s_initialized = True\<rparr>"

definition is_slot_in_use :: "stack_allocator \<Rightarrow> int \<Rightarrow> bool" where
  "is_slot_in_use sa slot =
     (if slot < 0 \<or> slot \<ge> int MAX_STACK_SLOTS then False else s_slot_in_use sa ! nat slot)"

definition is_guard_page_address :: "u64 \<Rightarrow> bool" where
  "is_guard_page_address val =
     (let max_val = THREAD_STACK_BASE_VIRT + of_nat MAX_STACK_SLOTS * SLOT_SIZE_BYTES in
      if val < THREAD_STACK_BASE_VIRT \<or> val \<ge> max_val then False
      else (val - THREAD_STACK_BASE_VIRT) mod SLOT_SIZE_BYTES < GUARD_PAGES * PAGE_SIZE)"

definition find_free_slot :: "bool list \<Rightarrow> nat option" where
  "find_free_slot used = List.find (\<lambda>i. \<not> used ! i) [0..<MAX_STACK_SLOTS]"

definition stack_flags :: u64 where
  "stack_flags = PF_Present OR PF_Writable OR PF_NoExecute"

text \<open>The mapping loop of \<open>allocate_stack\<close> stops at the first page that cannot be mapped
  and reports its number.\<close>

fun map_stack :: "vmm \<Rightarrow> u64 \<Rightarrow> u64 \<Rightarrow> nat \<Rightarrow> nat \<Rightarrow> pmm \<times> page_mem \<Rightarrow> nat option \<times> pmm \<times> page_mem" where
  "map_stack v bottom_va pa p 0 s = (None, s)"
| "map_stack v bottom_va pa p (Suc n) s =
     (let (st, s') = map_page v s (bottom_va + of_nat p * PAGE_SIZE) (pa + of_nat p * PAGE_SIZE) stack_flags
      in if st \<noteq> Success then (Some p, s') else map_stack v bottom_va pa (Suc p) n s')"

definition unmap_stack :: "vmm \<Rightarrow> u64 \<Rightarrow> nat \<Rightarrow> page_mem \<Rightarrow> page_mem" where
  "unmap_stack v bottom_va n mem =
     fold (\<lambda>p m. snd (unmap_page v m (bottom_va + of_nat p * PAGE_SIZE))) [0..<n] mem"

definition slot_vbase :: "nat \<Rightarrow> u64" where
  "slot_vbase slot = THREAD_STACK_BASE_VIRT + of_nat slot * SLOT_SIZE_BYTES"

definition allocate_stack ::
  "vmm \<Rightarrow> stack_allocator \<Rightarrow> pmm \<times> page_mem \<Rightarrow> stack_info option \<times> stack_allocator \<times> pmm \<times> page_mem" where
  "allocate_stack v sa s =
     (if \<not> s_initialized sa then (None, sa, s)
      else case find_free_slot (s_slot_in_use sa) of
        None \<Rightarrow> (None, sa, s)
      | Some free_slot \<Rightarrow>
        let (pa, s1) = alloc_pages s STACK_USABLE_PAGES in
        if pa = 0 then (None, sa, s1)
        else
          let vbase = slot_vbase free_slot;
              bottom_va = vbase + GUARD_PAGES * PAGE_SIZE
          in case map_stack v bottom_va pa 0 (unat STACK_USABLE_PAGES) s1 of
               (Some p, s2) \<Rightarrow>
                 (None, sa, snd (free_pages (fst s2) pa STACK_USABLE_PAGES), unmap_stack v bottom_va p (snd s2))
             | (None, s2) \<Rightarrow>
                 (Some \<lparr>guard_page = vbase, stack_bottom = bottom_va, stack_top = vbase + SLOT_SIZE_BYTES,
                        physical_base = pa, usable_bytes = STACK_USABLE_PAGES * PAGE_SIZE,
                        page_count = STACK_USABLE_PAGES, slot_index = int free_slot\<rparr>,
                  sa\<lparr>s_slot_in_use := (s_slot_in_use sa)[free_slot := True],
                     s_pages_allocated := s_pages_allocated sa + STACK_USABLE_PAGES\<rparr>, s2))"

definition free_stack ::
  "vmm \<Rightarrow> stack_info \<Rightarrow> stack_allocator \<Rightarrow> pmm \<times> page_mem \<Rightarrow> bool \<times> stack_allocator \<times> pmm \<times> page_mem" where
  "free_stack v info sa s =
     (if \<not> s_initialized sa then (False, sa, s)
      else if slot_index info < 0 \<or> slot_index info \<ge> int MAX_STACK_SLOTS then (False, sa, s)
      else if \<not> s_slot_in_use sa ! nat (slot_index info) then (False, sa, s)
      else
        let mem = unmap_stack v (stack_bottom info) (unat (page_count info)) (snd s);
            p = (if physical_base info \<noteq> 0 then snd (free_pages (fst s) (physical_base info) (page_count info)) else fst s)
        in (True, sa\<lparr>s_slot_in_use := (s_slot_in_use sa)[nat (slot_index info) := False],
                     s_pages_reclaimed := s_pages_reclaimed sa + page_count info\<rparr>, p, mem))"

definition allocated_slots_count :: "stack_allocator \<Rightarrow> nat" where
  "allocated_slots_count sa = length (filter (\<lambda>i. s_slot_in_use sa ! i) [0..<MAX_STACK_SLOTS])"

section \<open>Slots\<close>

lemmas stack_consts = STACK_USABLE_PAGES_def GUARD_PAGES_def PAGES_PER_SLOT_def SLOT_SIZE_BYTES_def
  MAX_STACK_SLOTS_def THREAD_STACK_BASE_VIRT_def PAGE_SIZE_def

lemma find_free_slot_Some:
  "find_free_slot used = Some i \<Longrightarrow> i < MAX_STACK_SLOTS \<and> \<not> used ! i"
  by (auto simp: find_free_slot_def find_Some_iff)

lemma unat_slot_vbase:
  assumes "slot < MAX_STACK_SLOTS"
  shows "unat (slot_vbase slot) = 0xFFFFFFFF72000000 + slot * 20480"
proof -
  have "slot_vbase slot = of_nat (0xFFFFFFFF72000000 + slot * 20480)" by (simp add: slot_vbase_def stack_consts)
  then have "unat (slot_vbase slot) = (0xFFFFFFFF72000000 + slot * 20480) mod 2 ^ LENGTH(64)" by (simp only: unat_of_nat)
  then show ?thesis using assms by (simp add: stack_consts)
qed

lemma guard_page_slot:
  assumes "slot < MAX_STACK_SLOTS" "k < 20480"
  shows "is_guard_page_address (slot_vbase slot + of_nat k) \<longleftrightarrow> k < 4096"
proof -
  have k: "unat (of_nat k :: u64) = k" using assms(2) by (simp add: unat_of_nat)
  have u: "unat (slot_vbase slot + of_nat k) = 0xFFFFFFFF72000000 + slot * 20480 + k"
    using unat_slot_vbase[OF assms(1)] k assms by (subst unat_add_nowrap) (simp_all add: stack_consts)
  have "unat (slot_vbase slot + of_nat k - THREAD_STACK_BASE_VIRT) = slot * 20480 + k"
    by (subst unat_sub) (simp_all add: u word_le_nat_alt stack_consts)
  then have "unat ((slot_vbase slot + of_nat k - THREAD_STACK_BASE_VIRT) mod SLOT_SIZE_BYTES) = k"
    using assms(2) by (simp add: unat_mod_distrib stack_consts)
  then show ?thesis using assms u
    by (simp add: is_guard_page_address_def Let_def word_less_nat_alt word_le_nat_alt stack_consts)
qed

section \<open>Mapping a stack\<close>

lemma zero_pages_other:
  "(\<forall>i<n. b \<noteq> a + of_nat i * PAGE_SIZE) \<Longrightarrow> zero_pages mem a n b = mem b"
proof (induction n arbitrary: mem a)
  case (Suc n)
  have "b \<noteq> a" using Suc.prems[rule_format, of 0] by simp
  moreover have "\<forall>i<n. b \<noteq> a + PAGE_SIZE + of_nat i * PAGE_SIZE"
  proof (intro allI impI)
    fix i assume "i < n"
    then show "b \<noteq> a + PAGE_SIZE + of_nat i * PAGE_SIZE"
      using Suc.prems[rule_format, of "Suc i"] by (simp add: distrib_right add.assoc)
  qed
  ultimately show ?case using Suc.IH by (simp add: zero_page_def)
qed simp

lemma alloc_pages_mem:
  assumes "pmm_inv p" "alloc_pages (p, mem) n = (a, p', mem')" "a \<noteq> 0" "b \<notin> free_addrs p"
  shows "mem' b = mem b"
proof (cases "n = 1")
  case True
  then have "alloc_page (p, mem) = (a, p', mem')" using assms(2,3) by (auto simp: alloc_pages_def split: if_splits)
  from alloc_page_spec[OF assms(1) this] assms(3,4) show ?thesis
    by (auto simp: zero_page_def free_addrs_def)
next
  case False
  obtain r where r: "a = frame_addr r" "{r..<r + unat n} \<subseteq> free_set p" using alloc_pages_spec[OF assms(1-3)] by blast
  have "mem' = mem \<or> mem' = zero_pages mem a (unat n)"
    using assms(2,3) False by (auto simp: alloc_pages_def take_run_def Let_def split: if_splits option.splits)
  moreover have "b \<noteq> a + of_nat i * PAGE_SIZE" if "i < unat n" for i
  proof -
    have "r + i \<in> free_set p" using r(2) that by auto
    then have "frame_addr (r + i) \<in> free_addrs p" by (simp add: free_addrs_def)
    then show ?thesis using assms(4) r(1) by (auto simp: frame_addr_def distrib_right)
  qed
  ultimately show ?thesis using zero_pages_other by blast
qed

lemma alloc_pages_vm:
  assumes "vm_inv root (p, mem)" "alloc_pages (p, mem) n = (a, p', mem')" "a \<noteq> 0"
  shows "vm_inv root (p', mem')" "walk mem' root va = walk mem root va"
    "\<And>i. i < unat n \<Longrightarrow> a + of_nat i * PAGE_SIZE \<in> free_addrs p"
proof -
  note I = vm_invD[OF assms(1), simplified]
  obtain r where r: "a = frame_addr r" "{r..<r + unat n} \<subseteq> free_set p" "free_set p' = free_set p - {r..<r + unat n}" "pmm_inv p'"
    using alloc_pages_spec[OF I(1) assms(2,3)] by blast
  have ag: "\<forall>q a. path_ok q \<longrightarrow> tbl mem 4 root q = Some a \<longrightarrow> mem' a = mem a"
    using alloc_pages_mem[OF I(1) assms(2,3)] I(3)[unfolded tables_off_def] by metis
  show "walk mem' root va = walk mem root va" by (rule walk_agree[OF ag])
  have sub: "free_addrs p' \<subseteq> free_addrs p" using r(3) by (auto simp: free_addrs_def)
  have "table_tree mem' root" "tables_off mem' root (free_addrs p')"
    using I(2,3) sub unfolding table_tree_def tables_off_def by (simp_all only: tbl_agree[OF ag] cong: imp_cong) blast+
  then show "vm_inv root (p', mem')" using I(4) r(4) sub by (auto simp: vm_inv_def)
  show "a + of_nat i * PAGE_SIZE \<in> free_addrs p" if "i < unat n" for i
  proof -
    have "r + i \<in> free_set p" using r(2) that by auto
    then have "frame_addr (r + i) \<in> free_addrs p" by (simp add: free_addrs_def)
    then show ?thesis using r(1) by (simp add: frame_addr_def distrib_right)
  qed
qed

lemma page_number:
  assumes "4096 dvd unat bottom" "unat bottom + (i + 1) * 4096 \<le> 2 ^ 64"
  shows "va div PAGE_SIZE = (bottom + of_nat i * PAGE_SIZE) div PAGE_SIZE \<longleftrightarrow> unat va div 4096 = unat bottom div 4096 + i"
    and "unat va div 4096 = unat bottom div 4096 + i \<Longrightarrow> of_nat i * PAGE_SIZE + page_offset va = va - bottom"
proof -
  have i: "i * 4096 < 2 ^ 64" using assms(2) by simp
  then have "unat (of_nat i * PAGE_SIZE :: u64) = i * 4096"
    using unat_mult_nowrap[of "of_nat i :: u64" PAGE_SIZE] by (simp add: unat_of_nat PAGE_SIZE_def)
  then have u: "unat (bottom + of_nat i * PAGE_SIZE) = unat bottom + i * 4096"
    using assms(2) by (subst unat_add_nowrap) simp_all
  have "va div PAGE_SIZE = w div PAGE_SIZE \<longleftrightarrow> unat va div 4096 = unat w div 4096" for w
    by (simp add: word_unat_eq_iff unat_div_distrib PAGE_SIZE_def)
  then show "va div PAGE_SIZE = (bottom + of_nat i * PAGE_SIZE) div PAGE_SIZE \<longleftrightarrow> unat va div 4096 = unat bottom div 4096 + i"
    by (simp add: u add.commute)
  assume v: "unat va div 4096 = unat bottom div 4096 + i"
  have "va = bottom + of_nat i * PAGE_SIZE + page_offset va"
  proof -
    have "unat va = (unat bottom div 4096 + i) * 4096 + unat va mod 4096" using v div_mult_mod_eq[of "unat va" 4096] by metis
    then have "unat va = unat (bottom + of_nat i * PAGE_SIZE) + unat (page_offset va)"
      using assms(1) by (simp add: u unat_page_offset add_mult_distrib)
    moreover from this have "unat (bottom + of_nat i * PAGE_SIZE) + unat (page_offset va) < 2 ^ LENGTH(64)"
      using unat_below[of va] by simp
    ultimately show ?thesis using unat_add_nowrap[of "bottom + of_nat i * PAGE_SIZE" "page_offset va"]
      by (simp only: word_unat_eq_iff)
  qed
  then show "of_nat i * PAGE_SIZE + page_offset va = va - bottom" by (simp add: algebra_simps)
qed

lemma map_stack_spec:
  assumes v: "m_vmm_initialized v" "hw_cr3 v = root" "root \<noteq> 0" "is_page_aligned root" "m_root_pml4_paddr v = root"
    and b: "4096 dvd unat bottom" "unat bottom + (p + n) * 4096 \<le> 2 ^ 64"
    and pa: "\<forall>i<p + n. unat (pa + of_nat i * PAGE_SIZE) < 2 ^ 52"
    and s: "vm_inv root s" "map_stack v bottom pa p n s = (None, s')"
  shows "vm_inv root s' \<and> (\<forall>va. translate v (snd s') va =
    (if is_canonical va \<and> unat bottom div 4096 + p \<le> unat va div 4096 \<and> unat va div 4096 < unat bottom div 4096 + p + n
     then Some (pa + (va - bottom), stack_flags) else translate v (snd s) va))"
  using b pa s
proof (induction n arbitrary: p s)
  case 0
  then show ?case by auto
next
  case (Suc n)
  obtain st s1 where m: "map_page v s (bottom + of_nat p * PAGE_SIZE) (pa + of_nat p * PAGE_SIZE) stack_flags = (st, s1)"
    by (meson surj_pair)
  with Suc.prems(5) have st: "st = Success" and r: "map_stack v bottom pa (Suc p) n s1 = (None, s')"
    by (auto split: if_splits)
  have "map_page_in_table v s root (bottom + of_nat p * PAGE_SIZE) (pa + of_nat p * PAGE_SIZE) stack_flags = (Success, s1)"
    using m st v(5) by (simp add: map_page_def)
  note T = map_translate[OF v(1-4) Suc.prems(4) _ this]
  have fl: "(stack_flags OR PF_Present) AND (PF_NoExecute OR 0x1FF) = stack_flags" by code_simp
  have T': "vm_inv root s1" "\<And>va. translate v (snd s1) va = (if is_canonical va \<and> unat va div 4096 = unat bottom div 4096 + p
      then Some (pa + (va - bottom), stack_flags) else translate v (snd s) va)"
    using T Suc.prems(1-3) page_number[of bottom p] by (auto simp: fl add.assoc)
  have "vm_inv root s' \<and> (\<forall>va. translate v (snd s') va =
    (if is_canonical va \<and> unat bottom div 4096 + Suc p \<le> unat va div 4096 \<and> unat va div 4096 < unat bottom div 4096 + Suc p + n
     then Some (pa + (va - bottom), stack_flags) else translate v (snd s1) va))"
    using Suc.prems by (intro Suc.IH[OF _ _ _ T'(1) r]) simp_all
  then show ?case using T'(2) by auto
qed

lemma stack_range:
  assumes "slot < MAX_STACK_SLOTS"
  shows "is_canonical va \<and> unat (slot_vbase slot + GUARD_PAGES * PAGE_SIZE) div 4096 \<le> unat va div 4096
      \<and> unat va div 4096 < unat (slot_vbase slot + GUARD_PAGES * PAGE_SIZE) div 4096 + 4
    \<longleftrightarrow> slot_vbase slot + GUARD_PAGES * PAGE_SIZE \<le> va \<and> va < slot_vbase slot + SLOT_SIZE_BYTES"
    and "unat (slot_vbase slot + GUARD_PAGES * PAGE_SIZE) = 0xFFFFFFFF72001000 + slot * 20480"
proof -
  let ?b = "slot_vbase slot + GUARD_PAGES * PAGE_SIZE" and ?t = "slot_vbase slot + SLOT_SIZE_BYTES"
  show b: "unat ?b = 0xFFFFFFFF72001000 + slot * 20480"
    using unat_slot_vbase[OF assms] assms by (subst unat_add_nowrap) (simp_all add: stack_consts)
  have t: "unat ?t = 0xFFFFFFFF72005000 + slot * 20480"
    using unat_slot_vbase[OF assms] assms by (subst unat_add_nowrap) (simp_all add: stack_consts)
  define k where "k = 0xFFFFFFFF72001 + slot * 5"
  have k: "unat ?b = k * 4096" "unat ?t = (k + 4) * 4096" by (simp_all add: b t k_def)
  have "k \<le> unat va div 4096 \<longleftrightarrow> k * 4096 \<le> unat va" by (simp add: less_eq_div_iff_mult_less_eq)
  moreover have "unat va div 4096 < k + 4 \<longleftrightarrow> unat va < (k + 4) * 4096" by (simp add: div_less_iff_less_mult)
  moreover have "is_canonical va" if "k * 4096 \<le> unat va"
    using that unfolding is_canonical_iff by (simp add: k_def)
  ultimately show "is_canonical va \<and> unat ?b div 4096 \<le> unat va div 4096 \<and> unat va div 4096 < unat ?b div 4096 + 4
      \<longleftrightarrow> ?b \<le> va \<and> va < ?t"
    unfolding word_le_nat_alt word_less_nat_alt k by auto
qed

text \<open>No address of any slot's guard page is mapped.\<close>

definition guards_unmapped :: "vmm \<Rightarrow> page_mem \<Rightarrow> bool" where
  "guards_unmapped v mem \<longleftrightarrow> (\<forall>va. is_guard_page_address va \<longrightarrow> translate v mem va = None)"

lemma guard_outside_stack:
  assumes slot: "slot < MAX_STACK_SLOTS" and va: "slot_vbase slot + GUARD_PAGES * PAGE_SIZE \<le> va" "va < slot_vbase slot + SLOT_SIZE_BYTES"
  shows "\<not> is_guard_page_address va"
proof -
  note B = unat_slot_vbase[OF slot] stack_range(2)[OF slot]
  have t: "unat (slot_vbase slot + SLOT_SIZE_BYTES) = 0xFFFFFFFF72005000 + slot * 20480"
    using B(1) slot by (subst unat_add_nowrap) (simp_all add: stack_consts)
  define k where "k = unat va - unat (slot_vbase slot)"
  have lo: "unat (slot_vbase slot) + 4096 \<le> unat va" and hi: "unat va < unat (slot_vbase slot) + 20480"
    using va unfolding word_le_nat_alt word_less_nat_alt B t by linarith+
  have k: "4096 \<le> k" "k < 20480" using lo hi unfolding k_def by linarith+
  have "slot_vbase slot \<le> va" using lo by (simp add: word_le_nat_alt)
  then have "of_nat k = va - slot_vbase slot" unfolding k_def by (simp flip: unat_sub_nowrap)
  then have "va = slot_vbase slot + of_nat k" by simp
  then show ?thesis using guard_page_slot[OF slot k(2)] k(1) by simp
qed

definition roomy_pmm :: pmm where
  "roomy_pmm = example_pmm\<lparr>m_bitmap := [NOT 0xFFF8], m_usable_frames := 13, m_reserved_frames := 51, m_free_frames := 13\<rparr>"

lemma roomy_free_set: "free_set roomy_pmm = set [3..<16]"
proof -
  have "free_set roomy_pmm = set (filter (\<lambda>f. \<not> bm_test [NOT 0xFFF8] f) [0..<64])"
    by (auto simp: free_set_def roomy_pmm_def example_pmm_def)
  also have "filter (\<lambda>f. \<not> bm_test [NOT 0xFFF8] f) [0..<64] = [3..<16]" by code_simp
  finally show ?thesis .
qed

lemma roomy_pmm_inv: "pmm_inv roomy_pmm"
  using roomy_free_set by (auto simp: pmm_inv_def) (simp_all add: roomy_pmm_def example_pmm_def)

lemma roomy_vm_inv: "vm_inv 0x2000 (roomy_pmm, \<lambda>_ _. 0)"
proof (rule empty_vm_inv[OF roomy_pmm_inv])
  have "free_addrs roomy_pmm = set (map frame_addr [3..<16])" by (simp only: free_addrs_def roomy_free_set set_map)
  also have "map frame_addr [3..<16] = [0x3000, 0x4000, 0x5000, 0x6000, 0x7000, 0x8000, 0x9000, 0xA000, 0xB000, 0xC000, 0xD000, 0xE000, 0xF000]"
    by code_simp
  finally have a: "free_addrs roomy_pmm = set [0x3000, 0x4000, 0x5000, 0x6000, 0x7000, 0x8000, 0x9000, 0xA000, 0xB000, 0xC000, 0xD000, 0xE000, 0xF000]" .
  show "0x2000 \<notin> free_addrs roomy_pmm" "\<forall>a\<in>free_addrs roomy_pmm. is_direct_mapped a"
    unfolding a by (simp_all add: is_direct_mapped_def)
qed

text \<open>C21.  A successful \<open>allocate_stack\<close> claims a free slot and maps exactly its four usable
  pages, writable and not executable, onto a run of frames that was free; every other address
  keeps its translation.  The page below the stack is one \<open>is_guard_page_address\<close> recognises,
  and when no guard page of any of the 64 slots was mapped before, none is mapped afterwards.\<close>

theorem allocate_stack_mapped:
  assumes v: "m_vmm_initialized v" "hw_cr3 v = root" "root \<noteq> 0" "is_page_aligned root" "m_root_pml4_paddr v = root"
    and s: "vm_inv root s" "allocate_stack v sa s = (Some info, sa', s')"
  shows "vm_inv root s' \<and> (\<exists>slot < 64. slot_index info = int slot \<and> \<not> s_slot_in_use sa ! slot
      \<and> s_slot_in_use sa' = (s_slot_in_use sa)[slot := True] \<and> guard_page info = slot_vbase slot)
    \<and> (\<forall>k<4096. is_guard_page_address (guard_page info + of_nat k))
    \<and> (guards_unmapped v (snd s) \<longrightarrow> guards_unmapped v (snd s'))
    \<and> (\<forall>i<4. physical_base info + of_nat i * PAGE_SIZE \<in> free_addrs (fst s))
    \<and> stack_bottom info = guard_page info + 4096 \<and> stack_top info = stack_bottom info + 16384
    \<and> (\<forall>va. translate v (snd s') va =
        (if stack_bottom info \<le> va \<and> va < stack_top info
         then Some (physical_base info + (va - stack_bottom info), PF_Present OR PF_Writable OR PF_NoExecute)
         else translate v (snd s) va))"
proof -
  obtain slot where f: "find_free_slot (s_slot_in_use sa) = Some slot"
    using s(2) by (auto simp: allocate_stack_def split: if_splits option.splits)
  obtain pa p1 mem1 where a: "alloc_pages s STACK_USABLE_PAGES = (pa, p1, mem1)" by (meson prod_cases3)
  let ?b = "slot_vbase slot + GUARD_PAGES * PAGE_SIZE"
  obtain r s2 where m: "map_stack v ?b pa 0 (unat STACK_USABLE_PAGES) (p1, mem1) = (r, s2)" by (meson surj_pair)
  have u4: "unat STACK_USABLE_PAGES = 4" by (simp add: STACK_USABLE_PAGES_def)
  have e: "pa \<noteq> 0" "r = None" "s' = s2" "s_slot_in_use sa' = (s_slot_in_use sa)[slot := True]"
    "info = \<lparr>guard_page = slot_vbase slot, stack_bottom = ?b, stack_top = slot_vbase slot + SLOT_SIZE_BYTES,
       physical_base = pa, usable_bytes = STACK_USABLE_PAGES * PAGE_SIZE,
       page_count = STACK_USABLE_PAGES, slot_index = int slot\<rparr>"
    using s(2) f a m unfolding allocate_stack_def Let_def
    by (auto split: if_splits option.splits)
  obtain p mem where ss: "s = (p, mem)" by (cases s)
  note A = alloc_pages_vm[OF s(1)[unfolded ss] a[unfolded ss] e(1)]
  have sl: "slot < MAX_STACK_SLOTS" "\<not> s_slot_in_use sa ! slot" using find_free_slot_Some[OF f] by auto
  have pa: "\<forall>i<0 + 4. unat (pa + of_nat i * PAGE_SIZE) < 2 ^ 52"
    using A(3) direct_small vm_invD(4)[OF s(1)] ss u4 by auto
  have "4096 dvd unat ?b" unfolding stack_range(2)[OF sl(1)] by (rule dvd_add) (simp_all add: dvd_mult)
  moreover have "unat ?b + (0 + 4) * 4096 \<le> 2 ^ 64" unfolding stack_range(2)[OF sl(1)] using sl(1) by (simp add: MAX_STACK_SLOTS_def)
  ultimately have M: "vm_inv root s2 \<and> (\<forall>va. translate v (snd s2) va =
      (if is_canonical va \<and> unat ?b div 4096 + 0 \<le> unat va div 4096 \<and> unat va div 4096 < unat ?b div 4096 + 0 + 4
       then Some (pa + (va - ?b), stack_flags) else translate v mem1 va))"
    using map_stack_spec[OF v _ _ pa A(1)] m[unfolded u4] e(2) by simp
  have w: "translate v mem1 va = translate v mem va" for va
    unfolding translate_root[OF v(1-4)] A(2) ..
  have "\<forall>k<4096. is_guard_page_address (guard_page info + of_nat k)"
    using guard_page_slot[OF sl(1)] by (simp add: e(5))
  moreover have "guards_unmapped v (snd s')" if "guards_unmapped v (snd s)"
    using that M guard_outside_stack[OF sl(1)] unfolding guards_unmapped_def e(3) stack_range(1)[OF sl(1)] add_0_right
    by (auto simp: w ss)
  ultimately show ?thesis
    using M e sl A(3) u4 unfolding stack_range(1)[OF sl(1)] add_0_right
    by (auto simp: w ss stack_flags_def stack_consts add.assoc)
qed

theorem allocate_stack_mapped_witness:
  "\<exists>info sa' s'. allocate_stack example_vmm stack_allocator_init (roomy_pmm, \<lambda>_ _. 0) = (Some info, sa', s')
    \<and> stack_bottom info = 0xFFFFFFFF72001000 \<and> physical_base info = 0x3000 \<and> vm_inv 0x2000 s'
    \<and> translate example_vmm (snd s') 0xFFFFFFFF72001008 = Some (0x3008, PF_Present OR PF_Writable OR PF_NoExecute)
    \<and> translate example_vmm (snd s') 0xFFFFFFFF72000FF8 = None \<and> guards_unmapped example_vmm (snd s')"
proof -
  let ?r = "allocate_stack example_vmm stack_allocator_init (roomy_pmm, \<lambda>_ _. 0)"
  have e: "map_option stack_bottom (fst ?r) = Some 0xFFFFFFFF72001000" "map_option stack_top (fst ?r) = Some 0xFFFFFFFF72005000"
    "map_option physical_base (fst ?r) = Some 0x3000" by code_simp+
  obtain o1 sa' s' where r: "?r = (o1, sa', s')" by (meson prod_cases3)
  then obtain info where r: "?r = (Some info, sa', s')" using e(1) by (cases o1) simp_all
  have i: "stack_bottom info = 0xFFFFFFFF72001000" "stack_top info = 0xFFFFFFFF72005000" "physical_base info = 0x3000"
    using e r by simp_all
  have "translate example_vmm (\<lambda>_ _. 0) 0xFFFFFFFF72000FF8 = None" by code_simp
  moreover have "guards_unmapped example_vmm (snd (roomy_pmm, \<lambda>_ _. 0))"
    by (simp add: guards_unmapped_def translate_def Let_def walk_def pte_is_present_def)
  ultimately show ?thesis using allocate_stack_mapped[OF _ _ _ _ _ roomy_vm_inv r] r i
    by (simp add: example_vmm_facts)
qed

end
