(* ===== verification/Scheduler.thy ===== *)
theory Scheduler
  imports Stack_Allocator
begin

text \<open>
  The thread scheduler (\<open>src/kernel/threading/scheduler.hpp\<close> and \<open>scheduler.cpp\<close>): the
  thread pool, thread creation, the dispatcher, voluntary yield, timer preemption, blocking
  and termination with deferred reclamation of stacks.  The scheduler's static members are
  the fields of one record together with the components it drives (stack allocator, memory,
  page-table root register, task state segment).  A null pointer that the code would
  dereference sets the flag \<open>k_fault\<close>; the register save of \<open>context_switch\<close> has no state here.
\<close>

unbundle bit_operations_syntax

definition MAX_THREADS :: nat where "MAX_THREADS = 64"

record scheduler_stats =
  total_threads :: u64
  active_threads :: u64
  terminated_threads :: u64
  stack_pages_allocated :: u64
  stack_pages_reclaimed :: u64
  context_switches :: u64
  timer_preemptions :: u64
  voluntary_yields :: u64

record scheduler =
  s_tcb_pool :: tcb_pool
  s_ready_queue :: ready_queue
  s_current_thread :: "nat option"
  s_idle_thread :: "nat option"
  s_bootstrap_thread :: "nat option"
  s_stats :: scheduler_stats
  s_next_id :: u32
  s_running :: bool
  s_in_scheduler :: bool
  s_preemption_in_progress :: bool
  k_stacks :: stack_allocator
  k_mem :: "pmm \<times> page_mem"
  k_vmm :: vmm
  k_rsp0 :: "u64 option"
  k_tick_hook :: bool
  k_fault :: bool

definition set_tcb :: "nat \<Rightarrow> (tcb \<Rightarrow> tcb) \<Rightarrow> scheduler \<Rightarrow> scheduler" where
  "set_tcb t f S = S\<lparr>s_tcb_pool := (s_tcb_pool S)[t := f (s_tcb_pool S ! t)]\<rparr>"

definition allocate_id :: "scheduler \<Rightarrow> u32 \<times> scheduler" where
  "allocate_id S =
     (let nxt = s_next_id S + 1
      in (s_next_id S, S\<lparr>s_next_id := (if nxt = 0 then 3 else nxt)\<rparr>))"

definition allocate_tcb :: "scheduler \<Rightarrow> nat option \<times> scheduler" where
  "allocate_tcb S =
     (case List.find (\<lambda>i. \<not> t_active (s_tcb_pool S ! i)) [2..<MAX_THREADS] of
        None \<Rightarrow> (None, S)
      | Some i \<Rightarrow> (Some i, set_tcb i (\<lambda>_. empty_tcb) S))"

definition reclaim_step :: "nat \<Rightarrow> scheduler \<Rightarrow> scheduler" where
  "reclaim_step i S =
     (let t = s_tcb_pool S ! i in
      if t_active t \<and> t_state t = TS_Terminated \<and> Some i \<noteq> s_current_thread S \<and> slot_index (t_stack t) \<ge> 0
      then let (_, sa, mem) = free_stack (k_vmm S) (t_stack t) (k_stacks S) (k_mem S) in
        set_tcb i (\<lambda>t. t\<lparr>t_stack := empty_stack, t_active := False\<rparr>)
          (S\<lparr>k_stacks := sa, k_mem := mem,
             s_stats := (s_stats S)\<lparr>
               stack_pages_reclaimed := stack_pages_reclaimed (s_stats S) + STACK_USABLE_PAGES,
               terminated_threads := terminated_threads (s_stats S) + 1,
               active_threads := (if active_threads (s_stats S) > 0 then active_threads (s_stats S) - 1
                                  else active_threads (s_stats S))\<rparr>\<rparr>)
      else S)"

definition reclaim_deferred_stacks :: "scheduler \<Rightarrow> scheduler" where
  "reclaim_deferred_stacks S = fold reclaim_step [0..<MAX_THREADS] S"

section \<open>Initialisation\<close>

definition bootstrap_tcb :: "u64 \<Rightarrow> u64 \<Rightarrow> tcb" where
  "bootstrap_tcb kernel_stack_bottom kernel_stack_top =
     empty_tcb\<lparr>t_id := BOOTSTRAP_THREAD_ID, t_name := ''bootstrap'', t_state := TS_Running,
       t_priority := TP_Normal, is_bootstrap := True, t_active := True,
       t_stack := empty_stack\<lparr>usable_bytes := 65536, stack_bottom := kernel_stack_bottom,
                               stack_top := kernel_stack_top\<rparr>\<rparr>"

definition scheduler_init :: "u64 \<Rightarrow> u64 \<Rightarrow> u64 \<Rightarrow> u64 \<Rightarrow> scheduler \<Rightarrow> scheduler" where
  "scheduler_init kernel_stack_bottom kernel_stack_top idle_worker trampoline S0 =
     (let S = S0\<lparr>k_stacks := stack_allocator_init, s_ready_queue := rq_clear,
                 s_tcb_pool := replicate MAX_THREADS empty_tcb,
                 s_stats := \<lparr>total_threads = 0, active_threads = 0, terminated_threads = 0,
                   stack_pages_allocated = 0, stack_pages_reclaimed = 0, context_switches = 0,
                   timer_preemptions = 0, voluntary_yields = 0\<rparr>,
                 s_next_id := 1, s_running := False, s_in_scheduler := False,
                 s_preemption_in_progress := False\<rparr>;
          S1 = (set_tcb 0 (\<lambda>_. bootstrap_tcb kernel_stack_bottom kernel_stack_top) S)
                 \<lparr>s_current_thread := Some 0, s_bootstrap_thread := Some 0,
                  s_stats := (s_stats S)\<lparr>total_threads := 1, active_threads := 1\<rparr>\<rparr>;
          S2 = set_tcb 1 (\<lambda>t. t\<lparr>t_id := IDLE_THREAD_ID, t_name := ''idle'', t_state := TS_Idle,
                 t_priority := TP_Idle, is_idle := True, t_active := True\<rparr>) S1
      in case allocate_stack (k_vmm S2) (k_stacks S2) (k_mem S2) of
           (None, sa, mem) \<Rightarrow> S2\<lparr>k_stacks := sa, k_mem := mem\<rparr>
         | (Some info, sa, mem) \<Rightarrow>
             (set_tcb 1 (\<lambda>t. init_thread_context (t\<lparr>t_stack := info\<rparr>) idle_worker 0 trampoline) S2)
               \<lparr>k_stacks := sa, k_mem := mem, s_idle_thread := Some 1,
                s_stats := (s_stats S2)\<lparr>total_threads := 2, active_threads := 2,
                  stack_pages_allocated := STACK_USABLE_PAGES\<rparr>,
                s_next_id := 3, k_tick_hook := True\<rparr>)"

definition scheduler_start :: "scheduler \<Rightarrow> scheduler" where
  "scheduler_start S = S\<lparr>s_running := True\<rparr>"

section \<open>Thread creation\<close>

definition create_thread ::
  "u64 \<Rightarrow> string option \<Rightarrow> u64 \<Rightarrow> u64 \<Rightarrow> thread_priority \<Rightarrow> scheduler \<Rightarrow> nat option \<times> scheduler" where
  "create_thread trampoline name entry argument priority S =
     (if entry = 0 then (None, S)
      else case allocate_tcb S of
        (None, S1) \<Rightarrow> (None, S1)
      | (Some t, S1) \<Rightarrow>
        case allocate_stack (k_vmm S1) (k_stacks S1) (k_mem S1) of
          (None, sa, mem) \<Rightarrow> (None, set_tcb t (\<lambda>b. b\<lparr>t_active := False\<rparr>) (S1\<lparr>k_stacks := sa, k_mem := mem\<rparr>))
        | (Some info, sa, mem) \<Rightarrow>
          let (i, S2) = allocate_id (S1\<lparr>k_stacks := sa, k_mem := mem\<rparr>);
              S3 = set_tcb t (\<lambda>b. init_thread_context
                     (b\<lparr>t_stack := info, t_id := i,
                        t_name := take THREAD_NAME_MAX_LEN (case name of None \<Rightarrow> ''thread'' | Some n \<Rightarrow> n),
                        t_state := TS_Ready, t_priority := priority, t_active := True,
                        ticks_allocated := 0, ticks_consumed := 0,
                        timeslice_ticks := DEFAULT_TIMESLICE_TICKS, switch_count := 0,
                        preemption_count := 0, voluntary_yield_count := 0\<rparr>) entry argument trampoline) S2;
              (ok, q) = rq_enqueue (s_tcb_pool S3) (Some t) (s_ready_queue S3)
          in if \<not> ok
             then let (_, sa', mem') = free_stack (k_vmm S3) info (k_stacks S3) (k_mem S3)
                  in (None, set_tcb t (\<lambda>b. b\<lparr>t_active := False\<rparr>) (S3\<lparr>k_stacks := sa', k_mem := mem'\<rparr>))
             else (Some t, S3\<lparr>s_ready_queue := q,
                     s_stats := (s_stats S3)\<lparr>total_threads := total_threads (s_stats S3) + 1,
                       active_threads := active_threads (s_stats S3) + 1,
                       stack_pages_allocated := stack_pages_allocated (s_stats S3) + STACK_USABLE_PAGES\<rparr>\<rparr>))"

section \<open>Dispatching\<close>

text \<open>Steps 3 to 5 of \<open>schedule\<close>, shared with \<open>exit\<close>: make \<open>next\<close> the running thread, keep
  the task state segment and the page-table root in step with it, and switch contexts
  (\<open>context_switch\<close> stores through the old thread's pointer).\<close>

definition switch_to :: "nat option \<Rightarrow> nat \<Rightarrow> scheduler \<Rightarrow> scheduler" where
  "switch_to old n S =
     (let S1 = set_tcb n (\<lambda>t. t\<lparr>t_state := TS_Running, ticks_consumed := 0, switch_count := switch_count t + 1\<rparr>) S;
          t = s_tcb_pool S1 ! n;
          target_cr3 = (if t_cr3 t \<noteq> 0 then t_cr3 t else m_root_pml4_paddr (k_vmm S1))
      in S1\<lparr>s_current_thread := Some n,
            s_stats := (s_stats S1)\<lparr>context_switches := context_switches (s_stats S1) + 1\<rparr>,
            k_rsp0 := (if k_rsp0 S1 \<noteq> None \<and> stack_top (t_stack t) \<noteq> 0 then Some (stack_top (t_stack t)) else k_rsp0 S1),
            s_in_scheduler := False,
            k_vmm := (if target_cr3 \<noteq> 0 \<and> target_cr3 \<noteq> hw_cr3 (k_vmm S1)
                      then (k_vmm S1)\<lparr>hw_cr3 := target_cr3\<rparr> else k_vmm S1),
            k_fault := (k_fault S1 \<or> old = None)\<rparr>)"

definition put_back :: "nat option \<Rightarrow> scheduler \<Rightarrow> scheduler" where
  "put_back cur S =
     (case cur of
        None \<Rightarrow> S
      | Some c \<Rightarrow>
        if t_state (s_tcb_pool S ! c) = TS_Running then
          if \<not> is_idle (s_tcb_pool S ! c) then
            let S1 = set_tcb c (\<lambda>t. t\<lparr>t_state := TS_Ready\<rparr>) S
            in S1\<lparr>s_ready_queue := snd (rq_enqueue (s_tcb_pool S1) (Some c) (s_ready_queue S1))\<rparr>
          else set_tcb c (\<lambda>t. t\<lparr>t_state := TS_Idle\<rparr>) S
        else S)"

definition dispatch :: "nat option \<Rightarrow> nat option \<Rightarrow> scheduler \<Rightarrow> scheduler" where
  "dispatch cur nxt S =
     (case nxt of
        None \<Rightarrow> S\<lparr>k_fault := True\<rparr>
      | Some n \<Rightarrow>
        if cur = Some n
        then (set_tcb n (\<lambda>t. t\<lparr>t_state := TS_Running\<rparr>) S)\<lparr>s_in_scheduler := False\<rparr>
        else switch_to cur n (put_back cur S))"

definition schedule :: "scheduler \<Rightarrow> scheduler" where
  "schedule S0 =
     (if \<not> s_running S0 \<or> s_in_scheduler S0 then S0
      else
        let S1 = reclaim_deferred_stacks (S0\<lparr>s_in_scheduler := True\<rparr>);
            cur = s_current_thread S1;
            (nxt, q) = rq_dequeue (s_ready_queue S1);
            S2 = S1\<lparr>s_ready_queue := q\<rparr>
        in case nxt of
             None \<Rightarrow>
               (case cur of
                  Some c \<Rightarrow>
                    if t_state (s_tcb_pool S2 ! c) \<in> {TS_Running, TS_Ready}
                    then (set_tcb c (\<lambda>t. t\<lparr>t_state := TS_Running\<rparr>) S2)\<lparr>s_in_scheduler := False\<rparr>
                    else dispatch cur (s_idle_thread S2) S2
                | None \<Rightarrow> dispatch cur (s_idle_thread S2) S2)
           | Some n \<Rightarrow> dispatch cur (Some n) S2)"

definition yield :: "scheduler \<Rightarrow> scheduler" where
  "yield S =
     (case s_current_thread S of
        Some c \<Rightarrow>
          if \<not> is_idle (s_tcb_pool S ! c)
          then schedule ((set_tcb c (\<lambda>t. t\<lparr>voluntary_yield_count := voluntary_yield_count t + 1\<rparr>) S)
                 \<lparr>s_stats := (s_stats S)\<lparr>voluntary_yields := voluntary_yields (s_stats S) + 1\<rparr>\<rparr>)
          else schedule S
      | None \<Rightarrow> schedule S)"

definition exit_thread :: "scheduler \<Rightarrow> scheduler" where
  "exit_thread S =
     (let cur = s_current_thread S;
          S1 = (case cur of Some c \<Rightarrow> set_tcb c (\<lambda>t. t\<lparr>t_state := TS_Terminated\<rparr>) S | None \<Rightarrow> S);
          S2 = reclaim_deferred_stacks (S1\<lparr>s_in_scheduler := True\<rparr>);
          (nxt, q) = rq_dequeue (s_ready_queue S2);
          S3 = S2\<lparr>s_ready_queue := q\<rparr>
      in case (case nxt of None \<Rightarrow> s_idle_thread S3 | Some n \<Rightarrow> Some n) of
           None \<Rightarrow> S3\<lparr>k_fault := True\<rparr>
         | Some n \<Rightarrow> switch_to cur n S3)"

definition block :: "nat option \<Rightarrow> scheduler \<Rightarrow> scheduler" where
  "block thread S =
     (case (case thread of None \<Rightarrow> s_current_thread S | Some t \<Rightarrow> Some t) of
        None \<Rightarrow> S
      | Some target \<Rightarrow>
        if Some target = s_current_thread S
        then schedule (set_tcb target (\<lambda>t. t\<lparr>t_state := TS_Blocked\<rparr>) S)
        else set_tcb target (\<lambda>t. t\<lparr>t_state := TS_Blocked\<rparr>)
               (S\<lparr>s_ready_queue := snd (rq_remove (Some target) (s_ready_queue S))\<rparr>))"

definition unblock :: "nat option \<Rightarrow> scheduler \<Rightarrow> scheduler" where
  "unblock thread S =
     (case thread of
        None \<Rightarrow> S
      | Some t \<Rightarrow>
        if t_state (s_tcb_pool S ! t) = TS_Blocked
        then let S1 = set_tcb t (\<lambda>b. b\<lparr>t_state := TS_Ready\<rparr>) S
             in S1\<lparr>s_ready_queue := snd (rq_enqueue (s_tcb_pool S1) (Some t) (s_ready_queue S1))\<rparr>
        else S)"

text \<open>Only log output reads \<open>s_preemption_in_progress\<close>.  The code clears it when the preempted
  thread runs again; here it is cleared with the tick.\<close>

definition on_timer_tick :: "scheduler \<Rightarrow> scheduler" where
  "on_timer_tick S =
     (if \<not> s_running S \<or> s_in_scheduler S then S
      else case s_current_thread S of
        None \<Rightarrow> S
      | Some c \<Rightarrow>
        let S1 = set_tcb c (\<lambda>t. t\<lparr>ticks_consumed := ticks_consumed t + 1, ticks_allocated := ticks_allocated t + 1\<rparr>) S;
            cur = s_tcb_pool S1 ! c;
            timeslice_expired = (ticks_consumed cur \<ge> timeslice_ticks cur);
            idle_preemption = (is_idle cur \<and> \<not> rq_is_empty (s_ready_queue S1))
        in if timeslice_expired \<or> idle_preemption
           then let S2 = (set_tcb c (\<lambda>t. t\<lparr>preemption_count := preemption_count t + 1\<rparr>) S1)
                       \<lparr>s_stats := (s_stats S1)\<lparr>timer_preemptions := timer_preemptions (s_stats S1) + 1\<rparr>,
                        s_preemption_in_progress := True\<rparr>
                in (schedule S2)\<lparr>s_preemption_in_progress := False\<rparr>
           else S1)"

section \<open>The self-check\<close>

definition thread_ok :: "scheduler \<Rightarrow> nat \<Rightarrow> bool" where
  "thread_ok S i =
     (let t = s_tcb_pool S ! i in
      \<not> t_active t \<or>
        ((t_state t \<in> {TS_Terminated, TS_Blocked} \<longrightarrow> \<not> rq_contains (s_ready_queue S) (Some i))
       \<and> (t_state t = TS_Ready \<and> \<not> is_idle t \<longrightarrow> rq_contains (s_ready_queue S) (Some i))
       \<and> \<not> (t_state t = TS_Terminated \<and> Some i = s_current_thread S)
       \<and> (slot_index (t_stack t) \<ge> 0 \<longrightarrow>
            slot_index (t_stack t) < int MAX_STACK_SLOTS
          \<and> is_slot_in_use (k_stacks S) (slot_index (t_stack t))
          \<and> list_all (\<lambda>j. \<not> (t_active (s_tcb_pool S ! j) \<and> slot_index (t_stack (s_tcb_pool S ! j)) \<ge> 0
                \<and> slot_index (t_stack (s_tcb_pool S ! j)) = slot_index (t_stack t))) [i + 1..<MAX_THREADS])))"

definition verify_invariants :: "scheduler \<Rightarrow> bool" where
  "verify_invariants S =
     (case s_current_thread S of
        None \<Rightarrow> False
      | Some c \<Rightarrow>
          t_active (s_tcb_pool S ! c) \<and> t_state (s_tcb_pool S ! c) = TS_Running
        \<and> length (filter (\<lambda>i. t_active (s_tcb_pool S ! i) \<and> t_state (s_tcb_pool S ! i) = TS_Running) [0..<MAX_THREADS]) = 1
        \<and> \<not> rq_contains (s_ready_queue S) (Some c)
        \<and> (case (s_idle_thread S, s_bootstrap_thread S) of
             (Some i, Some b) \<Rightarrow>
               t_active (s_tcb_pool S ! i) \<and> t_active (s_tcb_pool S ! b)
             \<and> is_idle (s_tcb_pool S ! i) \<and> is_bootstrap (s_tcb_pool S ! b)
             \<and> t_state (s_tcb_pool S ! i) \<noteq> TS_Terminated
             \<and> \<not> rq_contains (s_ready_queue S) (Some i)
           | _ \<Rightarrow> False)
        \<and> rq_verify_invariants (s_tcb_pool S) (s_ready_queue S)
        \<and> list_all (thread_ok S) [0..<MAX_THREADS]
        \<and> (slot_index (t_stack (s_tcb_pool S ! c)) \<ge> 0 \<longrightarrow>
             is_slot_in_use (k_stacks S) (slot_index (t_stack (s_tcb_pool S ! c)))))"

section \<open>The invariant\<close>

lemma set_tcb_simps [simp]:
  "s_tcb_pool (set_tcb t f S) = (s_tcb_pool S)[t := f (s_tcb_pool S ! t)]"
  "s_ready_queue (set_tcb t f S) = s_ready_queue S" "s_current_thread (set_tcb t f S) = s_current_thread S"
  "s_idle_thread (set_tcb t f S) = s_idle_thread S" "s_bootstrap_thread (set_tcb t f S) = s_bootstrap_thread S"
  "s_running (set_tcb t f S) = s_running S" "s_in_scheduler (set_tcb t f S) = s_in_scheduler S"
  "k_stacks (set_tcb t f S) = k_stacks S" "k_mem (set_tcb t f S) = k_mem S" "k_vmm (set_tcb t f S) = k_vmm S"
  "k_fault (set_tcb t f S) = k_fault S" "s_stats (set_tcb t f S) = s_stats S" "k_rsp0 (set_tcb t f S) = k_rsp0 S"
  by (simp_all add: set_tcb_def)

abbreviation tcb_of :: "scheduler \<Rightarrow> nat \<Rightarrow> tcb" where "tcb_of S t \<equiv> s_tcb_pool S ! t"
abbreviation queued :: "scheduler \<Rightarrow> nat set" where "queued S \<equiv> set (rq_items (s_ready_queue S))"

text \<open>The idle thread is entry 1 of the pool and the bootstrap thread entry 0; the system
  threads keep their flags and the bootstrap thread owns no stack slot.\<close>

definition system_ok :: "scheduler \<Rightarrow> bool" where
  "system_ok S \<longleftrightarrow> s_idle_thread S = Some 1 \<and> s_bootstrap_thread S = Some 0
     \<and> t_active (tcb_of S 0) \<and> t_active (tcb_of S 1) \<and> is_bootstrap (tcb_of S 0)
     \<and> (\<forall>t<64. is_idle (tcb_of S t) \<longleftrightarrow> t = 1) \<and> slot_index (t_stack (tcb_of S 0)) < 0
     \<and> t_state (tcb_of S 1) \<noteq> TS_Terminated \<and> t_state (tcb_of S 1) \<noteq> TS_Ready"

definition slots_ok :: "scheduler \<Rightarrow> bool" where
  "slots_ok S \<longleftrightarrow> s_initialized (k_stacks S) \<and> length (s_slot_in_use (k_stacks S)) = 64
     \<and> (\<forall>t<64. t_active (tcb_of S t) \<longrightarrow> 0 \<le> slot_index (t_stack (tcb_of S t)) \<longrightarrow>
          slot_index (t_stack (tcb_of S t)) < 64 \<and> s_slot_in_use (k_stacks S) ! nat (slot_index (t_stack (tcb_of S t))))
     \<and> (\<forall>t<64. \<forall>u<64. t_active (tcb_of S t) \<longrightarrow> t_active (tcb_of S u) \<longrightarrow> 0 \<le> slot_index (t_stack (tcb_of S t)) \<longrightarrow>
          slot_index (t_stack (tcb_of S t)) = slot_index (t_stack (tcb_of S u)) \<longrightarrow> t = u)"

text \<open>\<open>pool_inv X S\<close>: the pool and the queue agree, except that the ready threads in \<open>X\<close> (the
  thread the dispatcher has just taken from the queue) need not be queued.\<close>

definition pool_inv :: "nat set \<Rightarrow> scheduler \<Rightarrow> bool" where
  "pool_inv X S \<longleftrightarrow> length (s_tcb_pool S) = 64 \<and> rq_inv (s_ready_queue S) \<and> \<not> k_fault S
     \<and> (\<exists>c<64. s_current_thread S = Some c \<and> t_active (tcb_of S c))
     \<and> (\<forall>t<64. t_active (tcb_of S t) \<longrightarrow> t_state (tcb_of S t) = TS_Running \<longrightarrow> s_current_thread S = Some t)
     \<and> (\<forall>t\<in>queued S. t < 64 \<and> t_active (tcb_of S t) \<and> t_state (tcb_of S t) = TS_Ready \<and> t \<noteq> 1)
     \<and> (\<forall>t<64. t_active (tcb_of S t) \<longrightarrow> t_state (tcb_of S t) = TS_Ready \<longrightarrow> t \<in> queued S \<union> X)
     \<and> system_ok S \<and> slots_ok S"

definition sched_inv :: "scheduler \<Rightarrow> bool" where
  "sched_inv S \<longleftrightarrow> pool_inv {} S \<and> \<not> s_in_scheduler S
     \<and> (\<exists>c. s_current_thread S = Some c \<and> t_state (tcb_of S c) = TS_Running)"

lemma system_okD:
  assumes "system_ok S"
  shows "s_idle_thread S = Some 1" "s_bootstrap_thread S = Some 0" "t_active (tcb_of S 0)" "t_active (tcb_of S 1)"
    "is_bootstrap (tcb_of S 0)" "\<And>t. t < 64 \<Longrightarrow> is_idle (tcb_of S t) \<longleftrightarrow> t = 1" "slot_index (t_stack (tcb_of S 0)) < 0"
    "t_state (tcb_of S 1) \<noteq> TS_Terminated" "t_state (tcb_of S 1) \<noteq> TS_Ready"
  using assms unfolding system_ok_def by blast+

lemma slots_okD:
  assumes "slots_ok S"
  shows "s_initialized (k_stacks S)" "length (s_slot_in_use (k_stacks S)) = 64"
    "\<And>t. t < 64 \<Longrightarrow> t_active (tcb_of S t) \<Longrightarrow> 0 \<le> slot_index (t_stack (tcb_of S t)) \<Longrightarrow>
       slot_index (t_stack (tcb_of S t)) < 64 \<and> s_slot_in_use (k_stacks S) ! nat (slot_index (t_stack (tcb_of S t)))"
    "\<And>t u. t < 64 \<Longrightarrow> u < 64 \<Longrightarrow> t_active (tcb_of S t) \<Longrightarrow> t_active (tcb_of S u) \<Longrightarrow>
       0 \<le> slot_index (t_stack (tcb_of S t)) \<Longrightarrow>
       slot_index (t_stack (tcb_of S t)) = slot_index (t_stack (tcb_of S u)) \<Longrightarrow> t = u"
  using assms unfolding slots_ok_def by blast+

lemma pool_invD:
  assumes "pool_inv X S"
  shows "length (s_tcb_pool S) = 64" "rq_inv (s_ready_queue S)" "\<not> k_fault S"
    "\<exists>c<64. s_current_thread S = Some c \<and> t_active (tcb_of S c)"
    "\<And>t. t < 64 \<Longrightarrow> t_active (tcb_of S t) \<Longrightarrow> t_state (tcb_of S t) = TS_Running \<Longrightarrow> s_current_thread S = Some t"
    "\<And>t. t \<in> queued S \<Longrightarrow> t < 64 \<and> t_active (tcb_of S t) \<and> t_state (tcb_of S t) = TS_Ready \<and> t \<noteq> 1"
    "\<And>t. t < 64 \<Longrightarrow> t_active (tcb_of S t) \<Longrightarrow> t_state (tcb_of S t) = TS_Ready \<Longrightarrow> t \<in> queued S \<union> X"
    "system_ok S" "slots_ok S"
  using assms unfolding pool_inv_def by blast+

lemma in_use_iff: "0 \<le> i \<Longrightarrow> i < 64 \<Longrightarrow> is_slot_in_use sa i = s_slot_in_use sa ! nat i"
  by (simp add: is_slot_in_use_def MAX_STACK_SLOTS_def)

lemma one_running:
  assumes "c < 64" "\<forall>t<64. P t \<longleftrightarrow> t = c"
  shows "length (filter P [0..<MAX_THREADS]) = 1"
proof -
  have "{i. i < 64 \<and> P i} = {c}" using assms by auto
  then show ?thesis using distinct_length_filter[of "[0..<MAX_THREADS]" P] by (simp add: MAX_THREADS_def Int_def conj_commute)
qed

lemma sched_inv_verify:
  assumes "sched_inv S"
  shows "verify_invariants S"
proof -
  have P: "pool_inv {} S" using assms by (simp add: sched_inv_def)
  note D = pool_invD[OF P] and Y = system_okD[OF pool_invD(8)[OF P]] and L = slots_okD[OF pool_invD(9)[OF P]]
  obtain c where c: "s_current_thread S = Some c" "c < 64" "t_active (tcb_of S c)" "t_state (tcb_of S c) = TS_Running"
    using assms D(4) by (auto simp: sched_inv_def)
  note ct = rq_contains_iff[OF D(2)]
  have one: "length (filter (\<lambda>i. t_active (tcb_of S i) \<and> t_state (tcb_of S i) = TS_Running) [0..<MAX_THREADS]) = 1"
  proof (rule one_running[OF c(2)], intro allI impI iffI)
    fix t assume "t < (64::nat)" "t_active (tcb_of S t) \<and> t_state (tcb_of S t) = TS_Running"
    then show "t = c" using D(5)[of t] c(1) by simp
  next
    fix t assume "t < (64::nat)" "t = c"
    then show "t_active (tcb_of S t) \<and> t_state (tcb_of S t) = TS_Running" using c(3,4) by simp
  qed
  have use: "slot_index (t_stack (tcb_of S i)) < int MAX_STACK_SLOTS \<and> is_slot_in_use (k_stacks S) (slot_index (t_stack (tcb_of S i)))"
    if "i < 64" "t_active (tcb_of S i)" "slot_index (t_stack (tcb_of S i)) \<ge> 0" for i
    using L(3)[OF that] that(3) in_use_iff by (simp add: MAX_STACK_SLOTS_def)
  have ok: "thread_ok S i" if i: "i < 64" for i
  proof -
    have l: "list_all (\<lambda>j. \<not> (t_active (tcb_of S j) \<and> slot_index (t_stack (tcb_of S j)) \<ge> 0
                \<and> slot_index (t_stack (tcb_of S j)) = slot_index (t_stack (tcb_of S i)))) [i + 1..<MAX_THREADS]" if "t_active (tcb_of S i)"
      unfolding list_all_iff
    proof (intro ballI notI)
      fix j assume j: "j \<in> set [i + 1..<MAX_THREADS]" and "t_active (tcb_of S j) \<and> slot_index (t_stack (tcb_of S j)) \<ge> 0
                \<and> slot_index (t_stack (tcb_of S j)) = slot_index (t_stack (tcb_of S i))"
      moreover have "i < j" "j < 64" using j by (auto simp: MAX_THREADS_def)
      ultimately show False using L(4)[of j i] i that by auto
    qed
    show ?thesis using l use[OF i] D(6)[of i] D(7)[OF i] c unfolding thread_ok_def Let_def ct by auto
  qed
  have all: "list_all (thread_ok S) [0..<MAX_THREADS]"
    unfolding list_all_iff using ok by (auto simp: MAX_THREADS_def)
  have rv: "rq_verify_invariants (s_tcb_pool S) (s_ready_queue S)"
    unfolding rq_verify_iff[OF D(2)] using D(6) Y(6) by blast
  have nq: "c \<notin> queued S" "1 \<notin> queued S" using D(6) c(4) by auto
  show ?thesis
    unfolding verify_invariants_def c(1) Y(1,2) option.case prod.case ct
    using c one all rv nq Y use[OF c(2,3)] by simp
qed

section \<open>Reclamation\<close>

lemma pool_invI:
  assumes "length (s_tcb_pool S) = 64" "rq_inv (s_ready_queue S)" "\<not> k_fault S"
    and "s_current_thread S = Some c" "c < 64" "t_active (tcb_of S c)"
    and "\<And>t. t < 64 \<Longrightarrow> t_active (tcb_of S t) \<Longrightarrow> t_state (tcb_of S t) = TS_Running \<Longrightarrow> t = c"
    and "\<And>t. t \<in> queued S \<Longrightarrow> t < 64 \<and> t_active (tcb_of S t) \<and> t_state (tcb_of S t) = TS_Ready \<and> t \<noteq> 1"
    and "\<And>t. t < 64 \<Longrightarrow> t_active (tcb_of S t) \<Longrightarrow> t_state (tcb_of S t) = TS_Ready \<Longrightarrow> t \<in> queued S \<union> X"
    and "system_ok S" "slots_ok S"
  shows "pool_inv X S"
  using assms unfolding pool_inv_def by blast

lemma slots_okI:
  assumes "s_initialized (k_stacks S)" "length (s_slot_in_use (k_stacks S)) = 64"
    and "\<And>t. t < 64 \<Longrightarrow> t_active (tcb_of S t) \<Longrightarrow> 0 \<le> slot_index (t_stack (tcb_of S t)) \<Longrightarrow>
       slot_index (t_stack (tcb_of S t)) < 64 \<and> s_slot_in_use (k_stacks S) ! nat (slot_index (t_stack (tcb_of S t)))"
    and "\<And>t u. t < 64 \<Longrightarrow> u < 64 \<Longrightarrow> t_active (tcb_of S t) \<Longrightarrow> t_active (tcb_of S u) \<Longrightarrow>
       0 \<le> slot_index (t_stack (tcb_of S t)) \<Longrightarrow>
       slot_index (t_stack (tcb_of S t)) = slot_index (t_stack (tcb_of S u)) \<Longrightarrow> t = u"
  shows "slots_ok S"
  using assms unfolding slots_ok_def by blast

lemma system_okI:
  assumes "s_idle_thread S = Some 1" "s_bootstrap_thread S = Some 0" "t_active (tcb_of S 0)" "t_active (tcb_of S 1)"
    "is_bootstrap (tcb_of S 0)" "\<And>t. t < 64 \<Longrightarrow> is_idle (tcb_of S t) \<longleftrightarrow> t = 1" "slot_index (t_stack (tcb_of S 0)) < 0"
    "t_state (tcb_of S 1) \<noteq> TS_Terminated" "t_state (tcb_of S 1) \<noteq> TS_Ready"
  shows "system_ok S"
  using assms unfolding system_ok_def by blast

lemma free_stack_in_use:
  assumes "s_initialized sa" "0 \<le> slot_index info" "slot_index info < 64" "s_slot_in_use sa ! nat (slot_index info)"
    and "free_stack v info sa s = (b, sa', s')"
  shows "s_initialized sa'" "s_slot_in_use sa' = (s_slot_in_use sa)[nat (slot_index info) := False]"
  using assms by (auto simp: free_stack_def Let_def MAX_STACK_SLOTS_def)

text \<open>What reclamation leaves alone: everything but the pool entries of terminated threads,
  the stack allocator, the memory and the statistics.\<close>

definition reclaim_frame :: "scheduler \<Rightarrow> scheduler \<Rightarrow> bool" where
  "reclaim_frame S S' \<longleftrightarrow> s_ready_queue S' = s_ready_queue S \<and> s_current_thread S' = s_current_thread S
     \<and> s_idle_thread S' = s_idle_thread S \<and> s_in_scheduler S' = s_in_scheduler S \<and> s_running S' = s_running S
     \<and> (\<forall>t. t_state (tcb_of S t) \<noteq> TS_Terminated \<or> Some t = s_current_thread S \<longrightarrow> tcb_of S' t = tcb_of S t)"

lemma reclaim_step_frame:
  assumes "reclaim_frame S0 S"
  shows "reclaim_frame S0 (reclaim_step i S)"
proof (cases "t_active (tcb_of S i) \<and> t_state (tcb_of S i) = TS_Terminated \<and> Some i \<noteq> s_current_thread S \<and> slot_index (t_stack (tcb_of S i)) \<ge> 0")
  case False
  then show ?thesis using assms by (simp only: reclaim_step_def Let_def if_False)
next
  case True
  obtain b sa mem where f: "free_stack (k_vmm S) (t_stack (tcb_of S i)) (k_stacks S) (k_mem S) = (b, sa, mem)"
    by (meson prod_cases3)
  have "tcb_of (reclaim_step i S) t = tcb_of S t" if "t \<noteq> i" for t
    using True f that by (simp add: reclaim_step_def Let_def)
  moreover have "t \<noteq> i" if "t_state (tcb_of S0 t) \<noteq> TS_Terminated \<or> Some t = s_current_thread S0" for t
    using assms that True unfolding reclaim_frame_def by metis
  ultimately have "\<forall>t. t_state (tcb_of S0 t) \<noteq> TS_Terminated \<or> Some t = s_current_thread S0 \<longrightarrow>
      tcb_of (reclaim_step i S) t = tcb_of S0 t" using assms unfolding reclaim_frame_def by metis
  moreover have "s_ready_queue (reclaim_step i S) = s_ready_queue S" "s_current_thread (reclaim_step i S) = s_current_thread S"
    "s_idle_thread (reclaim_step i S) = s_idle_thread S" "s_in_scheduler (reclaim_step i S) = s_in_scheduler S"
    "s_running (reclaim_step i S) = s_running S"
    using True f by (simp_all add: reclaim_step_def Let_def)
  ultimately show ?thesis using assms unfolding reclaim_frame_def by simp
qed

lemma reclaim_step_inv:
  assumes P: "pool_inv X S" and i: "i < 64"
  shows "pool_inv X (reclaim_step i S)"
proof (cases "t_active (tcb_of S i) \<and> t_state (tcb_of S i) = TS_Terminated \<and> Some i \<noteq> s_current_thread S \<and> slot_index (t_stack (tcb_of S i)) \<ge> 0")
  case False
  then show ?thesis using P by (simp only: reclaim_step_def Let_def if_False)
next
  case True
  note D = pool_invD[OF P] and Y = system_okD[OF pool_invD(8)[OF P]] and L = slots_okD[OF pool_invD(9)[OF P]]
  obtain c where c: "s_current_thread S = Some c" "c < 64" "t_active (tcb_of S c)" using D(4) by blast
  obtain b sa mem where f: "free_stack (k_vmm S) (t_stack (tcb_of S i)) (k_stacks S) (k_mem S) = (b, sa, mem)"
    by (meson prod_cases3)
  let ?S = "reclaim_step i S"
  have ne: "i \<noteq> 0" "i \<noteq> 1" "i \<noteq> c" using True Y(7,8) c(1) linorder_not_less by metis+
  have e: "tcb_of ?S t = (if t = i then (tcb_of S i)\<lparr>t_stack := empty_stack, t_active := False\<rparr> else tcb_of S t)"
    "length (s_tcb_pool ?S) = 64" "s_ready_queue ?S = s_ready_queue S" "s_current_thread ?S = Some c" "k_fault ?S = k_fault S"
    "s_idle_thread ?S = s_idle_thread S" "s_bootstrap_thread ?S = s_bootstrap_thread S" "k_stacks ?S = sa" for t
    using True f D(1) i c(1) by (auto simp: reclaim_step_def Let_def nth_list_update)
  have slot: "slot_index (t_stack (tcb_of S i)) < 64" "s_slot_in_use (k_stacks S) ! nat (slot_index (t_stack (tcb_of S i)))"
    using L(3)[OF i] True by auto
  note F = free_stack_in_use[OF L(1) _ slot f]
  have sl: "slots_ok ?S"
  proof (rule slots_okI)
    fix t assume t: "t < 64" "t_active (tcb_of ?S t)" "0 \<le> slot_index (t_stack (tcb_of ?S t))"
    then have ti: "t \<noteq> i" "t_active (tcb_of S t)" "0 \<le> slot_index (t_stack (tcb_of S t))" by (auto simp: e split: if_splits)
    then have "slot_index (t_stack (tcb_of S t)) \<noteq> slot_index (t_stack (tcb_of S i))" using L(4)[of t i] t(1) i True by auto
    then show "slot_index (t_stack (tcb_of ?S t)) < 64 \<and> s_slot_in_use (k_stacks ?S) ! nat (slot_index (t_stack (tcb_of ?S t)))"
      using L(3)[OF t(1) ti(2,3)] ti True F(2) by (simp add: e eq_nat_nat_iff)
  next
    fix t u assume "t < 64" "u < 64" "t_active (tcb_of ?S t)" "t_active (tcb_of ?S u)" "0 \<le> slot_index (t_stack (tcb_of ?S t))"
      "slot_index (t_stack (tcb_of ?S t)) = slot_index (t_stack (tcb_of ?S u))"
    then show "t = u" using L(4)[of t u] by (auto simp: e split: if_splits)
  qed (use F L True e(8) in auto)
  have sys: "system_ok ?S" by (rule system_okI) (use Y ne i in \<open>auto simp: e\<close>)
  show ?thesis
  proof (rule pool_invI[of _ c])
    fix t assume "t < 64" "t_active (tcb_of ?S t)" "t_state (tcb_of ?S t) = TS_Running"
    then show "t = c" using D(5)[of t] c(1) by (simp add: e split: if_splits)
  next
    fix t assume "t \<in> queued ?S"
    then show "t < 64 \<and> t_active (tcb_of ?S t) \<and> t_state (tcb_of ?S t) = TS_Ready \<and> t \<noteq> 1"
      using D(6)[of t] True by (auto simp: e)
  next
    fix t assume "t < 64" "t_active (tcb_of ?S t)" "t_state (tcb_of ?S t) = TS_Ready"
    then show "t \<in> queued ?S \<union> X" using D(7)[of t] by (simp add: e split: if_splits)
  qed (use D(2,3) c ne sl sys in \<open>simp_all add: e\<close>)
qed

lemma reclaim_fold:
  assumes "P s" "\<forall>x\<in>set xs. \<forall>s. P s \<longrightarrow> P (f x s)"
  shows "P (fold f xs s)"
  using assms by (induction xs arbitrary: s) auto

lemma reclaim_inv:
  assumes "pool_inv X S"
  shows "pool_inv X (reclaim_deferred_stacks S) \<and> reclaim_frame S (reclaim_deferred_stacks S)"
  unfolding reclaim_deferred_stacks_def
proof (rule reclaim_fold)
  show "pool_inv X S \<and> reclaim_frame S S" using assms by (simp add: reclaim_frame_def)
  show "\<forall>x\<in>set [0..<MAX_THREADS]. \<forall>s. pool_inv X s \<and> reclaim_frame S s \<longrightarrow>
      pool_inv X (reclaim_step x s) \<and> reclaim_frame S (reclaim_step x s)"
    using reclaim_step_inv reclaim_step_frame by (auto simp: MAX_THREADS_def)
qed

section \<open>Dispatching\<close>

lemma pool_inv_update [simp]:
  "pool_inv X (S\<lparr>s_in_scheduler := b\<rparr>) = pool_inv X S" "pool_inv X (S\<lparr>s_stats := st\<rparr>) = pool_inv X S"
  "pool_inv X (S\<lparr>s_preemption_in_progress := b\<rparr>) = pool_inv X S" "pool_inv X (S\<lparr>s_running := b\<rparr>) = pool_inv X S"
  by (simp_all add: pool_inv_def system_ok_def slots_ok_def)

lemma pool_inv_benign:
  assumes "\<And>b. t_state (f b) = t_state b \<and> t_active (f b) = t_active b \<and> is_idle (f b) = is_idle b
      \<and> is_bootstrap (f b) = is_bootstrap b \<and> t_stack (f b) = t_stack b"
  shows "pool_inv X (set_tcb t f S) = pool_inv X S"
proof -
  have key: "tcb_of (set_tcb t f S) u = (if u = t \<and> t < length (s_tcb_pool S) then f (tcb_of S t) else tcb_of S u)" for u
    by (cases "t < length (s_tcb_pool S)") (auto simp: nth_list_update list_update_beyond)
  have "t_state (tcb_of (set_tcb t f S) u) = t_state (tcb_of S u)" "t_active (tcb_of (set_tcb t f S) u) = t_active (tcb_of S u)"
    "is_idle (tcb_of (set_tcb t f S) u) = is_idle (tcb_of S u)" "is_bootstrap (tcb_of (set_tcb t f S) u) = is_bootstrap (tcb_of S u)"
    "t_stack (tcb_of (set_tcb t f S) u) = t_stack (tcb_of S u)" for u
    by (simp_all add: key assms del: set_tcb_simps(1))
  then show ?thesis unfolding pool_inv_def system_ok_def slots_ok_def by (simp del: set_tcb_simps(1)) (simp add: set_tcb_simps(1))
qed

text \<open>Changing the state of one thread.\<close>

lemma tcb_set_state:
  assumes "length (s_tcb_pool S) = 64" "n < 64"
  shows "tcb_of (set_tcb n (\<lambda>t. t\<lparr>t_state := st\<rparr>) S) u = (if u = n then (tcb_of S n)\<lparr>t_state := st\<rparr> else tcb_of S u)"
  using assms by (simp add: nth_list_update)

lemma set_state_inv:
  assumes P: "pool_inv X S" and n: "n < 64" and q: "n \<notin> queued S"
    and st: "st = TS_Ready \<Longrightarrow> n \<in> Y" "st = TS_Running \<Longrightarrow> s_current_thread S = Some n"
      "n = 1 \<Longrightarrow> st \<noteq> TS_Terminated \<and> st \<noteq> TS_Ready" and X: "X - {n} \<subseteq> Y"
  shows "pool_inv Y (set_tcb n (\<lambda>t. t\<lparr>t_state := st\<rparr>) S)"
proof -
  note D = pool_invD[OF P] and S8 = system_okD[OF pool_invD(8)[OF P]]
  note e = tcb_set_state[OF D(1) n]
  let ?S = "set_tcb n (\<lambda>t. t\<lparr>t_state := st\<rparr>) S"
  obtain c where c: "s_current_thread S = Some c" "c < 64" "t_active (tcb_of S c)" using D(4) by blast
  have sys: "system_ok ?S" by (rule system_okI) (use S8 st(3) in \<open>auto simp: e simp del: set_tcb_simps(1)\<close>)
  have fld: "t_active (tcb_of ?S x) = t_active (tcb_of S x)" "t_stack (tcb_of ?S x) = t_stack (tcb_of S x)" for x
    by (simp_all add: e del: set_tcb_simps(1))
  have sl: "slots_ok ?S" using pool_invD(9)[OF P] unfolding slots_ok_def fld set_tcb_simps(8) .
  show ?thesis
  proof (rule pool_invI[of _ c])
    fix t assume "t < 64" "t_active (tcb_of ?S t)" "t_state (tcb_of ?S t) = TS_Running"
    then show "t = c" using D(5)[of t] c(1) st(2) by (simp add: e split: if_splits del: set_tcb_simps(1))
  next
    fix t assume "t \<in> queued ?S"
    then show "t < 64 \<and> t_active (tcb_of ?S t) \<and> t_state (tcb_of ?S t) = TS_Ready \<and> t \<noteq> 1"
      using D(6)[of t] q by (auto simp: e simp del: set_tcb_simps(1))
  next
    fix t assume "t < 64" "t_active (tcb_of ?S t)" "t_state (tcb_of ?S t) = TS_Ready"
    then show "t \<in> queued ?S \<union> Y" using D(7)[of t] st(1) X by (auto simp: e split: if_splits simp del: set_tcb_simps(1))
  next
    show "t_active (tcb_of ?S c)" using c(3) fld(1) by blast
  qed (use D(1-3) c sl sys in simp_all)
qed

lemma pool_inv_queue:
  assumes P: "pool_inv X S" and q: "rq_inv q"
    and sub: "\<And>t. t \<in> set (rq_items q) \<Longrightarrow> t < 64 \<and> t_active (tcb_of S t) \<and> t_state (tcb_of S t) = TS_Ready \<and> t \<noteq> 1"
    and sup: "queued S \<union> X \<subseteq> set (rq_items q) \<union> Y"
  shows "pool_inv Y (S\<lparr>s_ready_queue := q\<rparr>)"
proof -
  note D = pool_invD[OF P]
  obtain c where c: "s_current_thread S = Some c" "c < 64" "t_active (tcb_of S c)" using D(4) by blast
  have "system_ok (S\<lparr>s_ready_queue := q\<rparr>)" "slots_ok (S\<lparr>s_ready_queue := q\<rparr>)"
    using D(8,9) by (simp_all add: system_ok_def slots_ok_def)
  note sys = this
  show ?thesis
  proof (rule pool_invI[of _ c])
    fix t assume "t < 64" "t_active (tcb_of (S\<lparr>s_ready_queue := q\<rparr>) t)" "t_state (tcb_of (S\<lparr>s_ready_queue := q\<rparr>) t) = TS_Running"
    then show "t = c" using D(5)[of t] c(1) by simp
  next
    fix t assume "t < 64" "t_active (tcb_of (S\<lparr>s_ready_queue := q\<rparr>) t)" "t_state (tcb_of (S\<lparr>s_ready_queue := q\<rparr>) t) = TS_Ready"
    then have "t \<in> queued S \<union> X" using D(7)[of t] by simp
    then show "t \<in> queued (S\<lparr>s_ready_queue := q\<rparr>) \<union> Y" using sup by auto
  next
    fix t assume "t \<in> queued (S\<lparr>s_ready_queue := q\<rparr>)"
    then show "t < 64 \<and> t_active (tcb_of (S\<lparr>s_ready_queue := q\<rparr>) t) \<and> t_state (tcb_of (S\<lparr>s_ready_queue := q\<rparr>) t) = TS_Ready \<and> t \<noteq> 1"
      using sub[of t] by simp
  qed (use D(1,3) c q sys in simp_all)
qed

lemma queue_room:
  assumes P: "pool_inv X S" and t: "t < 64" "t \<notin> queued S"
  shows "length (rq_items (s_ready_queue S)) < RQ_CAPACITY"
proof -
  note D = pool_invD[OF P]
  have "queued S \<subseteq> {..<64} - {t}" using D(6) t(2) by auto
  then have "card (queued S) \<le> card ({..<64} - {t})" by (intro card_mono) simp_all
  then show ?thesis using t(1) rq_invD(6)[OF D(2)] by (simp add: distinct_card RQ_CAPACITY_def)
qed

lemma enqueue_inv:
  assumes P: "pool_inv X S" and t: "t < 64" "t \<notin> queued S" "t_active (tcb_of S t)" "t_state (tcb_of S t) = TS_Ready" "t \<noteq> 1"
  defines "q \<equiv> snd (rq_enqueue (s_tcb_pool S) (Some t) (s_ready_queue S))"
  shows "pool_inv (X - {t}) (S\<lparr>s_ready_queue := q\<rparr>)" "rq_items q = rq_items (s_ready_queue S) @ [t]"
    "fst (rq_enqueue (s_tcb_pool S) (Some t) (s_ready_queue S))"
proof -
  note D = pool_invD[OF P]
  obtain b where b: "rq_enqueue (s_tcb_pool S) (Some t) (s_ready_queue S) = (b, q)" unfolding q_def by (metis prod.collapse)
  note E = rq_enqueue_spec[OF D(2) b]
  have bt: "b" using E t queue_room[OF P t(1,2)] by simp
  then show i: "rq_items q = rq_items (s_ready_queue S) @ [t]" using E by simp
  show "fst (rq_enqueue (s_tcb_pool S) (Some t) (s_ready_queue S))" using b bt by simp
  show "pool_inv (X - {t}) (S\<lparr>s_ready_queue := q\<rparr>)"
    by (rule pool_inv_queue[OF P]) (use E D(6) t i in auto)
qed

lemma dequeue_inv:
  assumes P: "pool_inv {} S" and i: "rq_items (s_ready_queue S) = n # ts"
  shows "\<exists>q. rq_dequeue (s_ready_queue S) = (Some n, q) \<and> rq_items q = ts \<and> n \<notin> set ts \<and> n < 64
    \<and> pool_inv {n} (S\<lparr>s_ready_queue := q\<rparr>)"
proof -
  note D = pool_invD[OF P]
  obtain q where q: "rq_dequeue (s_ready_queue S) = (Some n, q)" "rq_inv q" "rq_items q = ts"
    using rq_dequeue_head[OF D(2) i] by blast
  have "n \<notin> set ts" using rq_invD(6)[OF D(2)] i by simp
  moreover have "n < 64" using D(6)[of n] i by simp
  moreover have "pool_inv {n} (S\<lparr>s_ready_queue := q\<rparr>)"
    by (rule pool_inv_queue[OF P q(2)]) (use D(6) i q(3) in auto)
  ultimately show ?thesis using q by blast
qed

definition none_running :: "scheduler \<Rightarrow> bool" where
  "none_running S \<longleftrightarrow> (\<forall>t<64. t_active (tcb_of S t) \<longrightarrow> t_state (tcb_of S t) \<noteq> TS_Running)"

lemma none_running_set:
  assumes P: "pool_inv X S" and c: "s_current_thread S = Some c" and st: "st \<noteq> TS_Running"
  shows "none_running (set_tcb c (\<lambda>t. t\<lparr>t_state := st\<rparr>) S)"
  unfolding none_running_def
proof (intro allI impI)
  note D = pool_invD[OF P]
  have c64: "c < 64" using D(4) c by auto
  fix t assume t: "t < (64::nat)" "t_active (tcb_of (set_tcb c (\<lambda>t. t\<lparr>t_state := st\<rparr>) S) t)"
  show "t_state (tcb_of (set_tcb c (\<lambda>t. t\<lparr>t_state := st\<rparr>) S) t) \<noteq> TS_Running"
  proof (cases "t = c")
    case True
    then show ?thesis using st D(1) c64 by simp
  next
    case False
    then show ?thesis using D(5)[of t] t c by auto
  qed
qed

lemma put_back_inv:
  assumes P: "pool_inv {n} S" and c: "s_current_thread S = Some c" "c \<noteq> n" and n: "n < 64" "n \<notin> queued S"
  defines "S' \<equiv> put_back (Some c) S"
  shows "pool_inv {n} S' \<and> none_running S' \<and> n \<notin> queued S' \<and> tcb_of S' n = tcb_of S n
    \<and> s_current_thread S' = Some c \<and> s_running S' = s_running S
    \<and> rq_items (s_ready_queue S') = rq_items (s_ready_queue S) @
        (if t_state (tcb_of S c) = TS_Running \<and> c \<noteq> 1 then [c] else [])"
proof -
  note D = pool_invD[OF P]
  have c64: "c < 64" "t_active (tcb_of S c)" using D(4) c(1) by auto
  have idle: "is_idle (tcb_of S c) \<longleftrightarrow> c = 1" using system_okD(6)[OF D(8) c64(1)] .
  note e = tcb_set_state[OF D(1) c64(1)]
  have only: "t = c" if "t < 64" "t_active (tcb_of S t)" "t_state (tcb_of S t) = TS_Running" for t
    using D(5)[OF that] c(1) by simp
  consider (run) "t_state (tcb_of S c) = TS_Running" "c \<noteq> 1" | (idle) "t_state (tcb_of S c) = TS_Running" "c = 1"
    | (other) "t_state (tcb_of S c) \<noteq> TS_Running" by blast
  then show ?thesis
  proof cases
    case run
    define S1 where "S1 = set_tcb c (\<lambda>t. t\<lparr>t_state := TS_Ready\<rparr>) S"
    have q: "c \<notin> queued S" using D(6)[of c] run(1) by auto
    have "pool_inv {n, c} S1" unfolding S1_def by (rule set_state_inv[OF P c64(1) q]) (use run in auto)
    note E = enqueue_inv[OF this c64(1), folded S1_def]
    have S': "S' = S1\<lparr>s_ready_queue := snd (rq_enqueue (s_tcb_pool S1) (Some c) (s_ready_queue S1))\<rparr>"
      using run idle by (simp add: S'_def put_back_def S1_def Let_def)
    have s1: "c \<notin> queued S1" "t_active (tcb_of S1 c)" "t_state (tcb_of S1 c) = TS_Ready"
      using q c64(2) by (simp_all add: S1_def e del: set_tcb_simps(1))
    note E' = E[OF s1 run(2)]
    have "none_running S'" using none_running_set[OF P c(1), of TS_Ready] unfolding S' S1_def none_running_def by simp
    moreover have "{n, c} - {c} = {n}" using c(2) by auto
    ultimately show ?thesis using E' S' run c n by (auto simp: S1_def e simp del: set_tcb_simps(1))
  next
    case idle
    have "pool_inv {n} S'" "S' = set_tcb c (\<lambda>t. t\<lparr>t_state := TS_Idle\<rparr>) S"
      using set_state_inv[OF P c64(1), of TS_Idle "{n}"] idle D(6)[of c] \<open>is_idle (tcb_of S c) \<longleftrightarrow> c = 1\<close>
      by (auto simp: S'_def put_back_def)
    moreover have "none_running S'" unfolding calculation(2) by (rule none_running_set[OF P c(1)]) simp
    moreover have "tcb_of S' n = tcb_of S n" using c(2) unfolding calculation(2) by simp
    ultimately show ?thesis using idle(2) c(1) n by simp
  next
    case other
    then have "S' = S" by (simp add: S'_def put_back_def)
    moreover have "none_running S" unfolding none_running_def using only other by blast
    ultimately show ?thesis using P other c n by simp
  qed
qed

lemma pool_inv_cong:
  assumes "s_tcb_pool S' = s_tcb_pool S" "s_ready_queue S' = s_ready_queue S" "s_current_thread S' = s_current_thread S"
    "s_idle_thread S' = s_idle_thread S" "s_bootstrap_thread S' = s_bootstrap_thread S" "k_stacks S' = k_stacks S" "k_fault S' = k_fault S"
  shows "pool_inv X S' = pool_inv X S"
  unfolding pool_inv_def system_ok_def slots_ok_def assms ..

lemma pool_inv_mono: "pool_inv X S \<Longrightarrow> X \<subseteq> Y \<Longrightarrow> pool_inv Y S"
  unfolding pool_inv_def by blast

lemma current_inv:
  assumes P: "pool_inv X S" and n: "n < 64" "t_active (tcb_of S n)" and r: "none_running S"
  shows "pool_inv X (S\<lparr>s_current_thread := Some n\<rparr>)"
proof -
  note D = pool_invD[OF P]
  have sys: "system_ok (S\<lparr>s_current_thread := Some n\<rparr>)" "slots_ok (S\<lparr>s_current_thread := Some n\<rparr>)"
    using D(8,9) by (simp_all add: system_ok_def slots_ok_def)
  show ?thesis
  proof (rule pool_invI[of _ n])
    fix t assume "t < 64" "t_active (tcb_of (S\<lparr>s_current_thread := Some n\<rparr>) t)" "t_state (tcb_of (S\<lparr>s_current_thread := Some n\<rparr>) t) = TS_Running"
    then show "t = n" using r unfolding none_running_def by simp
  next
    fix t assume "t \<in> queued (S\<lparr>s_current_thread := Some n\<rparr>)"
    then show "t < 64 \<and> t_active (tcb_of (S\<lparr>s_current_thread := Some n\<rparr>) t) \<and> t_state (tcb_of (S\<lparr>s_current_thread := Some n\<rparr>) t) = TS_Ready \<and> t \<noteq> 1"
      using D(6)[of t] by simp
  next
    fix t assume "t < 64" "t_active (tcb_of (S\<lparr>s_current_thread := Some n\<rparr>) t)" "t_state (tcb_of (S\<lparr>s_current_thread := Some n\<rparr>) t) = TS_Ready"
    then show "t \<in> queued (S\<lparr>s_current_thread := Some n\<rparr>) \<union> X" using D(7)[of t] by simp
  qed (use D(1-3) n sys in simp_all)
qed

lemma run_inv:
  assumes P: "pool_inv {n} S" and n: "n < 64" "t_active (tcb_of S n)" "n \<notin> queued S" and c: "s_current_thread S = Some n"
  shows "pool_inv {} (set_tcb n (\<lambda>t. t\<lparr>t_state := TS_Running\<rparr>) S)"
  by (rule set_state_inv[OF P n(1,3)]) (use c in auto)

lemma switch_to_inv:
  fixes c :: nat
  assumes P: "pool_inv {n} S" and n: "n < 64" "t_active (tcb_of S n)" "n \<notin> queued S" and r: "none_running S"
  defines "S' \<equiv> switch_to (Some c) n S"
  shows "sched_inv S'" "s_current_thread S' = Some n" "rq_items (s_ready_queue S') = rq_items (s_ready_queue S)"
    "s_running S' = s_running S"
proof -
  define C where "C = S\<lparr>s_current_thread := Some n\<rparr>"
  define R where "R = set_tcb n (\<lambda>t. t\<lparr>t_state := TS_Running\<rparr>) C"
  define B where "B = set_tcb n (\<lambda>t. t\<lparr>ticks_consumed := 0, switch_count := switch_count t + 1\<rparr>) R"
  have len: "length (s_tcb_pool S) = 64" using pool_invD(1)[OF P] .
  have "pool_inv {n} C" unfolding C_def by (rule current_inv[OF P n(1,2) r])
  then have "pool_inv {} R" unfolding R_def by (rule run_inv) (use n in \<open>simp_all add: C_def\<close>)
  then have "pool_inv {} B" unfolding B_def by (subst pool_inv_benign) simp_all
  moreover have "s_tcb_pool S' = s_tcb_pool B" "s_ready_queue S' = s_ready_queue B" "s_current_thread S' = s_current_thread B"
    "s_idle_thread S' = s_idle_thread B" "s_bootstrap_thread S' = s_bootstrap_thread B" "k_stacks S' = k_stacks B" "k_fault S' = k_fault B"
    using len n(1) by (simp_all add: S'_def switch_to_def Let_def B_def R_def C_def)
  ultimately have I: "pool_inv {} S'" using pool_inv_cong[of S' B] by simp
  show cur: "s_current_thread S' = Some n" and "rq_items (s_ready_queue S') = rq_items (s_ready_queue S)"
    "s_running S' = s_running S"
    by (simp_all add: S'_def switch_to_def Let_def)
  have "t_state (tcb_of S' n) = TS_Running" "\<not> s_in_scheduler S'"
    using len n(1) by (simp_all add: S'_def switch_to_def Let_def)
  then show "sched_inv S'" using I cur by (simp add: sched_inv_def)
qed

lemma dispatch_inv:
  assumes P: "pool_inv {n} S" and c: "s_current_thread S = Some c" and n: "n < 64" "t_active (tcb_of S n)" "n \<notin> queued S"
  defines "S' \<equiv> dispatch (Some c) (Some n) S"
  shows "sched_inv S' \<and> s_current_thread S' = Some n \<and> s_running S' = s_running S
    \<and> rq_items (s_ready_queue S') = rq_items (s_ready_queue S) @
        (if c \<noteq> n \<and> t_state (tcb_of S c) = TS_Running \<and> c \<noteq> 1 then [c] else [])"
proof (cases "c = n")
  case True
  have "pool_inv {} (set_tcb n (\<lambda>t. t\<lparr>t_state := TS_Running\<rparr>) S)" using run_inv[OF P n] c True by simp
  moreover have "length (s_tcb_pool S) = 64" using pool_invD(1)[OF P] .
  ultimately show ?thesis using True c n(1) by (simp add: S'_def dispatch_def sched_inv_def)
next
  case False
  note B = put_back_inv[OF P c False n(1,3)]
  have "S' = switch_to (Some c) n (put_back (Some c) S)" using False by (simp add: S'_def dispatch_def)
  then show ?thesis using switch_to_inv[of n "put_back (Some c) S" c] B n False by simp
qed

lemma schedule_inv:
  assumes P: "pool_inv {} S" and r: "s_running S" "\<not> s_in_scheduler S" and c: "s_current_thread S = Some c"
  shows "sched_inv (schedule S) \<and> s_running (schedule S) \<and>
    (case rq_items (s_ready_queue S) of
       [] \<Rightarrow> s_current_thread (schedule S) = Some (if t_state (tcb_of S c) = TS_Running then c else 1)
             \<and> rq_items (s_ready_queue (schedule S)) = []
     | n # ts \<Rightarrow> s_current_thread (schedule S) = Some n
             \<and> rq_items (s_ready_queue (schedule S)) = ts @ (if c \<noteq> n \<and> t_state (tcb_of S c) = TS_Running \<and> c \<noteq> 1 then [c] else []))"
proof -
  define S1 where "S1 = reclaim_deferred_stacks (S\<lparr>s_in_scheduler := True\<rparr>)"
  have R: "pool_inv {} S1" "reclaim_frame (S\<lparr>s_in_scheduler := True\<rparr>) S1"
    using reclaim_inv[of "{}" "S\<lparr>s_in_scheduler := True\<rparr>"] P by (simp_all add: S1_def)
  have f: "s_ready_queue S1 = s_ready_queue S" "s_current_thread S1 = Some c" "s_running S1" "tcb_of S1 c = tcb_of S c"
    using R(2) c r(1) unfolding reclaim_frame_def by simp_all
  note D = pool_invD[OF R(1)] and Y = system_okD[OF pool_invD(8)[OF R(1)]]
  have c64: "c < 64" "t_active (tcb_of S1 c)" using D(4) f(2) by auto
  show ?thesis
  proof (cases "rq_items (s_ready_queue S)")
    case Nil
    have dq: "rq_dequeue (s_ready_queue S1) = (None, s_ready_queue S1)" using rq_dequeue_empty[OF D(2)] Nil f(1) by simp
    have nr: "t_state (tcb_of S1 c) \<noteq> TS_Ready" using D(7)[OF c64] Nil f(1) by auto
    show ?thesis
    proof (cases "t_state (tcb_of S c) = TS_Running")
      case True
      have "schedule S = (set_tcb c (\<lambda>t. t\<lparr>t_state := TS_Running\<rparr>) S1)\<lparr>s_in_scheduler := False\<rparr>"
        using r True dq f(2-4) by (simp add: schedule_def S1_def[symmetric] Let_def)
      moreover have "pool_inv {} (set_tcb c (\<lambda>t. t\<lparr>t_state := TS_Running\<rparr>) S1)"
        using set_state_inv[OF R(1) c64(1), of TS_Running "{}"] Nil f(1,2) by simp
      ultimately show ?thesis using Nil f True D(1) c64(1) by (simp add: sched_inv_def)
    next
      case False
      have "schedule S = dispatch (Some c) (Some 1) S1"
        using r False nr dq f(2-4) Y(1) by (simp add: schedule_def S1_def[symmetric] Let_def)
      moreover have "1 \<notin> queued S1" using D(6)[of 1] by blast
      ultimately show ?thesis
        using dispatch_inv[OF pool_inv_mono[OF R(1)] f(2), of 1] Y(4) Nil f False by simp
    qed
  next
    case (Cons n ts)
    obtain q where q: "rq_dequeue (s_ready_queue S1) = (Some n, q)" "rq_items q = ts" "n \<notin> set ts" "n < 64"
      "pool_inv {n} (S1\<lparr>s_ready_queue := q\<rparr>)"
      using dequeue_inv[OF R(1)] Cons f(1) by auto
    have "schedule S = dispatch (Some c) (Some n) (S1\<lparr>s_ready_queue := q\<rparr>)"
      using r q(1) f(2) by (simp add: schedule_def S1_def[symmetric] Let_def)
    moreover have "t_active (tcb_of S1 n)" using D(6)[of n] Cons f(1) by simp
    ultimately show ?thesis
      using dispatch_inv[OF q(5), of c] f q Cons by simp
  qed
qed

lemma running_in_pool:
  assumes "sched_inv S"
  shows "\<exists>c<64. s_current_thread S = Some c \<and> t_active (tcb_of S c) \<and> t_state (tcb_of S c) = TS_Running \<and> c \<notin> queued S"
proof -
  have P: "pool_inv {} S" using assms by (simp add: sched_inv_def)
  obtain c where c: "c < 64" "s_current_thread S = Some c" "t_active (tcb_of S c)" "t_state (tcb_of S c) = TS_Running"
    using pool_invD(4)[OF P] assms by (auto simp: sched_inv_def)
  then show ?thesis using pool_invD(6)[OF P, of c] by auto
qed

lemma schedule_sched_inv:
  assumes "sched_inv S"
  shows "sched_inv (schedule S)"
proof (cases "s_running S")
  case True
  then show ?thesis using schedule_inv[of S] running_in_pool[OF assms] assms by (auto simp: sched_inv_def)
next
  case False
  then show ?thesis using assms by (simp add: schedule_def)
qed

lemma sched_inv_benign:
  assumes "\<And>b. t_state (f b) = t_state b \<and> t_active (f b) = t_active b \<and> is_idle (f b) = is_idle b
      \<and> is_bootstrap (f b) = is_bootstrap b \<and> t_stack (f b) = t_stack b"
  shows "sched_inv (set_tcb t f S) = sched_inv S"
proof -
  have "t_state (tcb_of (set_tcb t f S) u) = t_state (tcb_of S u)" for u
    using assms by (cases "t < length (s_tcb_pool S)") (auto simp: nth_list_update list_update_beyond)
  then show ?thesis by (simp add: sched_inv_def pool_inv_benign[OF assms] del: set_tcb_simps(1))
qed

lemma sched_inv_update [simp]:
  "sched_inv (S\<lparr>s_stats := st\<rparr>) = sched_inv S" "sched_inv (S\<lparr>s_preemption_in_progress := b\<rparr>) = sched_inv S"
  "sched_inv (S\<lparr>s_running := b\<rparr>) = sched_inv S"
  by (simp_all add: sched_inv_def)

lemma yield_inv:
  assumes "sched_inv S"
  shows "sched_inv (yield S)"
  using assms schedule_sched_inv by (auto simp: yield_def sched_inv_benign split: option.split)

lemma tick_inv:
  assumes "sched_inv S"
  shows "sched_inv (on_timer_tick S)"
  using assms schedule_sched_inv by (auto simp: on_timer_tick_def sched_inv_benign Let_def split: option.split)

section \<open>Termination, blocking and creation\<close>

lemma exit_inv:
  assumes I: "sched_inv S" and n: "s_current_thread S \<noteq> Some 1"
  shows "sched_inv (exit_thread S)"
proof -
  obtain c where c: "c < 64" "s_current_thread S = Some c" "t_active (tcb_of S c)" "c \<notin> queued S" using running_in_pool[OF I] by blast
  have P: "pool_inv {} S" using I by (simp add: sched_inv_def)
  define T where "T = set_tcb c (\<lambda>t. t\<lparr>t_state := TS_Terminated\<rparr>) S"
  have PT: "pool_inv {} T" "none_running T" unfolding T_def
    using set_state_inv[OF P c(1,4), of TS_Terminated "{}"] none_running_set[OF P c(2), of TS_Terminated] n c(2) by auto
  define S2 where "S2 = reclaim_deferred_stacks (T\<lparr>s_in_scheduler := True\<rparr>)"
  have R: "pool_inv {} S2" "reclaim_frame (T\<lparr>s_in_scheduler := True\<rparr>) S2"
    using reclaim_inv[of "{}" "T\<lparr>s_in_scheduler := True\<rparr>"] PT(1) by (simp_all add: S2_def)
  note D = pool_invD[OF R(1)] and Y = system_okD[OF pool_invD(8)[OF R(1)]]
  have cur: "s_current_thread S2 = Some c" "tcb_of S2 c = tcb_of T c"
    using R(2) c(2) unfolding reclaim_frame_def by (simp_all add: T_def)
  have nr: "none_running S2"
    unfolding none_running_def
  proof (intro allI impI notI)
    fix t assume "t < 64" "t_active (tcb_of S2 t)" "t_state (tcb_of S2 t) = TS_Running"
    then have "t = c" using D(5)[of t] cur(1) by simp
    then show False using \<open>t_state (tcb_of S2 t) = TS_Running\<close> cur(2) pool_invD(1)[OF P] c(1) by (simp add: T_def)
  qed
  have e: "exit_thread S = (let (nxt, q) = rq_dequeue (s_ready_queue S2) in
      case (case nxt of None \<Rightarrow> s_idle_thread (S2\<lparr>s_ready_queue := q\<rparr>) | Some n \<Rightarrow> Some n) of
        None \<Rightarrow> S2\<lparr>s_ready_queue := q, k_fault := True\<rparr> | Some n \<Rightarrow> switch_to (Some c) n (S2\<lparr>s_ready_queue := q\<rparr>))"
    unfolding exit_thread_def Let_def c(2) option.case T_def[symmetric] S2_def[symmetric] ..
  show ?thesis
  proof (cases "rq_items (s_ready_queue S2)")
    case Nil
    then have "exit_thread S = switch_to (Some c) 1 S2" using e rq_dequeue_empty[OF D(2)] Y(1) by simp
    moreover have "1 \<notin> queued S2" using Nil by simp
    ultimately show ?thesis using switch_to_inv(1)[OF pool_inv_mono[OF R(1)], of 1 c] Y(4) nr by simp
  next
    case (Cons m ts)
    obtain q where q: "rq_dequeue (s_ready_queue S2) = (Some m, q)" "rq_items q = ts" "m \<notin> set ts" "m < 64"
      "pool_inv {m} (S2\<lparr>s_ready_queue := q\<rparr>)" using dequeue_inv[OF R(1) Cons] by blast
    have "exit_thread S = switch_to (Some c) m (S2\<lparr>s_ready_queue := q\<rparr>)" using e q(1) by simp
    moreover have "t_active (tcb_of S2 m)" using D(6)[of m] Cons by simp
    ultimately show ?thesis using switch_to_inv(1)[OF q(5,4), of c] q nr by (simp add: none_running_def)
  qed
qed

lemma block_inv:
  assumes I: "sched_inv S" and r: "thread = None \<or> thread = s_current_thread S \<longrightarrow> s_running S"
    and t: "\<forall>t. thread = Some t \<longrightarrow> t < 64"
  shows "sched_inv (block thread S)"
proof -
  obtain c where c: "c < 64" "s_current_thread S = Some c" "t_state (tcb_of S c) = TS_Running" "c \<notin> queued S" using running_in_pool[OF I] by blast
  have P: "pool_inv {} S" and ns: "\<not> s_in_scheduler S" using I by (simp_all add: sched_inv_def)
  define target where "target = (case thread of None \<Rightarrow> c | Some t \<Rightarrow> t)"
  have tg: "(case thread of None \<Rightarrow> s_current_thread S | Some t \<Rightarrow> Some t) = Some target" "target < 64"
    using c t by (auto simp: target_def split: option.split)
  show ?thesis
  proof (cases "target = c")
    case True
    let ?B = "set_tcb c (\<lambda>t. t\<lparr>t_state := TS_Blocked\<rparr>) S"
    have run: "s_running S" using True r c(2) by (cases thread) (simp_all add: target_def)
    have "pool_inv {} ?B" by (rule set_state_inv[OF P c(1,4)]) auto
    then have "sched_inv (schedule ?B)" using schedule_inv[of ?B c] run ns c(2) by simp
    then show ?thesis using True c(2) tg(1) by (simp add: block_def)
  next
    case False
    obtain b q where q: "rq_remove (Some target) (s_ready_queue S) = (b, q)" by fastforce
    note E = rq_remove_spec[OF pool_invD(2)[OF P] q]
    have dq: "set (rq_items q) = queued S - {target}" using E rq_invD(6)[OF pool_invD(2)[OF P]] by (simp add: set_remove1_eq)
    have "pool_inv {target} (S\<lparr>s_ready_queue := q\<rparr>)"
      by (rule pool_inv_queue[OF P]) (use E dq pool_invD(6)[OF P] in auto)
    then have "pool_inv {} (set_tcb target (\<lambda>t. t\<lparr>t_state := TS_Blocked\<rparr>) (S\<lparr>s_ready_queue := q\<rparr>))"
      by (rule set_state_inv[OF _ tg(2)]) (use dq in auto)
    then show ?thesis using False c ns q tg(1) pool_invD(1)[OF P] by (simp add: block_def sched_inv_def)
  qed
qed

lemma unblock_inv:
  assumes I: "sched_inv S" and t: "\<forall>t. thread = Some t \<longrightarrow> t < 64
      \<and> (t_state (tcb_of S t) = TS_Blocked \<longrightarrow> t_active (tcb_of S t) \<and> t \<noteq> 1)"
  shows "sched_inv (unblock thread S)"
proof (cases "\<exists>t. thread = Some t \<and> t_state (tcb_of S t) = TS_Blocked")
  case False
  then show ?thesis using I by (auto simp: unblock_def split: option.split)
next
  case True
  then obtain t where t': "thread = Some t" "t_state (tcb_of S t) = TS_Blocked" "t < 64" "t_active (tcb_of S t)" "t \<noteq> 1" using t by blast
  have P: "pool_inv {} S" and ns: "\<not> s_in_scheduler S" using I by (simp_all add: sched_inv_def)
  obtain c where c: "c < 64" "s_current_thread S = Some c" "t_state (tcb_of S c) = TS_Running" "c \<notin> queued S" using running_in_pool[OF I] by blast
  note e = tcb_set_state[OF pool_invD(1)[OF P] t'(3)]
  define R where "R = set_tcb t (\<lambda>b. b\<lparr>t_state := TS_Ready\<rparr>) S"
  have q: "t \<notin> queued S" using pool_invD(6)[OF P, of t] t'(2) by auto
  have "pool_inv {t} R" unfolding R_def by (rule set_state_inv[OF P t'(3) q]) (use t' in auto)
  then have "pool_inv {} (R\<lparr>s_ready_queue := snd (rq_enqueue (s_tcb_pool R) (Some t) (s_ready_queue R))\<rparr>)"
    using enqueue_inv(1)[of "{t}" R t] t' q by (simp add: R_def e del: set_tcb_simps(1))
  moreover have "unblock thread S = R\<lparr>s_ready_queue := snd (rq_enqueue (s_tcb_pool R) (Some t) (s_ready_queue R))\<rparr>"
    using t'(1,2) by (simp add: unblock_def R_def Let_def)
  moreover have "t \<noteq> c" using t'(2) c(3) by auto
  ultimately show ?thesis using c ns by (simp add: sched_inv_def R_def)
qed

lemma allocate_stack_slots:
  assumes "allocate_stack v sa s = (r, sa', s')" "length (s_slot_in_use sa) = 64"
  shows "r = None \<longrightarrow> sa' = sa"
    and "r = Some info \<longrightarrow> (\<exists>slot<64. slot_index info = int slot \<and> \<not> s_slot_in_use sa ! slot
      \<and> s_slot_in_use sa' = (s_slot_in_use sa)[slot := True] \<and> s_initialized sa' = s_initialized sa)"
proof -
  have "slot < 64 \<and> \<not> s_slot_in_use sa ! slot" if "find_free_slot (s_slot_in_use sa) = Some slot" for slot
    using find_free_slot_Some[OF that] by (simp add: MAX_STACK_SLOTS_def)
  then show "r = None \<longrightarrow> sa' = sa" "r = Some info \<longrightarrow> (\<exists>slot<64. slot_index info = int slot \<and> \<not> s_slot_in_use sa ! slot
      \<and> s_slot_in_use sa' = (s_slot_in_use sa)[slot := True] \<and> s_initialized sa' = s_initialized sa)"
    using assms(1) by (auto simp: allocate_stack_def Let_def split: if_splits option.splits prod.splits)
qed

text \<open>Filling an inactive pool entry, with or without making it a ready thread.\<close>

lemma fill_entry_inv:
  assumes P: "pool_inv {} S" and i: "2 \<le> i" "i < 64" "\<not> t_active (tcb_of S i)" and b: "\<not> is_idle b" "t_state b \<noteq> TS_Running"
    and sa: "s_initialized sa" "length (s_slot_in_use sa) = 64"
    and old: "\<And>k. 0 \<le> k \<Longrightarrow> k < 64 \<Longrightarrow> s_slot_in_use (k_stacks S) ! nat k \<Longrightarrow> s_slot_in_use sa ! nat k"
    and new: "t_active b \<Longrightarrow> 0 \<le> slot_index (t_stack b) \<and> slot_index (t_stack b) < 64 \<and> s_slot_in_use sa ! nat (slot_index (t_stack b))
       \<and> \<not> s_slot_in_use (k_stacks S) ! nat (slot_index (t_stack b))"
  shows "pool_inv {i} (S\<lparr>s_tcb_pool := (s_tcb_pool S)[i := b], k_stacks := sa\<rparr>)"
proof -
  let ?S = "S\<lparr>s_tcb_pool := (s_tcb_pool S)[i := b], k_stacks := sa\<rparr>"
  note D = pool_invD[OF P] and Y = system_okD[OF pool_invD(8)[OF P]] and L = slots_okD[OF pool_invD(9)[OF P]]
  have e: "tcb_of ?S t = (if t = i then b else tcb_of S t)" for t using D(1) i(2) by (simp add: nth_list_update)
  obtain c where c: "s_current_thread S = Some c" "c < 64" "t_active (tcb_of S c)" using D(4) by blast
  have ne: "c \<noteq> i" "i \<noteq> 0" "i \<noteq> 1" using c(3) i by auto
  have sys: "system_ok ?S"
  proof (rule system_okI)
    fix t assume "t < (64::nat)"
    then show "is_idle (tcb_of ?S t) \<longleftrightarrow> t = 1" using Y(6)[of t] b(1) ne(3) unfolding e by simp
  qed (use Y ne in simp_all)
  have sl: "slots_ok ?S"
  proof (rule slots_okI)
    fix t assume t: "t < 64" "t_active (tcb_of ?S t)" "0 \<le> slot_index (t_stack (tcb_of ?S t))"
    show "slot_index (t_stack (tcb_of ?S t)) < 64 \<and> s_slot_in_use (k_stacks ?S) ! nat (slot_index (t_stack (tcb_of ?S t)))"
      using t new L(3)[of t] old[of "slot_index (t_stack (tcb_of S t))"] unfolding e by (cases "t = i") simp_all
  next
    fix t u assume t: "t < 64" "u < 64" "t_active (tcb_of ?S t)" "t_active (tcb_of ?S u)" "0 \<le> slot_index (t_stack (tcb_of ?S t))"
      "slot_index (t_stack (tcb_of ?S t)) = slot_index (t_stack (tcb_of ?S u))"
    then show "t = u" using L(4)[of t u] L(3)[of t] L(3)[of u] new unfolding e by (cases "t = i"; cases "u = i") auto
  qed (use sa in simp_all)
  show ?thesis
  proof (rule pool_invI[of _ c])
    fix t assume "t < 64" "t_active (tcb_of ?S t)" "t_state (tcb_of ?S t) = TS_Running"
    then show "t = c" using D(5)[of t] c(1) b(2) unfolding e by (cases "t = i") simp_all
  next
    fix t assume t: "t \<in> queued ?S"
    then have "t \<noteq> i" using D(6)[of t] i(3) by auto
    then show "t < 64 \<and> t_active (tcb_of ?S t) \<and> t_state (tcb_of ?S t) = TS_Ready \<and> t \<noteq> 1"
      using D(6)[of t] t unfolding e by simp
  next
    fix t assume "t < 64" "t_active (tcb_of ?S t)" "t_state (tcb_of ?S t) = TS_Ready"
    then show "t \<in> queued ?S \<union> {i}" using D(7)[of t] unfolding e by (cases "t = i") simp_all
  next
    show "t_active (tcb_of ?S c)" using c(3) ne(1) unfolding e by simp
  qed (use D(1-3) c sys sl in simp_all)
qed

lemma pool_inv_drop:
  assumes "pool_inv {i} S" "\<not> (t_active (tcb_of S i) \<and> t_state (tcb_of S i) = TS_Ready)"
  shows "pool_inv {} S"
  using assms unfolding pool_inv_def by blast

lemma find_upt: "List.find P [a..<b] = Some i \<Longrightarrow> a \<le> i \<and> i < b \<and> P i"
  by (auto simp: find_Some_iff)

lemma create_inv:
  assumes I: "sched_inv S" and e: "create_thread tramp name entry arg prio S = (r, S')"
  shows "sched_inv S' \<and> (\<forall>t. r = Some t \<longrightarrow> 2 \<le> t \<and> t < 64 \<and> \<not> t_active (tcb_of S t)
    \<and> rq_items (s_ready_queue S') = rq_items (s_ready_queue S) @ [t])"
proof (cases "entry = 0 \<or> fst (allocate_tcb S) = None")
  case True
  then have "entry = 0 \<or> allocate_tcb S = (None, S)" by (auto simp: allocate_tcb_def split: option.splits)
  then have "r = None \<and> S' = S" using e by (cases "entry = 0") (simp_all add: create_thread_def)
  then show ?thesis using I by simp
next
  case False
  then obtain i where f: "List.find (\<lambda>i. \<not> t_active (tcb_of S i)) [2..<MAX_THREADS] = Some i"
    by (auto simp: allocate_tcb_def split: option.splits)
  then have i: "2 \<le> i" "i < 64" "\<not> t_active (tcb_of S i)" using find_upt[OF f] unfolding MAX_THREADS_def by blast+
  have P: "pool_inv {} S" using I by (simp add: sched_inv_def)
  note D = pool_invD[OF P] and L = slots_okD[OF pool_invD(9)[OF P]]
  obtain c where c: "c < 64" "s_current_thread S = Some c" "t_active (tcb_of S c)" "t_state (tcb_of S c) = TS_Running" "c \<notin> queued S"
    using running_in_pool[OF I] by blast
  have ci: "c \<noteq> i" using c(3) i(3) by auto
  obtain o1 sa mem where a: "allocate_stack (k_vmm S) (k_stacks S) (k_mem S) = (o1, sa, mem)" by (meson prod_cases3)
  note A = allocate_stack_slots[OF a L(2)]
  have al: "allocate_tcb S = (Some i, set_tcb i (\<lambda>_. empty_tcb) S)" using f by (simp add: allocate_tcb_def)
  show ?thesis
  proof (cases o1)
    case None
    define b where "b = empty_tcb\<lparr>t_active := False\<rparr>"
    let ?T = "S\<lparr>s_tcb_pool := (s_tcb_pool S)[i := b], k_stacks := k_stacks S\<rparr>"
    have "pool_inv {i} ?T" by (rule fill_entry_inv[OF P i]) (use L in \<open>simp_all add: b_def empty_tcb_def\<close>)
    moreover have "\<not> t_active (tcb_of ?T i)" using D(1) i(2) by (simp add: b_def)
    ultimately have "pool_inv {} ?T" using pool_inv_drop by blast
    moreover have "r = None" "S' = set_tcb i (\<lambda>b. b\<lparr>t_active := False\<rparr>) ((set_tcb i (\<lambda>_. empty_tcb) S)\<lparr>k_stacks := k_stacks S, k_mem := mem\<rparr>)"
      using e False al a A(1) None by (auto simp: create_thread_def)
    ultimately show ?thesis using pool_inv_cong[of S' ?T "{}"] I c ci D(1) i(2)
      by (simp add: b_def sched_inv_def)
  next
    case (Some info)
    then obtain slot where sl: "slot < 64" "slot_index info = int slot" "\<not> s_slot_in_use (k_stacks S) ! slot"
      "s_slot_in_use sa = (s_slot_in_use (k_stacks S))[slot := True]" "s_initialized sa" using A(2)[of info] L(1) by auto
    define S1 where "S1 = set_tcb i (\<lambda>_. empty_tcb) S"
    define S2 where "S2 = S1\<lparr>k_stacks := sa, k_mem := mem\<rparr>"
    define fill where "fill = (\<lambda>b. init_thread_context
         (b\<lparr>t_stack := info, t_id := s_next_id S2,
            t_name := take THREAD_NAME_MAX_LEN (case name of None \<Rightarrow> ''thread'' | Some n \<Rightarrow> n),
            t_state := TS_Ready, t_priority := prio, t_active := True,
            ticks_allocated := 0, ticks_consumed := 0,
            timeslice_ticks := DEFAULT_TIMESLICE_TICKS, switch_count := 0,
            preemption_count := 0, voluntary_yield_count := 0\<rparr>) entry arg tramp)"
    define b where "b = fill empty_tcb"
    have bf: "t_state b = TS_Ready" "t_active b" "\<not> is_idle b" "t_stack b = info" by (simp_all add: b_def fill_def init_thread_context_def empty_tcb_def)
    define S3 where "S3 = set_tcb i fill (snd (allocate_id S2))"
    have p3: "s_tcb_pool S3 = (s_tcb_pool S)[i := b]" "s_ready_queue S3 = s_ready_queue S" "s_current_thread S3 = s_current_thread S"
      "s_idle_thread S3 = s_idle_thread S" "s_bootstrap_thread S3 = s_bootstrap_thread S" "k_stacks S3 = sa" "k_fault S3 = k_fault S"
      "s_in_scheduler S3 = s_in_scheduler S"
      using D(1) i(2) by (simp_all add: S3_def S2_def S1_def allocate_id_def Let_def b_def)
    let ?T = "S\<lparr>s_tcb_pool := (s_tcb_pool S)[i := b], k_stacks := sa\<rparr>"
    have "pool_inv {i} ?T"
    proof (rule fill_entry_inv[OF P i])
      fix k assume "0 \<le> k" "k < 64" "s_slot_in_use (k_stacks S) ! nat k"
      then show "s_slot_in_use sa ! nat k" using sl L(2) by (cases "nat k = slot") (simp_all add: nth_list_update)
    qed (use bf sl L in simp_all)
    then have P3: "pool_inv {i} S3" using pool_inv_cong[of S3 ?T "{i}"] p3 by simp
    have E: "pool_inv ({i} - {i}) (S3\<lparr>s_ready_queue := snd (rq_enqueue (s_tcb_pool S3) (Some i) (s_ready_queue S3))\<rparr>)"
      "rq_items (snd (rq_enqueue (s_tcb_pool S3) (Some i) (s_ready_queue S3))) = rq_items (s_ready_queue S) @ [i]"
      "fst (rq_enqueue (s_tcb_pool S3) (Some i) (s_ready_queue S3))"
      using enqueue_inv[OF P3 i(2)] bf i D(1) D(6)[of i] p3 by auto
    have S': "r = Some i" "S' = S3\<lparr>s_ready_queue := snd (rq_enqueue (s_tcb_pool S3) (Some i) (s_ready_queue S3)),
        s_stats := (s_stats S3)\<lparr>total_threads := total_threads (s_stats S3) + 1,
          active_threads := active_threads (s_stats S3) + 1,
          stack_pages_allocated := stack_pages_allocated (s_stats S3) + STACK_USABLE_PAGES\<rparr>\<rparr>"
    proof -
      have en: "entry \<noteq> 0" using False by simp
      have a2: "allocate_stack (k_vmm S1) (k_stacks S1) (k_mem S1) = (Some info, sa, mem)" using a Some by (simp add: S1_def)
      have i2: "allocate_id S2 = (s_next_id S2, snd (allocate_id S2))" by (simp add: allocate_id_def Let_def)
      have "(r, S') = (let (ok, q) = rq_enqueue (s_tcb_pool S3) (Some i) (s_ready_queue S3)
          in if \<not> ok then let (_, sa', mem') = free_stack (k_vmm S3) info (k_stacks S3) (k_mem S3)
                  in (None, set_tcb i (\<lambda>b. b\<lparr>t_active := False\<rparr>) (S3\<lparr>k_stacks := sa', k_mem := mem'\<rparr>))
             else (Some i, S3\<lparr>s_ready_queue := q,
                     s_stats := (s_stats S3)\<lparr>total_threads := total_threads (s_stats S3) + 1,
                       active_threads := active_threads (s_stats S3) + 1,
                       stack_pages_allocated := stack_pages_allocated (s_stats S3) + STACK_USABLE_PAGES\<rparr>\<rparr>))"
        unfolding e[symmetric] create_thread_def if_not_P[OF en] al S1_def[symmetric] split_conv option.case a2
          S2_def[symmetric] Let_def
        by (subst i2) (simp only: split_conv fill_def[symmetric] S3_def[symmetric])
      then show "r = Some i" "S' = S3\<lparr>s_ready_queue := snd (rq_enqueue (s_tcb_pool S3) (Some i) (s_ready_queue S3)),
        s_stats := (s_stats S3)\<lparr>total_threads := total_threads (s_stats S3) + 1,
          active_threads := active_threads (s_stats S3) + 1,
          stack_pages_allocated := stack_pages_allocated (s_stats S3) + STACK_USABLE_PAGES\<rparr>\<rparr>"
        using E(3) by (cases "rq_enqueue (s_tcb_pool S3) (Some i) (s_ready_queue S3)"; simp)+
    qed
    have "pool_inv {} S'" using E(1) unfolding S' by simp
    moreover have "t_state (tcb_of S' c) = TS_Running" "s_current_thread S' = Some c" "\<not> s_in_scheduler S'"
      using c ci p3 I unfolding S' by (simp_all add: sched_inv_def)
    ultimately show ?thesis using S' E(2) i by (simp add: sched_inv_def)
  qed
qed

section \<open>Reachable states\<close>

lemma init_inv:
  assumes f: "\<not> k_fault S0" and a: "fst (allocate_stack (k_vmm S0) stack_allocator_init (k_mem S0)) \<noteq> None"
  shows "sched_inv (scheduler_init kb kt iw tramp S0)"
proof -
  obtain info sa mem where al: "allocate_stack (k_vmm S0) stack_allocator_init (k_mem S0) = (Some info, sa, mem)"
    using a by (metis option.exhaust prod.collapse)
  have l0: "length (s_slot_in_use stack_allocator_init) = 64" "s_initialized stack_allocator_init"
    by (simp_all add: stack_allocator_init_def MAX_STACK_SLOTS_def)
  obtain slot where sl: "slot < 64" "slot_index info = int slot"
    "s_slot_in_use sa = (s_slot_in_use stack_allocator_init)[slot := True]" "s_initialized sa"
    using allocate_stack_slots(2)[OF al l0(1), of info] l0(2) by auto
  define i where "i = init_thread_context (empty_tcb\<lparr>t_id := IDLE_THREAD_ID, t_name := ''idle'', t_state := TS_Idle,
      t_priority := TP_Idle, is_idle := True, t_active := True, t_stack := info\<rparr>) iw 0 tramp"
  define b where "b = bootstrap_tcb kb kt"
  let ?S = "scheduler_init kb kt iw tramp S0"
  have i: "t_state i = TS_Idle" "is_idle i" "t_active i" "t_stack i = info" by (simp_all add: i_def init_thread_context_def)
  have b: "t_state b = TS_Running" "\<not> is_idle b" "t_active b" "is_bootstrap b" "slot_index (t_stack b) = -1"
    by (simp_all add: b_def bootstrap_tcb_def empty_stack_def empty_tcb_def)
  have e: "s_tcb_pool ?S = (replicate 64 empty_tcb)[0 := b, 1 := i]" "s_ready_queue ?S = rq_clear" "s_current_thread ?S = Some 0"
    "s_idle_thread ?S = Some 1" "s_bootstrap_thread ?S = Some 0" "k_stacks ?S = sa" "\<not> k_fault ?S" "\<not> s_in_scheduler ?S"
    using al f by (simp_all add: scheduler_init_def Let_def MAX_THREADS_def b_def i_def)
  have tc: "tcb_of ?S t = (if t = 0 then b else if t = 1 then i else empty_tcb)" if "t < 64" for t
    using that unfolding e(1) by (simp add: nth_list_update)
  have em: "\<not> t_active empty_tcb" "\<not> is_idle empty_tcb" by (simp_all add: empty_tcb_def)
  have sys: "system_ok ?S" by (rule system_okI) (use i b em in \<open>simp_all add: e(2-8) tc\<close>)
  have so: "slots_ok ?S"
  proof (rule slots_okI)
    fix t assume "t < 64" "t_active (tcb_of ?S t)" "0 \<le> slot_index (t_stack (tcb_of ?S t))"
    then have "t = 1" using em b(5) by (auto simp: tc split: if_splits)
    then show "slot_index (t_stack (tcb_of ?S t)) < 64 \<and> s_slot_in_use (k_stacks ?S) ! nat (slot_index (t_stack (tcb_of ?S t)))"
      using sl i l0 by (simp add: tc e(6))
  next
    fix t u assume t: "t < 64" "u < 64" "t_active (tcb_of ?S t)" "t_active (tcb_of ?S u)" "0 \<le> slot_index (t_stack (tcb_of ?S t))"
      "slot_index (t_stack (tcb_of ?S t)) = slot_index (t_stack (tcb_of ?S u))"
    have "t = 1" using t(1,3,5) em b(5) by (auto simp: tc split: if_splits)
    moreover have "u = 1" using t em b(5) by (auto simp: tc split: if_splits)
    ultimately show "t = u" by simp
  qed (use sl l0 in \<open>simp_all add: e(6)\<close>)
  have "pool_inv {} ?S"
  proof (rule pool_invI[of _ 0])
    fix t assume "t < 64" "t_active (tcb_of ?S t)" "t_state (tcb_of ?S t) = TS_Running"
    then show "t = 0" using em i by (auto simp: tc split: if_splits)
  next
    fix t assume "t < 64" "t_active (tcb_of ?S t)" "t_state (tcb_of ?S t) = TS_Ready"
    then show "t \<in> queued ?S \<union> {}" using em i b by (auto simp: tc split: if_splits)
  qed (use sys so em i b in \<open>simp_all add: e(2-8) tc\<close>, simp add: e(1))
  then show ?thesis using b by (simp add: sched_inv_def e(2-8) tc)
qed

text \<open>The states the scheduler can reach: from a successful initialisation through any
  sequence of its operations.  \<open>block\<close> and \<open>unblock\<close> take threads of the pool, the idle thread
  neither exits nor is unblocked, and blocking needs a started scheduler.\<close>

inductive sched_reach :: "scheduler \<Rightarrow> bool" where
  init: "\<not> k_fault S0 \<Longrightarrow> fst (allocate_stack (k_vmm S0) stack_allocator_init (k_mem S0)) \<noteq> None \<Longrightarrow>
     sched_reach (scheduler_init kb kt iw tramp S0)"
| start: "sched_reach S \<Longrightarrow> sched_reach (scheduler_start S)"
| create: "sched_reach S \<Longrightarrow> sched_reach (snd (create_thread tramp name entry arg prio S))"
| schedule: "sched_reach S \<Longrightarrow> sched_reach (schedule S)"
| yield: "sched_reach S \<Longrightarrow> sched_reach (yield S)"
| tick: "sched_reach S \<Longrightarrow> sched_reach (on_timer_tick S)"
| exit: "sched_reach S \<Longrightarrow> s_current_thread S \<noteq> Some 1 \<Longrightarrow> sched_reach (exit_thread S)"
| block: "sched_reach S \<Longrightarrow> thread = None \<or> thread = s_current_thread S \<longrightarrow> s_running S \<Longrightarrow>
     \<forall>t. thread = Some t \<longrightarrow> t < MAX_THREADS \<Longrightarrow> sched_reach (block thread S)"
| unblock: "sched_reach S \<Longrightarrow> \<forall>t. thread = Some t \<longrightarrow> t < MAX_THREADS
       \<and> (t_state (s_tcb_pool S ! t) = TS_Blocked \<longrightarrow> t_active (s_tcb_pool S ! t) \<and> t \<noteq> 1) \<Longrightarrow>
     sched_reach (unblock thread S)"

lemma reach_inv: "sched_reach S \<Longrightarrow> sched_inv S"
proof (induction rule: sched_reach.induct)
  case (init S0 kb kt iw tramp)
  then show ?case by (rule init_inv)
next
  case (start S)
  then show ?case by (simp add: scheduler_start_def)
next
  case (create S tramp name entry arg prio)
  then show ?case using create_inv by (metis prod.collapse)
next
  case (schedule S)
  then show ?case by (intro schedule_sched_inv)
next
  case (yield S)
  then show ?case by (intro yield_inv)
next
  case (tick S)
  then show ?case by (intro tick_inv)
next
  case (exit S)
  then show ?case by (intro exit_inv)
next
  case (block S thread)
  then show ?case by (intro block_inv) (simp_all add: MAX_THREADS_def)
next
  case (unblock S thread)
  then show ?case by (intro unblock_inv) (simp_all add: MAX_THREADS_def)
qed

lemma rotation:
  assumes "sched_inv S" "s_running S" "k < length (rq_items (s_ready_queue S))"
  shows "s_current_thread ((schedule ^^ Suc k) S) = Some (rq_items (s_ready_queue S) ! k)"
  using assms
proof (induction k arbitrary: S)
  case 0
  then obtain n ts where "rq_items (s_ready_queue S) = n # ts" by (cases "rq_items (s_ready_queue S)") auto
  then show ?case using schedule_inv[of S] running_in_pool[OF 0(1)] 0 by (auto simp: sched_inv_def)
next
  case (Suc k)
  then obtain n ts where i: "rq_items (s_ready_queue S) = n # ts" by (cases "rq_items (s_ready_queue S)") auto
  obtain c where c: "s_current_thread S = Some c" using running_in_pool[OF Suc(2)] by blast
  have "sched_inv (schedule S) \<and> s_running (schedule S) \<and> (\<exists>us. rq_items (s_ready_queue (schedule S)) = ts @ us)"
    using schedule_inv[of S c] Suc(2,3) c i by (auto simp: sched_inv_def)
  then obtain us where s: "sched_inv (schedule S)" "s_running (schedule S)" "rq_items (s_ready_queue (schedule S)) = ts @ us" by blast
  have "s_current_thread ((schedule ^^ Suc k) (schedule S)) = Some ((ts @ us) ! k)"
    using Suc.IH[OF s(1,2)] s(3) Suc(4) i by simp
  then show ?case using Suc(4) i by (simp add: nth_append funpow_swap1)
qed

lemma idle_unblock_queued:
  assumes I: "sched_inv S" and n: "s_current_thread S \<noteq> Some 1"
  shows "1 \<in> set (rq_items (s_ready_queue (unblock (Some 1) (block (Some 1) S))))
    \<and> rq_inv (s_ready_queue (unblock (Some 1) (block (Some 1) S)))
    \<and> s_idle_thread (unblock (Some 1) (block (Some 1) S)) = Some 1"
proof -
  have P: "pool_inv {} S" using I by (simp add: sched_inv_def)
  note D = pool_invD[OF P]
  obtain b q where q: "rq_remove (Some 1) (s_ready_queue S) = (b, q)" by fastforce
  note E = rq_remove_spec[OF D(2) q]
  have q1: "1 \<notin> set (rq_items q)" "set (rq_items q) \<subseteq> queued S"
    using E rq_invD(6)[OF D(2)] by (simp_all add: set_remove1_eq)
  define R where "R = set_tcb 1 (\<lambda>t. t\<lparr>t_state := TS_Ready\<rparr>) (block (Some 1) S)"
  have R: "length (s_tcb_pool R) = 64" "t_active (tcb_of R 1)" "t_state (tcb_of R 1) = TS_Ready" "s_ready_queue R = q"
    "s_idle_thread R = Some 1"
    using D(1) n q system_okD(1,4)[OF D(8)] by (simp_all add: R_def block_def)
  obtain b' q' where e: "rq_enqueue (s_tcb_pool R) (Some 1) q = (b', q')" by fastforce
  have "set (rq_items q) \<subseteq> {..<64} - {1}" using D(6) q1 by auto
  then have "card (set (rq_items q)) \<le> card ({..<64} - {1::nat})" by (intro card_mono) auto
  moreover have "card (set (rq_items q)) = length (rq_items q)" by (intro distinct_card rq_invD(6) conjunct1[OF E])
  ultimately have "length (rq_items q) < RQ_CAPACITY" by (simp add: RQ_CAPACITY_def)
  then have "rq_inv q' \<and> 1 \<in> set (rq_items q')" using rq_enqueue_spec[OF conjunct1[OF E] e] R(3) q1 by simp
  moreover have "unblock (Some 1) (block (Some 1) S) = R\<lparr>s_ready_queue := q'\<rparr>"
    using n D(1) e R(4) by (simp add: unblock_def R_def Let_def block_def)
  ultimately show ?thesis using R by simp
qed

lemma idle_exit_breaks:
  assumes I: "sched_inv S" and c: "s_current_thread S = Some 1" and q: "rq_items (s_ready_queue S) \<noteq> []"
  shows "\<not> verify_invariants (exit_thread S)"
proof -
  have P: "pool_inv {} S" using I by (simp add: sched_inv_def)
  note D = pool_invD[OF P]
  define T where "T = (set_tcb 1 (\<lambda>t. t\<lparr>t_state := TS_Terminated\<rparr>) S)\<lparr>s_in_scheduler := True\<rparr>"
  have T: "s_current_thread T = Some 1" "s_idle_thread T = Some 1" "s_ready_queue T = s_ready_queue S" "t_state (tcb_of T 1) = TS_Terminated"
    using c D(1) system_okD(1)[OF D(8)] by (simp_all add: T_def)
  define R where "R = reclaim_deferred_stacks T"
  have F: "reclaim_frame T R" unfolding R_def reclaim_deferred_stacks_def
    by (rule fold_invariant[where Q = "\<lambda>_. True"]) (auto simp: reclaim_frame_def[of T T] intro: reclaim_step_frame)
  then have R: "s_idle_thread R = Some 1" "s_ready_queue R = s_ready_queue S" "t_state (tcb_of R 1) = TS_Terminated"
    using T by (simp_all add: reclaim_frame_def)
  obtain m ts where m: "rq_items (s_ready_queue S) = m # ts" using q by (cases "rq_items (s_ready_queue S)") auto
  obtain q' where q': "rq_dequeue (s_ready_queue S) = (Some m, q')" using rq_dequeue_head[OF D(2) m] by blast
  have "exit_thread S = switch_to (Some 1) m (R\<lparr>s_ready_queue := q'\<rparr>)"
    using c R(2) q' by (simp add: exit_thread_def Let_def R_def T_def)
  moreover have "m \<noteq> 1" using D(6)[of m] m by simp
  ultimately have "s_idle_thread (exit_thread S) = Some 1 \<and> t_state (tcb_of (exit_thread S) 1) = TS_Terminated"
    using R by (simp add: switch_to_def Let_def)
  then show ?thesis by (auto simp: verify_invariants_def split: option.splits)
qed

lemma early_block_breaks:
  assumes I: "sched_inv S" and n: "\<not> s_running S"
  shows "\<not> verify_invariants (block None S)"
proof -
  obtain c where c: "c < 64" "s_current_thread S = Some c" using running_in_pool[OF I] by blast
  have "length (s_tcb_pool S) = 64" using I by (simp add: sched_inv_def pool_inv_def)
  then have "s_current_thread (block None S) = Some c \<and> t_state (tcb_of (block None S) c) = TS_Blocked"
    using c n by (simp add: block_def schedule_def)
  then show ?thesis by (auto simp: verify_invariants_def)
qed

section \<open>What the scheduler guarantees\<close>

text \<open>The scheduler on the machine of the stack allocator's example, and one created thread.\<close>

definition example_scheduler :: scheduler where
  "example_scheduler =
     \<lparr>s_tcb_pool = [], s_ready_queue = rq_clear, s_current_thread = None, s_idle_thread = None,
      s_bootstrap_thread = None,
      s_stats = \<lparr>total_threads = 0, active_threads = 0, terminated_threads = 0, stack_pages_allocated = 0,
        stack_pages_reclaimed = 0, context_switches = 0, timer_preemptions = 0, voluntary_yields = 0\<rparr>,
      s_next_id = 0, s_running = False, s_in_scheduler = False, s_preemption_in_progress = False,
      k_stacks = stack_allocator_init, k_mem = (roomy_pmm, \<lambda>_ _. 0), k_vmm = example_vmm,
      k_rsp0 = Some 0, k_tick_hook = False, k_fault = False\<rparr>"

definition example_fresh :: scheduler where
  "example_fresh = scheduler_init 0xFFFFFFFF80100000 0xFFFFFFFF80110000 0xFFFFFFFF80001000
     0xFFFFFFFF80002000 example_scheduler"

definition example_started :: scheduler where
  "example_started = scheduler_start example_fresh"

definition example_created :: "nat option \<times> scheduler" where
  "example_created = create_thread 0xFFFFFFFF80002000 (Some ''worker'') 0xFFFFFFFF80003000 0 TP_Normal example_started"

text \<open>The bootstrap thread blocks itself, so the idle thread runs, and a worker becomes ready.\<close>

definition example_idling :: scheduler where
  "example_idling = snd (create_thread 0xFFFFFFFF80002000 (Some ''worker'') 0xFFFFFFFF80003000 0 TP_Normal
     (block None example_started))"

lemma example_fresh_reach: "sched_reach example_fresh"
proof -
  have "fst (allocate_stack example_vmm stack_allocator_init (roomy_pmm, \<lambda>_ _. 0)) \<noteq> None" by code_simp
  then show ?thesis unfolding example_fresh_def by (intro sched_reach.init) (simp_all add: example_scheduler_def)
qed

lemma example_started_reach: "sched_reach example_started"
  unfolding example_started_def by (rule sched_reach.start[OF example_fresh_reach])

lemma example_fresh_stopped: "\<not> s_running example_fresh"
  by (simp add: example_fresh_def scheduler_init_def Let_def split: prod.split option.split)

lemma example_started_current: "s_current_thread example_started = Some 0 \<and> s_running example_started"
  by (simp add: example_started_def example_fresh_def scheduler_start_def scheduler_init_def Let_def
      split: prod.split option.split)

lemma example_idling_reach: "sched_reach example_idling"
  unfolding example_idling_def
  by (intro sched_reach.create sched_reach.block example_started_reach) (simp_all add: example_started_current)

lemma example_idling_current: "s_current_thread example_idling = Some 1 \<and> rq_items (s_ready_queue example_idling) \<noteq> []"
  by code_simp

lemma example_created_thread: "fst example_created = Some 2" by code_simp

text \<open>C22. The scheduler's self-check never fails under the scheduler's usage rules: after any
  sequence of thread creations, dispatches, yields, timer ticks, terminations, blocks and
  unblocks from a successful initialisation, \<open>verify_invariants\<close> returns true, provided that the
  idle thread never terminates, that the running thread blocks itself only once the scheduler
  is started, that threads are named by their slot of the pool, and that a blocked thread which
  is unblocked is neither the idle thread nor a free slot.  Passing the self-check means that
  exactly one thread is running and it is the current one, the ready queue holds exactly
  the ready threads, the idle thread is not queued, and no two threads share a stack slot.  The
  first two rules are needed: the self-check fails when the idle thread terminates while
  others are ready, and when the running thread blocks itself before the start.\<close>

theorem scheduler_invariants:
  assumes "sched_reach S"
  shows "verify_invariants S
    \<and> (s_current_thread S = Some 1 \<and> rq_items (s_ready_queue S) \<noteq> [] \<longrightarrow> \<not> verify_invariants (exit_thread S))
    \<and> (\<not> s_running S \<longrightarrow> \<not> verify_invariants (block None S))"
  using sched_inv_verify[OF reach_inv[OF assms]] idle_exit_breaks[OF reach_inv[OF assms]]
    early_block_breaks[OF reach_inv[OF assms]] by blast

theorem scheduler_invariants_witness:
  "verify_invariants (on_timer_tick (yield (snd example_created)))
   \<and> \<not> verify_invariants (exit_thread example_idling) \<and> \<not> verify_invariants (block None example_fresh)"
proof -
  have "sched_reach (on_timer_tick (yield (snd example_created)))"
    unfolding example_created_def by (intro sched_reach.tick sched_reach.yield sched_reach.create example_started_reach)
  then show ?thesis
    using scheduler_invariants[of "on_timer_tick (yield (snd example_created))"]
      scheduler_invariants[OF example_idling_reach] example_idling_current
      scheduler_invariants[OF example_fresh_reach] example_fresh_stopped by blast
qed

text \<open>C23. Round robin: in a started scheduler the thread at position \<open>k\<close> of the ready queue is the
  running thread after \<open>k + 1\<close> dispatches, so no ready thread starves.\<close>

theorem round_robin:
  assumes "sched_reach S" "s_running S" "k < length (rq_items (s_ready_queue S))"
  shows "s_current_thread ((schedule ^^ Suc k) S) = Some (rq_items (s_ready_queue S) ! k)"
  using rotation[OF reach_inv[OF assms(1)] assms(2,3)] .

lemma example_created_queue:
  "rq_items (s_ready_queue (snd example_created)) = [2]"
  "s_running (snd example_created)" "sched_reach (snd example_created)"
proof -
  have "rq_items (s_ready_queue example_started) = []" by code_simp
  then show "rq_items (s_ready_queue (snd example_created)) = [2]"
    using create_inv[OF reach_inv[OF example_started_reach]] example_created_thread
    unfolding example_created_def by (metis append_Nil prod.collapse)
  show "s_running (snd example_created)" by code_simp
  show "sched_reach (snd example_created)" unfolding example_created_def by (rule sched_reach.create[OF example_started_reach])
qed

theorem round_robin_witness: "s_current_thread (schedule (snd example_created)) = Some 2"
  using round_robin[OF example_created_queue(3,2), of 0] by (simp add: example_created_queue(1))

text \<open>C24. The ready queue does not reject the idle thread: blocking the idle thread while another
  thread runs and unblocking it again puts it into the ready queue, and the self-check fails.\<close>

theorem idle_unblock_breaks:
  assumes "sched_reach S" "s_current_thread S \<noteq> Some 1"
  shows "\<not> verify_invariants (unblock (Some 1) (block (Some 1) S))"
  using idle_unblock_queued[OF reach_inv[OF assms(1)] assms(2)]
  by (auto simp: verify_invariants_def rq_contains_iff split: option.splits)

theorem idle_unblock_breaks_witness:
  "\<not> verify_invariants (unblock (Some 1) (block (Some 1) example_started))"
  by (rule idle_unblock_breaks[OF example_started_reach]) (simp add: example_started_current)

end
