(* ===== verification/Interrupt_Controller.thy ===== *)
theory Interrupt_Controller
  imports Port_Io Scheduler
begin

text \<open>
  The dual 8259 interrupt controller (\<open>src/kernel/arch/x86_64/cpu/pic.hpp\<close>, \<open>pic.cpp\<close>) and
  the interval timer (\<open>timer.hpp\<close>, \<open>timer.cpp\<close>): initialisation, masking, end-of-interrupt
  and spurious interrupts, the programming of the timer and its interrupt handler with the
  tick hook the scheduler registers.
\<close>

unbundle bit_operations_syntax

definition PIC1_COMMAND :: u16 where "PIC1_COMMAND = 0x20"
definition PIC1_DATA :: u16 where "PIC1_DATA = 0x21"
definition PIC2_COMMAND :: u16 where "PIC2_COMMAND = 0xA0"
definition PIC2_DATA :: u16 where "PIC2_DATA = 0xA1"
definition PIC_EOI :: u8 where "PIC_EOI = 0x20"
definition MASTER_OFFSET :: u8 where "MASTER_OFFSET = 0x20"
definition SLAVE_OFFSET :: u8 where "SLAVE_OFFSET = 0x28"

lemmas pic_ports = PIC1_COMMAND_def PIC1_DATA_def PIC2_COMMAND_def PIC2_DATA_def

record 'd pic = "'d bus_state" +
  pic_initialized :: bool
  s_apic_supported :: bool
  s_apic_enabled :: bool
  s_apic_base_paddr :: u64
  s_spurious_irq7 :: u64
  s_spurious_irq15 :: u64

text \<open>The feature flag and the value of the APIC base register are inputs.\<close>

definition pic_init :: "'d port_bus \<Rightarrow> bool \<Rightarrow> u64 \<Rightarrow> (('d, 'm) pic_scheme, unit) state" where
  "pic_init B apic_feature apic_base_msr = do {
     modify (\<lambda>s. s\<lparr>s_apic_supported := apic_feature\<rparr>);
     (if apic_feature
      then modify (\<lambda>s. s\<lparr>s_apic_enabled := (apic_base_msr AND push_bit 11 1 \<noteq> 0),
                        s_apic_base_paddr := apic_base_msr AND 0x000FFFFFFFFFF000\<rparr>)
      else State_Monad.return ());
     outb B PIC1_COMMAND 0x11; io_wait B;
     outb B PIC2_COMMAND 0x11; io_wait B;
     outb B PIC1_DATA MASTER_OFFSET; io_wait B;
     outb B PIC2_DATA SLAVE_OFFSET; io_wait B;
     outb B PIC1_DATA 0x04; io_wait B;
     outb B PIC2_DATA 0x02; io_wait B;
     outb B PIC1_DATA 0x01; io_wait B;
     outb B PIC2_DATA 0x01; io_wait B;
     outb B PIC1_DATA 0xFF;
     outb B PIC2_DATA 0xFF;
     modify (\<lambda>s. s\<lparr>pic_initialized := True\<rparr>)
   }"

definition pic_verify :: "'d port_bus \<Rightarrow> (('d, 'm) pic_scheme, bool) state" where
  "pic_verify B = do {
     i \<leftarrow> gets pic_initialized;
     if \<not> i then State_Monad.return False
     else do {
       mask1 \<leftarrow> inb B PIC1_DATA;
       mask2 \<leftarrow> inb B PIC2_DATA;
       State_Monad.return (\<not> (mask1 = 0 \<and> mask2 = 0))
     }
   }"

definition send_eoi :: "'d port_bus \<Rightarrow> u8 \<Rightarrow> (('d, 'm) bus_state_scheme, unit) state" where
  "send_eoi B irq = do {
     (if irq \<ge> 8 then outb B PIC2_COMMAND PIC_EOI else State_Monad.return ());
     outb B PIC1_COMMAND PIC_EOI
   }"

definition mask_irq :: "'d port_bus \<Rightarrow> u8 \<Rightarrow> (('d, 'm) bus_state_scheme, unit) state" where
  "mask_irq B irq = do {
     let (port, line) = (if irq < 8 then (PIC1_DATA, irq) else (PIC2_DATA, irq - 8));
     v \<leftarrow> inb B port;
     outb B port (v OR push_bit (unat line) 1)
   }"

definition unmask_irq :: "'d port_bus \<Rightarrow> u8 \<Rightarrow> (('d, 'm) bus_state_scheme, unit) state" where
  "unmask_irq B irq = do {
     let (port, line) = (if irq < 8 then (PIC1_DATA, irq) else (PIC2_DATA, irq - 8));
     v \<leftarrow> inb B port;
     outb B port (v AND NOT (push_bit (unat line) 1))
   }"

definition read_isr :: "'d port_bus \<Rightarrow> (('d, 'm) bus_state_scheme, u16) state" where
  "read_isr B = do {
     outb B PIC1_COMMAND 0x0B;
     outb B PIC2_COMMAND 0x0B;
     hi \<leftarrow> inb B PIC2_COMMAND;
     lo \<leftarrow> inb B PIC1_COMMAND;
     State_Monad.return (push_bit 8 (ucast hi) OR ucast lo)
   }"

definition read_irr :: "'d port_bus \<Rightarrow> (('d, 'm) bus_state_scheme, u16) state" where
  "read_irr B = do {
     outb B PIC1_COMMAND 0x0A;
     outb B PIC2_COMMAND 0x0A;
     hi \<leftarrow> inb B PIC2_COMMAND;
     lo \<leftarrow> inb B PIC1_COMMAND;
     State_Monad.return (push_bit 8 (ucast hi) OR ucast lo)
   }"

definition handle_pic_spurious :: "'d port_bus \<Rightarrow> u8 \<Rightarrow> (('d, 'm) pic_scheme, unit) state" where
  "handle_pic_spurious B irq =
     (if irq = 7 then do {
        outb B PIC1_COMMAND 0x0B;
        isr \<leftarrow> inb B PIC1_COMMAND;
        if isr AND 0x80 = 0 then modify (\<lambda>s. s\<lparr>s_spurious_irq7 := s_spurious_irq7 s + 1\<rparr>)
        else send_eoi B 7
      }
      else if irq = 15 then do {
        outb B PIC2_COMMAND 0x0B;
        isr \<leftarrow> inb B PIC2_COMMAND;
        if isr AND 0x80 = 0
        then do {
          modify (\<lambda>s. s\<lparr>s_spurious_irq15 := s_spurious_irq15 s + 1\<rparr>);
          outb B PIC1_COMMAND PIC_EOI
        }
        else send_eoi B 15
      }
      else State_Monad.return ())"

section \<open>The timer\<close>

definition PIT_CHANNEL0_DATA :: u16 where "PIT_CHANNEL0_DATA = 0x40"
definition PIT_COMMAND :: u16 where "PIT_COMMAND = 0x43"
definition PIT_BASE_FREQ_HZ :: u32 where "PIT_BASE_FREQ_HZ = 1193182"
definition DEFAULT_HZ :: u32 where "DEFAULT_HZ = 100"

text \<open>The tick hook is a function on the kernel state \<open>'k\<close> that the registered callback works on.\<close>

record ('d, 'k) timer = "'d pic" +
  g_timer_ticks :: u64
  s_frequency :: u32
  timer_initialized :: bool
  s_tick_hook :: "('k \<Rightarrow> 'k) option"
  hook_state :: 'k

definition set_tick_hook :: "('k \<Rightarrow> 'k) option \<Rightarrow> (('d, 'k, 'm) timer_scheme, unit) state" where
  "set_tick_hook hook = modify (\<lambda>s. s\<lparr>s_tick_hook := hook\<rparr>)"

definition dispatch_tick :: "(('d, 'k, 'm) timer_scheme, unit) state" where
  "dispatch_tick = modify (\<lambda>s. case s_tick_hook s of None \<Rightarrow> s | Some hook \<Rightarrow> s\<lparr>hook_state := hook (hook_state s)\<rparr>)"

definition handle_timer_interrupt :: "'d port_bus \<Rightarrow> (('d, 'k, 'm) timer_scheme, unit) state" where
  "handle_timer_interrupt B = do {
     modify (\<lambda>s. s\<lparr>g_timer_ticks := g_timer_ticks s + 1\<rparr>);
     send_eoi B 0;
     dispatch_tick
   }"

definition timer_divisor :: "u32 \<Rightarrow> u32" where
  "timer_divisor frequency_hz =
     (let divisor = (PIT_BASE_FREQ_HZ + frequency_hz div 2) div frequency_hz;
          divisor = (if divisor = 0 then 1 else divisor)
      in if divisor > 65535 then 65535 else divisor)"

definition timer_init :: "'d port_bus \<Rightarrow> u32 \<Rightarrow> (('d, 'k, 'm) timer_scheme, unit) state" where
  "timer_init B hz = do {
     let frequency_hz = (if hz = 0 then DEFAULT_HZ else hz);
     modify (\<lambda>s. s\<lparr>s_frequency := frequency_hz\<rparr>);
     let divisor = timer_divisor frequency_hz;
     outb B PIT_COMMAND 0x34;
     outb B PIT_CHANNEL0_DATA (ucast (divisor AND 0xFF));
     outb B PIT_CHANNEL0_DATA (ucast (drop_bit 8 divisor AND 0xFF));
     unmask_irq B 0;
     modify (\<lambda>s. s\<lparr>timer_initialized := True\<rparr>)
   }"

section \<open>Interrupt masks\<close>

text \<open>The documented behaviour of the mask registers: a data port reads back the mask, a read
  changes no mask, and a write replaces the mask of its own port only.\<close>

definition imr_bus :: "'d port_bus \<Rightarrow> (u16 \<Rightarrow> 'd \<Rightarrow> u8) \<Rightarrow> bool" where
  "imr_bus B imr \<longleftrightarrow> (\<forall>p\<in>{PIC1_DATA, PIC2_DATA}. \<forall>d.
     fst (bus_in B p d) = imr p d
   \<and> (\<forall>q. imr q (snd (bus_in B p d)) = imr q d)
   \<and> (\<forall>v q. imr q (bus_out B p v d) = (if q = p then v else imr q d)))"

text \<open>The devices that share the bus leave the masks alone.\<close>

definition imr_frame :: "'d port_bus \<Rightarrow> (u16 \<Rightarrow> 'd \<Rightarrow> u8) \<Rightarrow> bool" where
  "imr_frame B imr \<longleftrightarrow> (\<forall>p. p \<notin> {PIC1_COMMAND, PIC1_DATA, PIC2_COMMAND, PIC2_DATA} \<longrightarrow> (\<forall>d q.
     imr q (snd (bus_in B p d)) = imr q d \<and> (\<forall>v. imr q (bus_out B p v d) = imr q d)))"

definition masked :: "(u16 \<Rightarrow> 'd \<Rightarrow> u8) \<Rightarrow> 'd \<Rightarrow> nat \<Rightarrow> bool" where
  "masked imr d irq = bit (imr (if irq < 8 then PIC1_DATA else PIC2_DATA) d) (irq mod 8)"

lemma bit_line: "bit ((2::u8) ^ l) k \<longleftrightarrow> k = l \<and> l < 8"
  by (auto simp: bit_exp_iff)

lemma line_index:
  assumes "(irq::u8) < 16"
  shows "unat irq < 16" "irq < 8 \<longleftrightarrow> unat irq < 8" "\<not> irq < 8 \<Longrightarrow> unat (irq - 8) = unat irq - 8"
proof -
  show "unat irq < 16" "irq < 8 \<longleftrightarrow> unat irq < 8" using assms by (simp_all add: word_less_nat_alt)
  show "\<not> irq < 8 \<Longrightarrow> unat (irq - 8) = unat irq - 8" by (simp add: unat_sub word_le_nat_alt not_less)
qed

lemma data_ports_distinct: "PIC1_DATA \<noteq> PIC2_DATA"
  by (simp add: pic_ports)

lemma mask_spec:
  assumes B: "imr_bus B imr" and i: "irq < 16" and j: "j < 16"
  shows "masked imr (dev (snd (run_state (mask_irq B irq) s))) j \<longleftrightarrow> j = unat irq \<or> masked imr (dev s) j"
    and "masked imr (dev (snd (run_state (unmask_irq B irq) s))) j \<longleftrightarrow> j \<noteq> unat irq \<and> masked imr (dev s) j"
proof -
  note L = line_index[OF i]
  have eq: "j mod 8 = unat irq mod 8 \<longleftrightarrow> j = unat irq" if "j < 8 \<longleftrightarrow> unat irq < 8"
    using that L(1) j by (cases "j < 8") (auto simp: mod_if)
  have m: "unat irq mod 8 = (if irq < 8 then unat irq else unat (irq - 8))" using L j by (auto simp: mod_if)
  have "unat irq mod 8 < 8" by simp
  note facts = bit_or_iff bit_and_iff bit_not_iff bit_line masked_def
  show "masked imr (dev (snd (run_state (mask_irq B irq) s))) j \<longleftrightarrow> j = unat irq \<or> masked imr (dev s) j"
    using B data_ports_distinct eq m L(2) \<open>unat irq mod 8 < 8\<close>
    by (auto simp: mask_irq_def imr_bus_def facts)
  show "masked imr (dev (snd (run_state (unmask_irq B irq) s))) j \<longleftrightarrow> j \<noteq> unat irq \<and> masked imr (dev s) j"
    using B data_ports_distinct eq m L(2) \<open>unat irq mod 8 < 8\<close>
    by (auto simp: unmask_irq_def imr_bus_def facts)
qed

lemma timer_init_masks:
  assumes B: "imr_bus B imr" "imr_frame B imr" and j: "j < 16"
  shows "masked imr (dev (snd (run_state (timer_init B hz) s))) j \<longleftrightarrow> j \<noteq> 0 \<and> masked imr (dev s) j"
proof -
  have f: "imr q (bus_out B p v d) = imr q d" if "p = PIT_COMMAND \<or> p = PIT_CHANNEL0_DATA" for p q v d
    using B(2) that by (auto simp: imr_frame_def pic_ports PIT_COMMAND_def PIT_CHANNEL0_DATA_def)
  have m: "masked imr (bus_out B p v d) k = masked imr d k" if "p = PIT_COMMAND \<or> p = PIT_CHANNEL0_DATA" for p v d k
    using f[OF that] by (simp add: masked_def)
  show ?thesis by (simp add: timer_init_def Let_def m split_beta mask_spec(2)[OF B(1) _ j])
qed

section \<open>The timer rate\<close>

lemma word_round_div:
  fixes b f :: u32
  assumes "unat b + unat f div 2 < 2 ^ 32"
  shows "unat ((b + f div 2) div f) = (unat b + unat f div 2) div unat f"
proof -
  have "unat (b + f div 2) = unat b + unat f div 2"
    using assms by (subst unat_add_lem[THEN iffD1]) (simp_all add: unat_div)
  then show ?thesis by (simp add: unat_div)
qed

lemma clamp_nearest:
  fixes q n b d lo hi :: int
  assumes q: "q * n \<le> b + n div 2" "b + n div 2 < (q + 1) * n" and n: "0 < n" and d: "lo \<le> d" "d \<le> hi"
  defines "c \<equiv> max lo (min q hi)"
  shows "\<bar>c * n - b\<bar> \<le> \<bar>d * n - b\<bar>"
proof -
  obtain h where h: "h = n div 2" "2 * h \<le> n" "n \<le> 2 * h + 1" "0 \<le> h" using n by simp
  have e: "(q + 1) * n = q * n + n" "(q - 1) * n = q * n - n" by (simp_all add: algebra_simps)
  have Q: "q * n \<le> b + h" "b + h < q * n + n" using q unfolding h(1) e .
  consider "d < c" | "d = c" | "c < d" by linarith
  then show ?thesis
  proof cases
    case 1
    then have "c \<le> q" "d \<le> q - 1" using d by (auto simp: c_def)
    then have "c * n \<le> q * n" "d * n \<le> (q - 1) * n" "d * n \<le> (c - 1) * n" using n 1 by (simp_all add: mult_right_mono)
    then have "c * n \<le> b + h" "d * n \<le> b + h - n" "d * n \<le> c * n - n"
      using Q(1) e(2) left_diff_distrib[of c 1 n] by linarith+
    then have "d * n \<le> b" "\<bar>d * n - b\<bar> = b - d * n" "c * n - b \<le> b - d * n" "b - c * n \<le> b - d * n"
      using h(2,4) by linarith+
    then show ?thesis by (simp add: abs_le_iff)
  next
    case 3
    then have "q \<le> c" "q + 1 \<le> d" using d by (auto simp: c_def)
    then have "q * n \<le> c * n" "(q + 1) * n \<le> d * n" "(c + 1) * n \<le> d * n" using n 3 by (simp_all add: mult_right_mono)
    then have "b + h - n < c * n" "b + h < d * n" "c * n + n \<le> d * n"
      using Q(2) e(1) distrib_right[of c 1 n] by linarith+
    then have "b \<le> d * n" "\<bar>d * n - b\<bar> = d * n - b" "c * n - b \<le> d * n - b" "b - c * n \<le> d * n - b"
      using h(2,3,4) n by linarith+
    then show ?thesis by (simp add: abs_le_iff)
  qed simp
qed

text \<open>The divisor is the rounded quotient brought into the range of the counter.\<close>

lemma timer_divisor_clamp:
  assumes "f \<noteq> 0"
  shows "int (unat (timer_divisor f)) = max 1 (min ((1193182 + int (unat f) div 2) div int (unat f)) 65535)"
proof -
  define q where "q = (1193182 + unat f div 2) div unat f"
  have "unat f < 2 ^ 32" using unat_below[of f] by simp
  then have u: "unat ((PIT_BASE_FREQ_HZ + f div 2) div f) = q"
    using word_round_div[of PIT_BASE_FREQ_HZ f] by (simp add: PIT_BASE_FREQ_HZ_def q_def)
  have "unat (timer_divisor f) = max 1 (min q 65535)"
    using u by (auto simp: timer_divisor_def Let_def word_less_nat_alt word_unat_eq_iff simp del: unat_div)
  moreover have "int q = (1193182 + int (unat f) div 2) div int (unat f)" by (simp add: q_def zdiv_int)
  ultimately show ?thesis by (simp add: of_nat_max of_nat_min)
qed

text \<open>C29. For every rate the divisor programmed into the timer is the best one the 16-bit counter
  can hold: it lies between 1 and 65535, and no divisor in that range brings the product of
  divisor and rate closer to the base frequency, whether the rounded quotient fits the counter
  or is brought into its range.\<close>

theorem timer_divisor_nearest:
  assumes "f \<noteq> 0"
  shows "1 \<le> unat (timer_divisor f) \<and> unat (timer_divisor f) \<le> 65535
    \<and> (\<forall>d. 1 \<le> d \<and> d \<le> 65535 \<longrightarrow>
         \<bar>int (unat (timer_divisor f)) * int (unat f) - 1193182\<bar> \<le> \<bar>d * int (unat f) - 1193182\<bar>)"
proof -
  define n q where "n = int (unat f)" and "q = (1193182 + n div 2) div n"
  have n: "0 < n" using assms unfolding n_def using unat_0_iff[of f] by linarith
  have c: "int (unat (timer_divisor f)) = max 1 (min q 65535)" using timer_divisor_clamp[OF assms] by (simp add: q_def n_def)
  have q: "q * n \<le> 1193182 + n div 2" "1193182 + n div 2 < (q + 1) * n"
    using div_mult_mod_eq[of "1193182 + n div 2" n] pos_mod_bound[OF n, of "1193182 + n div 2"]
      pos_mod_sign[OF n, of "1193182 + n div 2"] unfolding q_def distrib_right mult_1 by linarith+
  have "\<bar>int (unat (timer_divisor f)) * n - 1193182\<bar> \<le> \<bar>d * n - 1193182\<bar>" if "1 \<le> d \<and> d \<le> 65535" for d
    using clamp_nearest[OF q n, of 1 d 65535] that unfolding c by blast
  moreover have "1 \<le> unat (timer_divisor f) \<and> unat (timer_divisor f) \<le> 65535" using c by linarith
  ultimately show ?thesis unfolding n_def[symmetric] by blast
qed

theorem timer_divisor_nearest_witness:
  "unat (timer_divisor 100) = 11932 \<and> \<bar>int (unat (timer_divisor 100)) * 100 - 1193182\<bar> \<le> \<bar>11931 * 100 - (1193182::int)\<bar>
   \<and> unat (timer_divisor 5) = 65535 \<and> \<bar>int (unat (timer_divisor 5)) * 5 - 1193182\<bar> \<le> \<bar>65534 * 5 - (1193182::int)\<bar>"
proof -
  have "unat (timer_divisor 100) = 11932" "unat (timer_divisor 5) = 65535"
    by (simp_all add: timer_divisor_def PIT_BASE_FREQ_HZ_def)
  then show ?thesis
    using spec[OF conjunct2[OF conjunct2[OF timer_divisor_nearest[of 100]]], of 11931]
      spec[OF conjunct2[OF conjunct2[OF timer_divisor_nearest[of 5]]], of 65534] by simp
qed

end
