(* ===== verification/Keyboard_Driver.thy ===== *)
theory Keyboard_Driver
  imports Keyboard_Events Interrupt_Controller "HOL-Library.Sublist"
begin

text \<open>
  The PS/2 controller and keyboard driver (\<open>src/kernel/drivers/ps2/ps2_controller.hpp\<close>,
  \<open>ps2_controller.cpp\<close>, \<open>keyboard.hpp\<close>, \<open>keyboard.cpp\<close>): the bounded waits on the status
  port, controller and keyboard initialisation, the interrupt handler and the consumer side.
  The log messages of the initialisation routines are left out; they go to the console and the
  serial port and to no port used here.
\<close>

unbundle bit_operations_syntax

section \<open>The controller\<close>

definition PORT_DATA :: u16 where "PORT_DATA = 0x60"
definition PORT_COMMAND :: u16 where "PORT_COMMAND = 0x64"
definition PORT_STATUS :: u16 where "PORT_STATUS = 0x64"
definition STATUS_OUTPUT_FULL :: u8 where "STATUS_OUTPUT_FULL = 1"
definition STATUS_INPUT_FULL :: u8 where "STATUS_INPUT_FULL = 2"
definition STATUS_AUX_OUTPUT :: u8 where "STATUS_AUX_OUTPUT = 32"
definition CMD_READ_CONFIG :: u8 where "CMD_READ_CONFIG = 0x20"
definition CMD_WRITE_CONFIG :: u8 where "CMD_WRITE_CONFIG = 0x60"
definition CMD_DISABLE_PORT2 :: u8 where "CMD_DISABLE_PORT2 = 0xA7"
definition CMD_ENABLE_PORT2 :: u8 where "CMD_ENABLE_PORT2 = 0xA8"
definition CMD_TEST_CONTROLLER :: u8 where "CMD_TEST_CONTROLLER = 0xAA"
definition CMD_TEST_PORT1 :: u8 where "CMD_TEST_PORT1 = 0xAB"
definition CMD_DISABLE_PORT1 :: u8 where "CMD_DISABLE_PORT1 = 0xAD"
definition CMD_ENABLE_PORT1 :: u8 where "CMD_ENABLE_PORT1 = 0xAE"

definition TIMEOUT_CYCLES :: nat where "TIMEOUT_CYCLES = 100000"

record ('d, 'k) ps2 = "('d, 'k) timer" +
  ps2_initialized :: bool
  s_second_channel :: bool
  s_config_byte :: u8

definition read_status :: "'d port_bus \<Rightarrow> (('d, 'm) bus_state_scheme, u8) state" where
  "read_status B = inb B PORT_STATUS"

definition read_data :: "'d port_bus \<Rightarrow> (('d, 'm) bus_state_scheme, u8) state" where
  "read_data B = inb B PORT_DATA"

text \<open>The bounded polling loops, for the number of iterations left.\<close>

fun wait_input_clear :: "'d port_bus \<Rightarrow> nat \<Rightarrow> (('d, 'm) bus_state_scheme, bool) state" where
  "wait_input_clear B 0 = State_Monad.return False"
| "wait_input_clear B (Suc n) = do {
     st \<leftarrow> read_status B;
     if st AND STATUS_INPUT_FULL = 0 then State_Monad.return True
     else do { io_wait B; wait_input_clear B n }
   }"

fun wait_output_full :: "'d port_bus \<Rightarrow> nat \<Rightarrow> (('d, 'm) bus_state_scheme, bool) state" where
  "wait_output_full B 0 = State_Monad.return False"
| "wait_output_full B (Suc n) = do {
     st \<leftarrow> read_status B;
     if st AND STATUS_OUTPUT_FULL \<noteq> 0 then State_Monad.return True
     else do { io_wait B; wait_output_full B n }
   }"

definition send_command :: "'d port_bus \<Rightarrow> u8 \<Rightarrow> (('d, 'm) bus_state_scheme, bool) state" where
  "send_command B command = do {
     ok \<leftarrow> wait_input_clear B TIMEOUT_CYCLES;
     if \<not> ok then State_Monad.return False
     else do { outb B PORT_COMMAND command; State_Monad.return True }
   }"

definition send_data :: "'d port_bus \<Rightarrow> u8 \<Rightarrow> (('d, 'm) bus_state_scheme, bool) state" where
  "send_data B v = do {
     ok \<leftarrow> wait_input_clear B TIMEOUT_CYCLES;
     if \<not> ok then State_Monad.return False
     else do { outb B PORT_DATA v; State_Monad.return True }
   }"

fun flush_output :: "'d port_bus \<Rightarrow> nat \<Rightarrow> (('d, 'm) bus_state_scheme, unit) state" where
  "flush_output B 0 = State_Monad.return ()"
| "flush_output B (Suc n) = do {
     st \<leftarrow> read_status B;
     if st AND STATUS_OUTPUT_FULL \<noteq> 0 then do { _ \<leftarrow> read_data B; io_wait B; flush_output B n }
     else State_Monad.return ()
   }"

definition flush_output_buffer :: "'d port_bus \<Rightarrow> (('d, 'm) bus_state_scheme, unit) state" where
  "flush_output_buffer B = flush_output B 64"

text \<open>A command whose answer is awaited: \<open>send_command(c) && wait_output_full()\<close>.\<close>

definition query :: "'d port_bus \<Rightarrow> u8 \<Rightarrow> (('d, 'm) bus_state_scheme, bool) state" where
  "query B command = do {
     ok \<leftarrow> send_command B command;
     if ok then wait_output_full B TIMEOUT_CYCLES else State_Monad.return False
   }"

definition new_config :: "u8 \<Rightarrow> u8" where
  "new_config cfg = (((cfg OR 1) AND NOT 2) AND NOT 16) OR 64"

definition detect_second_channel :: "'d port_bus \<Rightarrow> (('d, 'k, 'm) ps2_scheme, unit) state" where
  "detect_second_channel B = do {
     modify (\<lambda>s. s\<lparr>s_second_channel := False\<rparr>);
     ok \<leftarrow> send_command B CMD_ENABLE_PORT2;
     if ok then do {
       answered \<leftarrow> query B CMD_READ_CONFIG;
       (if answered then do {
          cfg2 \<leftarrow> read_data B;
          (if cfg2 AND 32 = 0 then modify (\<lambda>s. s\<lparr>s_second_channel := True\<rparr>) else State_Monad.return ())
        } else State_Monad.return ());
       _ \<leftarrow> send_command B CMD_DISABLE_PORT2;
       State_Monad.return ()
     } else State_Monad.return ()
   }"

text \<open>Steps 5 to 7: interface test, second channel and enabling of the keyboard port.\<close>

definition ps2_finish :: "'d port_bus \<Rightarrow> (('d, 'k, 'm) ps2_scheme, bool) state" where
  "ps2_finish B = do {
     tested \<leftarrow> query B CMD_TEST_PORT1;
     (if tested then do { _ \<leftarrow> read_data B; State_Monad.return () } else State_Monad.return ());
     detect_second_channel B;
     enabled \<leftarrow> send_command B CMD_ENABLE_PORT1;
     if \<not> enabled then State_Monad.return False
     else do { modify (\<lambda>s. s\<lparr>ps2_initialized := True\<rparr>); State_Monad.return True }
   }"

text \<open>Step 4: the self-test, after which the configuration is written again.\<close>

definition ps2_self_test :: "'d port_bus \<Rightarrow> u8 \<Rightarrow> (('d, 'k, 'm) ps2_scheme, bool) state" where
  "ps2_self_test B config = do {
     answered \<leftarrow> query B CMD_TEST_CONTROLLER;
     if \<not> answered then State_Monad.return False
     else do {
       res \<leftarrow> read_data B;
       if res \<noteq> 0x55 then State_Monad.return False
       else do {
         _ \<leftarrow> send_command B CMD_WRITE_CONFIG;
         _ \<leftarrow> send_data B config;
         ps2_finish B
       }
     }
   }"

definition ps2_init :: "'d port_bus \<Rightarrow> (('d, 'k, 'm) ps2_scheme, bool) state" where
  "ps2_init B = do {
     initial_status \<leftarrow> read_status B;
     if initial_status = 0xFF then State_Monad.return False
     else do {
       _ \<leftarrow> send_command B CMD_DISABLE_PORT1;
       _ \<leftarrow> send_command B CMD_DISABLE_PORT2;
       flush_output_buffer B;
       answered \<leftarrow> query B CMD_READ_CONFIG;
       if \<not> answered then State_Monad.return False
       else do {
         cfg \<leftarrow> read_data B;
         modify (\<lambda>s. s\<lparr>s_config_byte := cfg\<rparr>);
         written \<leftarrow> send_command B CMD_WRITE_CONFIG;
         stored \<leftarrow> (if written then send_data B (new_config cfg) else State_Monad.return False);
         if \<not> stored then State_Monad.return False
         else do {
           modify (\<lambda>s. s\<lparr>s_config_byte := new_config cfg\<rparr>);
           ps2_self_test B (new_config cfg)
         }
       }
     }
   }"

section \<open>The keyboard\<close>

record ('d, 'k) keyboard = "('d, 'k) ps2" +
  kb_initialized :: bool
  kb_queue :: event_queue
  kb_decoder :: decoder
  s_scancodes_received :: u64
  s_events_generated :: u64

text \<open>The keyboard initialisation up to the point where it unmasks its line.\<close>

definition keyboard_prepare :: "'d port_bus \<Rightarrow> (('d, 'k, 'm) keyboard_scheme, bool) state" where
  "keyboard_prepare B = do {
     up \<leftarrow> gets ps2_initialized;
     ready \<leftarrow> (if up then State_Monad.return True else ps2_init B);
     if \<not> ready then State_Monad.return False
     else do {
       flush_output_buffer B;
       modify (\<lambda>s. s\<lparr>kb_decoder := decoder_reset, kb_queue := kq_clear (kb_queue s),
                      s_scancodes_received := 0, s_events_generated := 0\<rparr>);
       sent \<leftarrow> send_data B 0xF4;
       (if sent then do {
          full \<leftarrow> wait_output_full B TIMEOUT_CYCLES;
          (if full then do { _ \<leftarrow> read_data B; State_Monad.return () } else State_Monad.return ())
        } else State_Monad.return ());
       State_Monad.return True
     }
   }"

definition keyboard_init :: "'d port_bus \<Rightarrow> (('d, 'k, 'm) keyboard_scheme, bool) state" where
  "keyboard_init B = do {
     ready \<leftarrow> keyboard_prepare B;
     if \<not> ready then State_Monad.return False
     else do { unmask_irq B 1; modify (\<lambda>s. s\<lparr>kb_initialized := True\<rparr>); State_Monad.return True }
   }"

definition process_scancode :: "u8 \<Rightarrow> (('d, 'k, 'm) keyboard_scheme, bool) state" where
  "process_scancode scancode = State (\<lambda>s.
     let s1 = s\<lparr>s_scancodes_received := s_scancodes_received s + 1\<rparr>;
         (r, D) = process_byte scancode (kb_decoder s1);
         s2 = s1\<lparr>kb_decoder := D\<rparr>
     in case r of
          None \<Rightarrow> (False, s2)
        | Some ev \<Rightarrow>
            let (pushed, q) = kq_push ev (kb_queue s2)
            in (pushed, s2\<lparr>s_events_generated := s_events_generated s2 + 1, kb_queue := q\<rparr>))"

definition handle_interrupt :: "'d port_bus \<Rightarrow> (('d, 'k, 'm) keyboard_scheme, unit) state" where
  "handle_interrupt B = do {
     status \<leftarrow> inb B PORT_STATUS;
     (if status AND STATUS_OUTPUT_FULL \<noteq> 0 then do {
        scancode \<leftarrow> inb B PORT_DATA;
        (if status AND STATUS_AUX_OUTPUT = 0 then do { _ \<leftarrow> process_scancode scancode; State_Monad.return () }
         else State_Monad.return ())
      } else State_Monad.return ());
     send_eoi B 1
   }"

definition pop_event :: "(('d, 'k, 'm) keyboard_scheme, key_event option) state" where
  "pop_event = State (\<lambda>s. let (r, q) = kq_pop (kb_queue s) in (r, s\<lparr>kb_queue := q\<rparr>))"

section \<open>Commands to the controller\<close>

text \<open>The device after \<open>n\<close> polls that found the input buffer full, and whether the next poll finds
  it clear.\<close>

fun polled :: "'d port_bus \<Rightarrow> nat \<Rightarrow> 'd \<Rightarrow> 'd" where
  "polled B 0 d = d"
| "polled B (Suc n) d = polled B n (bus_out B 0x80 0 (snd (bus_in B PORT_STATUS d)))"

definition input_clear :: "'d port_bus \<Rightarrow> 'd \<Rightarrow> bool" where
  "input_clear B d \<longleftrightarrow> fst (bus_in B PORT_STATUS d) AND STATUS_INPUT_FULL = 0"

lemma wait_input_clear_found:
  fixes s :: "('d, 'm) bus_state_scheme"
  assumes "i < n" "input_clear B (polled B i (dev s))" "\<forall>j<i. \<not> input_clear B (polled B j (dev s))"
  shows "run_state (wait_input_clear B n) s = (True, s\<lparr>dev := snd (bus_in B PORT_STATUS (polled B i (dev s)))\<rparr>)"
  using assms
proof (induction n arbitrary: i s)
  case (Suc n)
  show ?case
  proof (cases i)
    case 0
    then show ?thesis using Suc.prems(2) by (simp add: input_clear_def read_status_def)
  next
    case (Suc i')
    let ?s = "s\<lparr>dev := bus_out B 0x80 0 (snd (bus_in B PORT_STATUS (dev s)))\<rparr>"
    have "\<not> input_clear B (dev s)" "\<forall>j<i'. \<not> input_clear B (polled B j (dev ?s))"
      using Suc.prems(3) Suc by (metis polled.simps(1) zero_less_Suc, auto dest: spec[of _ "Suc _"])
    then show ?thesis using Suc.IH[of i' ?s] Suc.prems(1,2) Suc by (simp add: input_clear_def read_status_def io_wait_def)
  qed
qed simp

lemma wait_input_clear_timeout:
  fixes s :: "('d, 'm) bus_state_scheme"
  assumes "\<forall>j<n. \<not> input_clear B (polled B j (dev s))"
  shows "run_state (wait_input_clear B n) s = (False, s\<lparr>dev := polled B n (dev s)\<rparr>)"
  using assms
proof (induction n arbitrary: s)
  case (Suc n)
  let ?s = "s\<lparr>dev := bus_out B 0x80 0 (snd (bus_in B PORT_STATUS (dev s)))\<rparr>"
  have "\<not> input_clear B (dev s)" "\<forall>j<n. \<not> input_clear B (polled B j (dev ?s))"
    using Suc.prems by (metis polled.simps(1) zero_less_Suc, auto dest: spec[of _ "Suc _"])
  then show ?case using Suc.IH[of ?s] by (simp add: input_clear_def read_status_def io_wait_def)
qed simp

lemma cost_wait_input [cost_intros]: "cost_le (wait_input_clear (counting B) n) (2 * n)"
proof (induction n)
  case (Suc n)
  show ?case unfolding wait_input_clear.simps read_status_def
    by (rule cost_le_mono, (rule Suc.IH cost_intros)+, simp)
qed (simp add: cost_return)

lemma cost_send_command: "cost_le (send_command (counting B) c) (2 * TIMEOUT_CYCLES + 1)"
  unfolding send_command_def by (rule cost_le_mono, (rule cost_intros)+, simp)

text \<open>C27. A controller command is sent exactly when the controller becomes ready in time: if the
  first of the 100,000 polls that finds the input buffer clear is poll \<open>i\<close>, the command byte is
  written right after it and the call succeeds; if none does, the call fails, nothing is
  written to the controller, and the device has seen exactly 100,000 polls.  On every device the
  call ends after at most 200,001 port accesses.\<close>

theorem send_command_exact:
  "(\<forall>i<100000. input_clear B (polled B i (dev s)) \<and> (\<forall>j<i. \<not> input_clear B (polled B j (dev s))) \<longrightarrow>
      run_state (send_command B c) s
      = (True, s\<lparr>dev := bus_out B PORT_COMMAND c (snd (bus_in B PORT_STATUS (polled B i (dev s))))\<rparr>))
   \<and> ((\<forall>j<100000. \<not> input_clear B (polled B j (dev s))) \<longrightarrow>
      run_state (send_command B c) s = (False, s\<lparr>dev := polled B 100000 (dev s)\<rparr>))
   \<and> snd (dev (snd (run_state (send_command (counting B) c) t))) \<le> snd (dev t) + 200001"
proof (intro conjI allI impI)
  fix i :: nat
  assume "i < 100000" "input_clear B (polled B i (dev s)) \<and> (\<forall>j<i. \<not> input_clear B (polled B j (dev s)))"
  then show "run_state (send_command B c) s
      = (True, s\<lparr>dev := bus_out B PORT_COMMAND c (snd (bus_in B PORT_STATUS (polled B i (dev s))))\<rparr>)"
    using wait_input_clear_found[of i 100000 B s] by (simp add: send_command_def TIMEOUT_CYCLES_def)
next
  assume "\<forall>j<100000. \<not> input_clear B (polled B j (dev s))"
  then show "run_state (send_command B c) s = (False, s\<lparr>dev := polled B 100000 (dev s)\<rparr>)"
    using wait_input_clear_timeout[of 100000 B s] by (simp add: send_command_def TIMEOUT_CYCLES_def)
next
  show "snd (dev (snd (run_state (send_command (counting B) c) t))) \<le> snd (dev t) + 200001"
    using cost_send_command[of B c, unfolded cost_le_def TIMEOUT_CYCLES_def, THEN spec, of t] by simp
qed

text \<open>A device that is busy for the first two polls and records the last byte written to the
  command port, and one that stays busy.\<close>

definition busy_bus :: "(nat \<times> u8) port_bus" where
  "busy_bus = \<lparr>bus_in = (\<lambda>p (n, v). (if n = 0 then 0 else 2, (n, v))),
     bus_out = (\<lambda>p b (n, v). if p = PORT_COMMAND then (n, b) else (n - 1, v))\<rparr>"

definition stuck_bus :: "u8 port_bus" where
  "stuck_bus = \<lparr>bus_in = (\<lambda>p d. (2, d)), bus_out = (\<lambda>p b d. if p = PORT_COMMAND then b else d)\<rparr>"

theorem send_command_exact_witness:
  "run_state (send_command busy_bus 0xAE) \<lparr>dev = (2, 0)\<rparr> = (True, \<lparr>dev = (0, 0xAE)\<rparr>)
   \<and> run_state (send_command stuck_bus 0xAE) \<lparr>dev = 0\<rparr> = (False, \<lparr>dev = 0\<rparr>)"
proof -
  have p': "polled busy_bus 0 (2, 0) = (2, 0)" "polled busy_bus (Suc 0) (2, 0) = (1, 0)" "polled busy_bus (Suc (Suc 0)) (2, 0) = (0, 0)"
    by (simp_all add: busy_bus_def PORT_COMMAND_def)
  note p = p'(1,2) p'(3)[folded numeral_2_eq_2]
  then have "input_clear busy_bus (polled busy_bus 2 (2, 0))" "\<forall>j<2. \<not> input_clear busy_bus (polled busy_bus j (2, 0))"
    by (auto simp: input_clear_def less_2_cases_iff) (simp_all add: busy_bus_def STATUS_INPUT_FULL_def)
  then have "run_state (send_command busy_bus 0xAE) \<lparr>dev = (2, 0)\<rparr> =
      (True, \<lparr>dev = bus_out busy_bus PORT_COMMAND 0xAE (snd (bus_in busy_bus PORT_STATUS (polled busy_bus 2 (2, 0))))\<rparr>)"
    using conjunct1[OF send_command_exact, of busy_bus "\<lparr>dev = (2, 0)\<rparr>" "0xAE", THEN spec, of 2] by simp
  then have "run_state (send_command busy_bus 0xAE) \<lparr>dev = (2, 0)\<rparr> = (True, \<lparr>dev = (0, 0xAE)\<rparr>)"
    unfolding p(3) by (simp add: busy_bus_def)
  moreover have k: "polled stuck_bus n 0 = 0" for n
    by (induction n) (simp_all add: stuck_bus_def PORT_COMMAND_def)
  then have "\<forall>j<100000. \<not> input_clear stuck_bus (polled stuck_bus j 0)"
    by (simp add: input_clear_def stuck_bus_def STATUS_INPUT_FULL_def)
  then have "run_state (send_command stuck_bus 0xAE) \<lparr>dev = 0\<rparr> = (False, \<lparr>dev = 0\<rparr>)"
    using conjunct1[OF conjunct2[OF send_command_exact], of stuck_bus "\<lparr>dev = 0\<rparr>" "0xAE"] k by simp
  ultimately show ?thesis by blast
qed

section \<open>Reading while interrupts arrive\<close>

text \<open>\<open>InputEventQueue::pop\<close> runs with interrupts enabled.  \<open>pop_step\<close> is one access of it to the
  shared queue: read the tail, read the head and compare, copy the fields of the event one
  at a time, advance the tail.  The local variables are kept in the consumer's program
  point; the first component is the result once the call returns.  The caller's pointer is
  not null.  The event under
  construction starts from \<open>empty_event\<close>; every field of it is overwritten before it is returned.\<close>

datatype consumer = C_Idle | C_Tail u64 | C_Copy u64 nat key_event

definition copy_field :: "nat \<Rightarrow> key_event \<Rightarrow> key_event \<Rightarrow> key_event" where
  "copy_field k src dst =
     (if k = 0 then dst\<lparr>ke_key := ke_key src\<rparr> else if k = 1 then dst\<lparr>ke_action := ke_action src\<rparr>
      else if k = 2 then dst\<lparr>ke_modifiers := ke_modifiers src\<rparr> else dst\<lparr>ke_raw_scancode := ke_raw_scancode src\<rparr>)"

fun pop_step :: "consumer \<Rightarrow> event_queue \<Rightarrow> key_event option option \<times> consumer \<times> event_queue" where
  "pop_step C_Idle q = (None, C_Tail (kq_tail q), q)"
| "pop_step (C_Tail current_tail) q =
     (if current_tail = kq_head q then (Some None, C_Idle, q)
      else (None, C_Copy current_tail 0 empty_event, q))"
| "pop_step (C_Copy current_tail k out_event) q =
     (if k < 4
      then (None, C_Copy current_tail (Suc k)
              (copy_field k (kq_buffer q ! unat (current_tail AND (KQ_CAPACITY - 1))) out_event), q)
      else (Some (Some out_event), C_Idle, q\<lparr>kq_tail := current_tail + 1\<rparr>))"

text \<open>Keyboard interrupts are taken through an interrupt gate, so a handler runs to completion
  between two steps of the consumer.  The result lists what the finished calls of
  \<open>pop_event\<close> returned.\<close>

datatype kb_op = KB_Interrupt | KB_Step

fun run_kb :: "'d port_bus \<Rightarrow> kb_op list \<Rightarrow> consumer \<Rightarrow> ('d, 'k, 'm) keyboard_scheme \<Rightarrow>
    key_event option list \<times> consumer \<times> ('d, 'k, 'm) keyboard_scheme" where
  "run_kb B [] c s = ([], c, s)"
| "run_kb B (KB_Interrupt # ops) c s = run_kb B ops c (snd (run_state (handle_interrupt B) s))"
| "run_kb B (KB_Step # ops) c s =
     (let (r, c1, q) = pop_step c (kb_queue s);
          (out, c2, s2) = run_kb B ops c1 (s\<lparr>kb_queue := q\<rparr>)
      in ((case r of None \<Rightarrow> [] | Some x \<Rightarrow> [x]) @ out, c2, s2))"

section \<open>Delivery of key events\<close>

text \<open>The specification: a list of at most 128 pending events.  An interrupt decodes the byte that
  the controller presents, if any, and appends the event, or counts it as dropped when 128 are
  pending.  A read commits to an answer when it looks at the list: it reports that there is no
  event, or it removes the oldest one when it returns.\<close>

datatype phase = P_Idle | P_Tail | P_Copy nat

datatype kb_input = In_Interrupt "u8 option" | In_Step

record kb_abs =
  a_items :: "key_event list"
  a_dropped :: u64
  a_decoder :: decoder
  a_phase :: phase

definition spec_byte :: "u8 \<Rightarrow> kb_abs \<Rightarrow> kb_abs" where
  "spec_byte b a =
     (case process_byte b (a_decoder a) of
        (None, D) \<Rightarrow> a\<lparr>a_decoder := D\<rparr>
      | (Some e, D) \<Rightarrow>
          if length (a_items a) < 128 then a\<lparr>a_decoder := D, a_items := a_items a @ [e]\<rparr>
          else a\<lparr>a_decoder := D, a_dropped := a_dropped a + 1\<rparr>)"

definition spec_step :: "kb_abs \<Rightarrow> key_event option option \<times> kb_abs" where
  "spec_step a =
     (case (a_phase a, a_items a) of
        (P_Idle, _) \<Rightarrow> (None, a\<lparr>a_phase := P_Tail\<rparr>)
      | (_, []) \<Rightarrow> (Some None, a\<lparr>a_phase := P_Idle\<rparr>)
      | (P_Tail, _) \<Rightarrow> (None, a\<lparr>a_phase := P_Copy 0\<rparr>)
      | (P_Copy k, e # es) \<Rightarrow>
          if k < 4 then (None, a\<lparr>a_phase := P_Copy (Suc k)\<rparr>)
          else (Some (Some e), a\<lparr>a_phase := P_Idle, a_items := es\<rparr>))"

fun spec_kb :: "kb_input list \<Rightarrow> kb_abs \<Rightarrow> key_event option list \<times> kb_abs" where
  "spec_kb [] a = ([], a)"
| "spec_kb (In_Interrupt b # ins) a = spec_kb ins (case b of None \<Rightarrow> a | Some x \<Rightarrow> spec_byte x a)"
| "spec_kb (In_Step # ins) a =
     (let (r, a1) = spec_step a; (out, a2) = spec_kb ins a1
      in ((case r of None \<Rightarrow> [] | Some x \<Rightarrow> [x]) @ out, a2))"

text \<open>The byte that the controller presents at an interrupt: none when its output buffer is empty
  or holds a byte of the auxiliary device.\<close>

definition wire_byte :: "'d port_bus \<Rightarrow> 'd \<Rightarrow> u8 option \<times> 'd" where
  "wire_byte B d =
     (let (st, d1) = bus_in B PORT_STATUS d; (b, d2) = bus_in B PORT_DATA d1
      in if st AND STATUS_OUTPUT_FULL = 0 then (None, d1)
         else (if st AND STATUS_AUX_OUTPUT = 0 then Some b else None, d2))"

fun kb_inputs :: "'d port_bus \<Rightarrow> kb_op list \<Rightarrow> 'd \<Rightarrow> kb_input list" where
  "kb_inputs B [] d = []"
| "kb_inputs B (KB_Interrupt # ops) d =
     (let (b, d1) = wire_byte B d in In_Interrupt b # kb_inputs B ops (bus_out B PIC1_COMMAND PIC_EOI d1))"
| "kb_inputs B (KB_Step # ops) d = In_Step # kb_inputs B ops d"

fun input_bytes :: "kb_input list \<Rightarrow> u8 list" where
  "input_bytes [] = []"
| "input_bytes (In_Interrupt b # ins) = (case b of None \<Rightarrow> [] | Some x \<Rightarrow> [x]) @ input_bytes ins"
| "input_bytes (In_Step # ins) = input_bytes ins"

fun phase_of :: "consumer \<Rightarrow> phase" where
  "phase_of C_Idle = P_Idle"
| "phase_of (C_Tail t) = P_Tail"
| "phase_of (C_Copy t k ev) = P_Copy k"

definition kb_abs_of :: "consumer \<Rightarrow> ('d, 'k, 'm) keyboard_scheme \<Rightarrow> kb_abs" where
  "kb_abs_of c s = \<lparr>a_items = kq_items (kb_queue s), a_dropped = kq_dropped_count (kb_queue s),
     a_decoder = kb_decoder s, a_phase = phase_of c\<rparr>"

definition fields_match :: "nat \<Rightarrow> key_event \<Rightarrow> key_event \<Rightarrow> bool" where
  "fields_match k ev e \<longleftrightarrow> (0 < k \<longrightarrow> ke_key ev = ke_key e) \<and> (1 < k \<longrightarrow> ke_action ev = ke_action e)
     \<and> (2 < k \<longrightarrow> ke_modifiers ev = ke_modifiers e) \<and> (3 < k \<longrightarrow> ke_raw_scancode ev = ke_raw_scancode e)"

fun consumer_ok :: "consumer \<Rightarrow> event_queue \<Rightarrow> bool" where
  "consumer_ok C_Idle q = True"
| "consumer_ok (C_Tail t) q = (t = kq_tail q)"
| "consumer_ok (C_Copy t k ev) q = (t = kq_tail q \<and> kq_items q \<noteq> [] \<and> k \<le> 4 \<and> fields_match k ev (hd (kq_items q)))"

lemma fields_match_copy: "fields_match k ev e \<Longrightarrow> k < 4 \<Longrightarrow> fields_match (Suc k) (copy_field k e ev) e"
  by (auto simp: fields_match_def copy_field_def numeral_eq_Suc less_Suc_eq)

lemma fields_match_all: "fields_match 4 ev e \<Longrightarrow> ev = e"
  by (simp add: fields_match_def)

lemma kq_front:
  assumes "kq_inv q"
  shows "kq_items q = [] \<longleftrightarrow> kq_tail q = kq_head q"
    and "kq_items q = e # es \<Longrightarrow> kq_buffer q ! unat (kq_tail q AND (KQ_CAPACITY - 1)) = e
      \<and> kq_inv (q\<lparr>kq_tail := kq_tail q + 1\<rparr>) \<and> kq_items (q\<lparr>kq_tail := kq_tail q + 1\<rparr>) = es"
proof -
  have e: "kq_tail q \<noteq> kq_head q \<and> kq_buffer q ! unat (kq_tail q AND (KQ_CAPACITY - 1)) = e
      \<and> kq_inv (q\<lparr>kq_tail := kq_tail q + 1\<rparr>) \<and> kq_items (q\<lparr>kq_tail := kq_tail q + 1\<rparr>) = es"
    if "kq_items q = e # es" for e es
    using kq.pop_head[OF assms that] by (auto simp: kq_pop_def split: if_splits)
  then show "kq_items q = e # es \<Longrightarrow> kq_buffer q ! unat (kq_tail q AND (KQ_CAPACITY - 1)) = e
      \<and> kq_inv (q\<lparr>kq_tail := kq_tail q + 1\<rparr>) \<and> kq_items (q\<lparr>kq_tail := kq_tail q + 1\<rparr>) = es" by blast
  show "kq_items q = [] \<longleftrightarrow> kq_tail q = kq_head q"
    using e kq.pop_empty[OF assms] by (cases "kq_items q") (auto simp: kq_pop_def split: if_splits)
qed

text \<open>A call that no interrupt delays has the effect of \<open>kq_pop\<close>.\<close>

fun pop_steps :: "nat \<Rightarrow> consumer \<Rightarrow> event_queue \<Rightarrow> (key_event option \<times> event_queue) option" where
  "pop_steps 0 c q = None"
| "pop_steps (Suc n) c q =
     (case pop_step c q of (Some r, _, q') \<Rightarrow> Some (r, q') | (None, c', q') \<Rightarrow> pop_steps n c' q')"

lemma pop_steps_pop: "pop_steps 7 C_Idle q = Some (kq_pop q)"
  by (simp add: numeral_eq_Suc copy_field_def kq_pop_def)

lemma consumer_sim:
  fixes s :: "('d, 'k, 'm) keyboard_scheme"
  assumes I: "kq_inv (kb_queue s)" and c: "consumer_ok c (kb_queue s)" and p: "pop_step c (kb_queue s) = (r, c1, q)"
  shows "kq_inv q \<and> consumer_ok c1 q \<and> spec_step (kb_abs_of c s) = (r, kb_abs_of c1 (s\<lparr>kb_queue := q\<rparr>))"
proof (cases c)
  case C_Idle
  then show ?thesis using I p by (auto simp: spec_step_def kb_abs_of_def split: list.splits)
next
  case (C_Tail t)
  then show ?thesis using I c p kq_front(1)[OF I]
    by (cases "kq_items (kb_queue s)") (auto simp: spec_step_def kb_abs_of_def fields_match_def split: if_splits)
next
  case (C_Copy t k ev)
  then obtain e es where i: "kq_items (kb_queue s) = e # es" and t: "t = kq_tail (kb_queue s)" and k: "k \<le> 4" "fields_match k ev e"
    using c by (cases "kq_items (kb_queue s)") auto
  note F = kq_front(2)[OF I i]
  show ?thesis
  proof (cases "k < 4")
    case True
    then show ?thesis using I p C_Copy i t F fields_match_copy[OF k(2) True]
      by (auto simp: spec_step_def kb_abs_of_def)
  next
    case False
    then have "k = 4" using k by simp
    then show ?thesis using p C_Copy i t F fields_match_all[of ev e] k(2)
      by (auto simp: spec_step_def kb_abs_of_def)
  qed
qed

lemma scancode_sim:
  fixes s :: "('d, 'k, 'm) keyboard_scheme"
  assumes I: "kq_inv (kb_queue s)" and c: "consumer_ok c (kb_queue s)" and s1: "s1 = snd (run_state (process_scancode b) s)"
  shows "kq_inv (kb_queue s1) \<and> consumer_ok c (kb_queue s1) \<and> kb_abs_of c s1 = spec_byte b (kb_abs_of c s) \<and> dev s1 = dev s"
proof -
  obtain r D where d: "process_byte b (kb_decoder s) = (r, D)" by fastforce
  show ?thesis
  proof (cases r)
    case None
    then show ?thesis using I c s1 d by (simp add: process_scancode_def kb_abs_of_def spec_byte_def)
  next
    case (Some e)
    obtain p q where q: "kq_push e (kb_queue s) = (p, q)" by fastforce
    note P = kq.push_spec[OF I q]
    have t: "kq_tail q = kq_tail (kb_queue s)" using q by (auto simp: kq_push_def split: if_splits)
    then have "consumer_ok c q" using c P by (cases c) auto
    then show ?thesis using s1 d Some q P kq_push_dropped[OF q] by (simp add: process_scancode_def kb_abs_of_def spec_byte_def)
  qed
qed

lemma interrupt_sim:
  fixes s :: "('d, 'k, 'm) keyboard_scheme"
  assumes I: "kq_inv (kb_queue s)" and c: "consumer_ok c (kb_queue s)" and s1: "s1 = snd (run_state (handle_interrupt B) s)"
    and w: "wire_byte B (dev s) = (b, d)"
  shows "kq_inv (kb_queue s1) \<and> consumer_ok c (kb_queue s1) \<and> dev s1 = bus_out B PIC1_COMMAND PIC_EOI d
    \<and> kb_abs_of c s1 = (case b of None \<Rightarrow> kb_abs_of c s | Some x \<Rightarrow> spec_byte x (kb_abs_of c s))"
proof -
  define u where "u = s\<lparr>dev := d\<rparr>"
  have u: "kq_inv (kb_queue u)" "consumer_ok c (kb_queue u)" "kb_abs_of c u = kb_abs_of c s" "dev u = d"
    using I c by (simp_all add: u_def kb_abs_of_def)
  define v where "v = (case b of None \<Rightarrow> u | Some x \<Rightarrow> snd (run_state (process_scancode x) u))"
  have v: "kq_inv (kb_queue v)" "consumer_ok c (kb_queue v)" "dev v = d"
    "kb_abs_of c v = (case b of None \<Rightarrow> kb_abs_of c s | Some x \<Rightarrow> spec_byte x (kb_abs_of c s))"
    using u scancode_sim[OF u(1,2) refl] by (auto simp: v_def split: option.split)
  have n: "(8::u8) \<le> 1 \<longleftrightarrow> False" by (simp add: word_le_nat_alt)
  have "s1 = v\<lparr>dev := bus_out B PIC1_COMMAND PIC_EOI (dev v)\<rparr>"
    using s1 w by (auto simp: n handle_interrupt_def wire_byte_def send_eoi_def u_def v_def split_beta split: if_splits)
  then show ?thesis using v by (simp add: kb_abs_of_def)
qed

lemma run_kb_sim:
  fixes s :: "('d, 'k, 'm) keyboard_scheme"
  assumes "kq_inv (kb_queue s)" "consumer_ok c (kb_queue s)" "run_kb B ops c s = (out, c', s')"
  shows "kq_inv (kb_queue s') \<and> spec_kb (kb_inputs B ops (dev s)) (kb_abs_of c s) = (out, kb_abs_of c' s')"
  using assms
proof (induction ops arbitrary: c s out)
  case (Cons op ops)
  show ?case
  proof (cases op)
    case KB_Interrupt
    obtain b d where w: "wire_byte B (dev s) = (b, d)" by fastforce
    define s1 where "s1 = snd (run_state (handle_interrupt B) s)"
    note S = interrupt_sim[OF Cons.prems(1,2) s1_def w]
    show ?thesis using Cons.IH[of s1 c out] Cons.prems(3) S KB_Interrupt w by (simp add: s1_def[symmetric])
  next
    case KB_Step
    obtain r c1 q where p: "pop_step c (kb_queue s) = (r, c1, q)" by (meson prod_cases3)
    note S = consumer_sim[OF Cons.prems(1,2) p]
    obtain out1 where o: "run_kb B ops c1 (s\<lparr>kb_queue := q\<rparr>) = (out1, c', s')" "out = (case r of None \<Rightarrow> [] | Some x \<Rightarrow> [x]) @ out1"
      using Cons.prems(3) KB_Step p by (cases "run_kb B ops c1 (s\<lparr>kb_queue := q\<rparr>)") auto
    show ?thesis using Cons.IH[of "s\<lparr>kb_queue := q\<rparr>" c1 out1] S o KB_Step by simp
  qed
qed simp

text \<open>What the specification promises of a whole run.\<close>

definition delivered :: "key_event option list \<Rightarrow> key_event list" where
  "delivered out = concat (map (\<lambda>r. case r of None \<Rightarrow> [] | Some e \<Rightarrow> [e]) out)"

lemma spec_byte_items:
  assumes "process_byte b (a_decoder a) = (r, D)"
  shows "\<exists>acc. a_items (spec_byte b a) = a_items a @ acc \<and> a_decoder (spec_byte b a) = D
    \<and> subseq acc (case r of None \<Rightarrow> [] | Some e \<Rightarrow> [e])
    \<and> a_dropped (spec_byte b a) = a_dropped a + of_nat (length (case r of None \<Rightarrow> [] | Some e \<Rightarrow> [e]) - length acc)"
  using assms by (cases r) (auto simp: spec_byte_def)

lemma spec_step_items:
  "spec_step a = (r, a1) \<Longrightarrow> a_items a = delivered (case r of None \<Rightarrow> [] | Some x \<Rightarrow> [x]) @ a_items a1
    \<and> a_decoder a1 = a_decoder a \<and> a_dropped a1 = a_dropped a"
  by (auto simp: spec_step_def delivered_def split: phase.splits list.splits if_splits)

lemma spec_kb_order:
  assumes "spec_kb ins a = (out, a')" "decode_stream (input_bytes ins) (a_decoder a) = (es, D)"
  shows "\<exists>acc. a_decoder a' = D \<and> subseq acc es \<and> a_items a @ acc = delivered out @ a_items a'
    \<and> a_dropped a' = a_dropped a + of_nat (length es - length acc)"
  using assms
proof (induction ins arbitrary: a out es)
  case Nil
  then show ?case by (auto simp: delivered_def)
next
  case (Cons i ins)
  consider b where "i = In_Interrupt (Some b)" | "i = In_Interrupt None" | "i = In_Step"
    by (metis kb_input.exhaust option.exhaust)
  then show ?case
  proof cases
    case 1
    obtain r D1 where d: "process_byte b (a_decoder a) = (r, D1)" by fastforce
    let ?r = "case r of None \<Rightarrow> [] | Some e \<Rightarrow> [e]"
    obtain acc1 where a1: "a_items (spec_byte b a) = a_items a @ acc1" "a_decoder (spec_byte b a) = D1" "subseq acc1 ?r"
      "a_dropped (spec_byte b a) = a_dropped a + of_nat (length ?r - length acc1)" using spec_byte_items[OF d] by blast
    obtain es1 where e1: "decode_stream (input_bytes ins) D1 = (es1, D)" "es = ?r @ es1"
      using Cons.prems(2) 1 d by (cases "decode_stream (input_bytes ins) D1") auto
    obtain acc where h: "a_decoder a' = D" "subseq acc es1" "a_items (spec_byte b a) @ acc = delivered out @ a_items a'"
      "a_dropped a' = a_dropped (spec_byte b a) + of_nat (length es1 - length acc)"
      using Cons.IH[of "spec_byte b a" out es1] Cons.prems(1) 1 e1(1) a1(2) by auto
    have "length acc1 \<le> length ?r" "length acc \<le> length es1"
      using list_emb_length[OF a1(3)] list_emb_length[OF h(2)] by auto
    then have "of_nat (length es - length (acc1 @ acc)) = (of_nat (length ?r - length acc1) + of_nat (length es1 - length acc) :: u64)"
      using e1(2) by (simp add: of_nat_diff algebra_simps flip: of_nat_add)
    then show ?thesis using h a1 e1(2) by (intro exI[of _ "acc1 @ acc"]) (auto intro: list_emb_append_mono)
  next
    case 2
    then show ?thesis using Cons by simp
  next
    case 3
    obtain r a1 where p: "spec_step a = (r, a1)" by fastforce
    obtain out1 where o: "spec_kb ins a1 = (out1, a')" "out = (case r of None \<Rightarrow> [] | Some x \<Rightarrow> [x]) @ out1"
      using Cons.prems(1) 3 p by (cases "spec_kb ins a1") auto
    note S = spec_step_items[OF p]
    have "delivered out = delivered (case r of None \<Rightarrow> [] | Some x \<Rightarrow> [x]) @ delivered out1" by (simp add: o(2) delivered_def)
    then show ?thesis using Cons.IH[OF o(1), of es] Cons.prems(2) 3 S by auto
  qed
qed

text \<open>C25. Key events are delivered in order and losses are counted, with the consumer preempted at
  any access to the queue: for every bus and every interleaving of keyboard interrupts with
  the single steps of \<open>pop_event\<close>, the calls return exactly what the specification machine
  returns on the bytes the controller presents, and the pending events, the drop counter and
  the decoder agree with it, so an event is dropped only when 128 are pending and a
  copied event is never torn.  The events read, followed by those pending, are the initial
  ones followed by a subsequence of the decoded ones, and the drop counter grows by the number
  of missing ones, also when the 64-bit indices of the queue wrap around.\<close>

theorem keyboard_delivery:
  assumes "kq_inv (kb_queue s)" "run_kb B ops C_Idle s = (out, c', s')"
    "decode_stream (input_bytes (kb_inputs B ops (dev s))) (kb_decoder s) = (es, D)"
  shows "spec_kb (kb_inputs B ops (dev s)) (kb_abs_of C_Idle s) = (out, kb_abs_of c' s')
    \<and> length (kq_items (kb_queue s')) \<le> 128
    \<and> (\<exists>acc. kb_decoder s' = D \<and> subseq acc es \<and> kq_items (kb_queue s) @ acc = delivered out @ kq_items (kb_queue s')
         \<and> kq_dropped_count (kb_queue s') = kq_dropped_count (kb_queue s) + of_nat (length es - length acc))"
proof -
  have R: "kq_inv (kb_queue s')" "spec_kb (kb_inputs B ops (dev s)) (kb_abs_of C_Idle s) = (out, kb_abs_of c' s')"
    using run_kb_sim[OF assms(1) _ assms(2)] by auto
  then show ?thesis using spec_kb_order[OF R(2)] assms(3) kq.bound[OF R(1)] by (simp add: kb_abs_of_def)
qed

definition example_keyboard :: "'d \<Rightarrow> ('d, unit) keyboard" where
  "example_keyboard d = \<lparr>dev = d, pic_initialized = True, s_apic_supported = False, s_apic_enabled = False,
     s_apic_base_paddr = 0, s_spurious_irq7 = 0, s_spurious_irq15 = 0, g_timer_ticks = 0, s_frequency = 100,
     timer_initialized = True, s_tick_hook = None, hook_state = (), ps2_initialized = True, s_second_channel = False,
     s_config_byte = 0x45, kb_initialized = True, kb_queue = kq_empty\<lparr>kq_head := - 1, kq_tail := - 1\<rparr>,
     kb_decoder = decoder_reset, s_scancodes_received = 0, s_events_generated = 0\<rparr>"

text \<open>A controller whose device state is the list of bytes still to be presented, and a run in which
  both interrupts arrive while a call is under way.\<close>

definition list_bus :: "u8 list port_bus" where
  "list_bus = \<lparr>bus_in = (\<lambda>p d. if p = PORT_STATUS then (if d = [] then 0 else 1, d) else (case d of [] \<Rightarrow> (0, []) | b # bs \<Rightarrow> (b, bs))),
     bus_out = (\<lambda>p v d. d)\<rparr>"

definition example_ops :: "kb_op list" where
  "example_ops = [KB_Step, KB_Step, KB_Step, KB_Interrupt, KB_Step, KB_Step, KB_Interrupt, KB_Step, KB_Step, KB_Step, KB_Step]"

definition example_run :: "key_event option list \<times> consumer \<times> (u8 list, unit) keyboard" where
  "example_run = run_kb list_bus example_ops C_Idle (example_keyboard [0x1E, 0x9E])"

theorem keyboard_delivery_witness:
  "fst example_run = [None, Some (empty_event\<lparr>ke_key := K_A, ke_raw_scancode := 0x1E\<rparr>)]
   \<and> length (kq_items (kb_queue (snd (snd example_run)))) \<le> 128
   \<and> fst (spec_kb (kb_inputs list_bus example_ops [0x1E, 0x9E]) (kb_abs_of C_Idle (example_keyboard [0x1E, 0x9E :: u8])))
       = [None, Some (empty_event\<lparr>ke_key := K_A, ke_raw_scancode := 0x1E\<rparr>)]"
proof -
  let ?s = "example_keyboard [0x1E, 0x9E :: u8]"
  obtain out c' s' where r: "run_kb list_bus example_ops C_Idle ?s = (out, c', s')" by (meson prod_cases3)
  obtain es D where d: "decode_stream (input_bytes (kb_inputs list_bus example_ops (dev ?s))) (kb_decoder ?s) = (es, D)" by fastforce
  have q: "kq_inv (kb_queue ?s)"
    by (simp add: example_keyboard_def kq_empty_def kq_inv_def kq_len_def kq_count_def)
  have "fst example_run = [None, Some (empty_event\<lparr>ke_key := K_A, ke_raw_scancode := 0x1E\<rparr>)]" by code_simp
  moreover have "dev ?s = [0x1E, 0x9E]" by (simp add: example_keyboard_def)
  ultimately show ?thesis using conjunct1[OF keyboard_delivery[OF q r d]] conjunct1[OF conjunct2[OF keyboard_delivery[OF q r d]]]
    by (simp add: example_run_def r)
qed

section \<open>Interrupt lines after initialisation\<close>

definition imr_keeps :: "(u16 \<Rightarrow> 'd \<Rightarrow> u8) \<Rightarrow> (('d, 'm) bus_state_scheme, 'a) state \<Rightarrow> bool" where
  "imr_keeps imr m \<longleftrightarrow> (\<forall>s q. imr q (dev (snd (run_state m s))) = imr q (dev s))"

named_theorems keeps_intros \<open>driver routines that leave the interrupt masks alone\<close>

lemma keeps_bind [keeps_intros]:
  assumes "imr_keeps imr m" "\<And>x. imr_keeps imr (f x)"
  shows "imr_keeps imr (State_Monad.bind m f)"
  using assms unfolding imr_keeps_def by (simp add: split_beta)

lemma keeps_basic [keeps_intros]:
  "imr_keeps imr (State_Monad.return x)" "imr_keeps imr (gets g)"
  "(\<And>s. dev (f s) = dev s) \<Longrightarrow> imr_keeps imr (modify f)"
  "imr_keeps imr m \<Longrightarrow> imr_keeps imr n \<Longrightarrow> imr_keeps imr (if c then m else n)"
  by (simp_all add: imr_keeps_def)

lemma keeps_ports:
  assumes "imr_frame B imr" "p \<in> {PORT_DATA, PORT_COMMAND, PORT_STATUS, 0x80}"
  shows "imr_keeps imr (inb B p)" "imr_keeps imr (outb B p v)"
  using assms by (auto simp: imr_keeps_def imr_frame_def pic_ports PORT_DATA_def PORT_COMMAND_def PORT_STATUS_def)

lemma keeps_ps2:
  assumes F: "imr_frame B imr"
  shows "imr_keeps imr (read_status B)" "imr_keeps imr (read_data B)" "imr_keeps imr (io_wait B)"
    "imr_keeps imr (wait_input_clear B n)" "imr_keeps imr (wait_output_full B n)" "imr_keeps imr (flush_output B n)"
    "imr_keeps imr (send_command B c)" "imr_keeps imr (send_data B c)" "imr_keeps imr (query B c)"
proof -
  show b [keeps_intros]: "imr_keeps imr (read_status B)" "imr_keeps imr (read_data B)" "imr_keeps imr (io_wait B)"
    unfolding read_status_def read_data_def io_wait_def by (rule keeps_ports[OF F]; simp)+
  show w: "imr_keeps imr (wait_input_clear B n)" "imr_keeps imr (wait_output_full B n)" "imr_keeps imr (flush_output B n)" for n
    by (induction n; simp only: wait_input_clear.simps wait_output_full.simps flush_output.simps; intro keeps_intros b; assumption)+
  show c: "imr_keeps imr (send_command B c)" "imr_keeps imr (send_data B c)" for c
    unfolding send_command_def send_data_def by (intro keeps_intros w keeps_ports[OF F]; simp)+
  show "imr_keeps imr (query B c)" unfolding query_def by (intro keeps_intros w c)
qed

lemma keeps_ps2_init:
  assumes F: "imr_frame B imr"
  shows "imr_keeps imr (ps2_init B)"
  unfolding ps2_init_def ps2_self_test_def ps2_finish_def detect_second_channel_def flush_output_buffer_def
  by (intro keeps_intros keeps_ps2[OF F]; simp)

lemma masked_keeps: "imr_keeps imr m \<Longrightarrow> masked imr (dev (snd (run_state m s))) j = masked imr (dev s) j"
  by (simp add: imr_keeps_def masked_def)

lemma keyboard_init_masks:
  assumes B: "imr_bus B imr" "imr_frame B imr" and j: "j < 16"
  shows "masked imr (dev (snd (run_state (keyboard_init B) s))) j \<longleftrightarrow>
    masked imr (dev s) j \<and> \<not> (fst (run_state (keyboard_init B) s) \<and> j = 1)"
proof -
  have "imr_keeps imr (keyboard_prepare B)" unfolding keyboard_prepare_def flush_output_buffer_def
    by (intro keeps_intros keeps_ps2[OF B(2)] keeps_ps2_init[OF B(2)]; simp)
  then have "masked imr (dev (snd (run_state (keyboard_prepare B) s))) k = masked imr (dev s) k" for s k by (rule masked_keeps)
  then show ?thesis unfolding keyboard_init_def
    by (auto simp: split_beta mask_spec(2)[OF B(1) _ j])
qed

text \<open>C28. Initialising the timer and the keyboard unmasks the timer line, unmasks the keyboard line
  exactly when the keyboard came up, and changes no other interrupt line, on every bus whose
  interrupt controllers have readable mask registers that only their own ports change.\<close>

theorem driver_init_masks:
  assumes "imr_bus B imr" "imr_frame B imr" "j < 16"
    "run_state (do { timer_init B hz; keyboard_init B }) s = (ok, s')"
  shows "masked imr (dev s') j \<longleftrightarrow> masked imr (dev s) j \<and> j \<noteq> 0 \<and> \<not> (ok \<and> j = 1)"
proof -
  define s1 where "s1 = snd (run_state (timer_init B hz) s)"
  have "run_state (keyboard_init B) s1 = (ok, s')" using assms(4) by (simp add: split_beta s1_def)
  then have "masked imr (dev s') j \<longleftrightarrow> masked imr (dev s1) j \<and> \<not> (ok \<and> j = 1)"
    using keyboard_init_masks[OF assms(1-3), of s1] by simp
  moreover have "masked imr (dev s1) j \<longleftrightarrow> j \<noteq> 0 \<and> masked imr (dev s) j"
    unfolding s1_def by (rule timer_init_masks[OF assms(1-3)])
  ultimately show ?thesis by blast
qed

definition register_bus :: "(u16 \<Rightarrow> u8) port_bus" where
  "register_bus = \<lparr>bus_in = (\<lambda>p d. (d p, d)), bus_out = (\<lambda>p v d. d(p := v))\<rparr>"

definition mask_of :: "u16 \<Rightarrow> (u16 \<Rightarrow> u8) \<Rightarrow> u8" where
  "mask_of p d = (if p \<in> {PIC1_DATA, PIC2_DATA} then d p else 0)"

theorem driver_init_masks_witness:
  "imr_bus register_bus mask_of \<and> imr_frame register_bus mask_of
   \<and> \<not> masked mask_of (dev (snd (run_state (do { timer_init register_bus 100; keyboard_init register_bus })
        (example_keyboard (\<lambda>_. 0xFF))))) 0
   \<and> masked mask_of (dev (snd (run_state (do { timer_init register_bus 100; keyboard_init register_bus })
        (example_keyboard (\<lambda>_. 0xFF))))) 14"
proof -
  let ?m = "do { timer_init register_bus 100; keyboard_init register_bus }" and ?s = "example_keyboard (\<lambda>_. 0xFF)"
  have B: "imr_bus register_bus mask_of" "imr_frame register_bus mask_of"
    by (auto simp: imr_bus_def imr_frame_def register_bus_def mask_of_def)
  obtain ok s' where r: "run_state ?m ?s = (ok, s')" by fastforce
  have "masked mask_of (dev ?s) 14" by (simp add: masked_def mask_of_def example_keyboard_def)
  then show ?thesis using B r driver_init_masks[OF B _ r, of 0] driver_init_masks[OF B _ r, of 14] by simp
qed

end
