(* ===== verification/Core_String.thy ===== *)
theory Core_String
  imports Core_Types
begin

text \<open>
  Memory and string primitives (\<open>src/kernel/core/string.cpp\<close>) on a byte-addressed memory
  with 64-bit addresses.  Loops over a count are folds over the loop counter in the order of
  the code, so overlapping operands behave as they do there; loops up to a terminating zero
  byte may run forever and are partial functions.
\<close>

type_synonym byte_mem = "u64 \<Rightarrow> u8"

section \<open>Blocks of memory\<close>

definition mem_set :: "u64 \<Rightarrow> u8 \<Rightarrow> u64 \<Rightarrow> byte_mem \<Rightarrow> byte_mem" where
  "mem_set dest ch n m = fold (\<lambda>i m. m(dest + of_nat i := ch)) [0..<unat n] m"

text \<open>One byte of a copy, \<open>d[i] = s[i]\<close>.\<close>

definition copy_byte :: "u64 \<Rightarrow> u64 \<Rightarrow> nat \<Rightarrow> byte_mem \<Rightarrow> byte_mem" where
  "copy_byte dest src i m = m(dest + of_nat i := m (src + of_nat i))"

definition mem_cpy :: "u64 \<Rightarrow> u64 \<Rightarrow> u64 \<Rightarrow> byte_mem \<Rightarrow> byte_mem" where
  "mem_cpy dest src n m = fold (copy_byte dest src) [0..<unat n] m"

definition mem_move :: "u64 \<Rightarrow> u64 \<Rightarrow> u64 \<Rightarrow> byte_mem \<Rightarrow> byte_mem" where
  "mem_move dest src n m =
     (if dest < src then fold (copy_byte dest src) [0..<unat n] m
      else if dest > src then fold (\<lambda>i. copy_byte dest src (i - 1)) (rev [1..<unat n + 1]) m
      else m)"

fun mem_cmp_from :: "byte_mem \<Rightarrow> u64 \<Rightarrow> u64 \<Rightarrow> nat \<Rightarrow> int" where
  "mem_cmp_from m a b 0 = 0"
| "mem_cmp_from m a b (Suc n) =
     (if m a < m b then -1 else if m a > m b then 1 else mem_cmp_from m (a + 1) (b + 1) n)"

definition mem_cmp :: "byte_mem \<Rightarrow> u64 \<Rightarrow> u64 \<Rightarrow> u64 \<Rightarrow> int" where
  "mem_cmp m lhs rhs n = mem_cmp_from m lhs rhs (unat n)"

section \<open>Terminated strings\<close>

text \<open>Address 0 is the null pointer.\<close>

partial_function (option) strlen_from :: "byte_mem \<Rightarrow> u64 \<Rightarrow> u64 \<Rightarrow> u64 option" where
  "strlen_from m str len = (if m (str + len) \<noteq> 0 then strlen_from m str (len + 1) else Some len)"

definition strlen :: "byte_mem \<Rightarrow> u64 \<Rightarrow> u64 option" where
  "strlen m str = (if str = 0 then Some 0 else strlen_from m str 0)"

partial_function (option) strcmp_from :: "byte_mem \<Rightarrow> u64 \<Rightarrow> u64 \<Rightarrow> int option" where
  "strcmp_from m lhs rhs =
     (if m lhs \<noteq> 0 \<and> m lhs = m rhs then strcmp_from m (lhs + 1) (rhs + 1)
      else Some (uint (m lhs) - uint (m rhs)))"

definition strcmp :: "byte_mem \<Rightarrow> u64 \<Rightarrow> u64 \<Rightarrow> int option" where
  "strcmp m lhs rhs =
     (if lhs = 0 \<and> rhs = 0 then Some 0 else if lhs = 0 then Some (-1) else if rhs = 0 then Some 1
      else strcmp_from m lhs rhs)"

fun strncmp_from :: "byte_mem \<Rightarrow> u64 \<Rightarrow> u64 \<Rightarrow> nat \<Rightarrow> int" where
  "strncmp_from m lhs rhs 0 = 0"
| "strncmp_from m lhs rhs (Suc n) =
     (if m lhs \<noteq> m rhs then uint (m lhs) - uint (m rhs)
      else if m lhs = 0 then 0
      else strncmp_from m (lhs + 1) (rhs + 1) n)"

definition strncmp :: "byte_mem \<Rightarrow> u64 \<Rightarrow> u64 \<Rightarrow> u64 \<Rightarrow> int" where
  "strncmp m lhs rhs n =
     (if n = 0 then 0 else if lhs = 0 \<and> rhs = 0 then 0 else if lhs = 0 then -1 else if rhs = 0 then 1
      else strncmp_from m lhs rhs (unat n))"

partial_function (option) strcpy_from :: "u64 \<Rightarrow> u64 \<Rightarrow> byte_mem \<Rightarrow> byte_mem option" where
  "strcpy_from dest src m =
     (let m1 = m(dest := m src) in
      if m src \<noteq> 0 then strcpy_from (dest + 1) (src + 1) m1 else Some m1)"

definition strcpy :: "u64 \<Rightarrow> u64 \<Rightarrow> byte_mem \<Rightarrow> byte_mem option" where
  "strcpy dest src m = (if dest = 0 \<or> src = 0 then Some m else strcpy_from dest src m)"

text \<open>The two loops of \<open>strncpy\<close>: copy while the source lasts, then pad with zeros.\<close>

fun strncpy_copy :: "u64 \<Rightarrow> u64 \<Rightarrow> nat \<Rightarrow> nat \<Rightarrow> byte_mem \<Rightarrow> nat \<times> byte_mem" where
  "strncpy_copy dest src i 0 m = (i, m)"
| "strncpy_copy dest src i (Suc n) m =
     (if src \<noteq> 0 \<and> m (src + of_nat i) \<noteq> 0
      then strncpy_copy dest src (Suc i) n (m(dest + of_nat i := m (src + of_nat i)))
      else (i, m))"

definition strncpy :: "u64 \<Rightarrow> u64 \<Rightarrow> u64 \<Rightarrow> byte_mem \<Rightarrow> byte_mem" where
  "strncpy dest src n m =
     (if dest = 0 then m
      else let (i, m1) = strncpy_copy dest src 0 (unat n) m
           in fold (\<lambda>i m. m(dest + of_nat i := 0)) [i..<unat n] m1)"

partial_function (option) strchr_from :: "byte_mem \<Rightarrow> u64 \<Rightarrow> u8 \<Rightarrow> u64 option option" where
  "strchr_from m str target =
     (if m str \<noteq> 0 then (if m str = target then Some (Some str) else strchr_from m (str + 1) target)
      else Some (if target = 0 then Some str else None))"

definition strchr :: "byte_mem \<Rightarrow> u64 \<Rightarrow> u8 \<Rightarrow> u64 option option" where
  "strchr m str target = (if str = 0 then Some None else strchr_from m str target)"

section \<open>Copying overlapping blocks\<close>

text \<open>The reference: all bytes are read before any is written.\<close>

definition copy_block :: "u64 \<Rightarrow> u64 \<Rightarrow> nat \<Rightarrow> nat \<Rightarrow> byte_mem \<Rightarrow> byte_mem" where
  "copy_block dest src lo hi m = (\<lambda>a. if lo \<le> unat (a - dest) \<and> unat (a - dest) < hi then m (src + (a - dest)) else m a)"

lemma offset_eq:
  assumes "i < 2 ^ 64"
  shows "a = d + of_nat i \<longleftrightarrow> unat (a - d :: u64) = i"
proof
  assume "a = d + of_nat i"
  then have "a - d = of_nat i" by simp
  then show "unat (a - d) = i" using assms by (simp add: unat_of_nat)
next
  assume "unat (a - d) = i"
  then have "of_nat i = a - d" by auto
  then show "a = d + of_nat i" by simp
qed

lemma copy_block_extend:
  assumes "i < 2 ^ 64" "copy_block d s lo hi m (s + of_nat i) = m (s + of_nat i)" "i = hi \<and> lo \<le> hi \<or> Suc i = lo \<and> lo \<le> hi"
  shows "copy_byte d s i (copy_block d s lo hi m) = copy_block d s (min i lo) (max (Suc i) hi) m"
proof
  fix a
  show "copy_byte d s i (copy_block d s lo hi m) a = copy_block d s (min i lo) (max (Suc i) hi) m a"
  proof (cases "a = d + of_nat i")
    case True
    then have "unat (a - d) = i" using offset_eq[OF assms(1)] by blast
    moreover have "i < max (Suc i) hi" by linarith
    ultimately show ?thesis using True assms(2) by (simp add: copy_block_def copy_byte_def)
  next
    case False
    then have "unat (a - d) \<noteq> i" using offset_eq[OF assms(1)] by blast
    then show ?thesis using False assms(3) by (auto simp: copy_block_def copy_byte_def)
  qed
qed

lemma copy_block_empty: "hi \<le> lo \<Longrightarrow> copy_block d s lo hi m = m"
  by (rule ext) (auto simp: copy_block_def)

lemma source_ahead:
  fixes d s :: u64
  assumes "d \<le> s \<or> unat s + n \<le> unat d" "unat s + n \<le> 2 ^ 64" "i < n"
  shows "i \<le> unat (s + of_nat i - d)"
proof -
  have u: "unat (s + of_nat i) = unat s + i" using assms(2,3) by (subst unat_add_nowrap) (simp_all add: unat_of_nat)
  show ?thesis
  proof (cases "d \<le> s")
    case True
    then have "d \<le> s + of_nat i" using u by (simp add: word_le_nat_alt)
    then show ?thesis using u True by (simp add: unat_sub_nowrap word_le_nat_alt)
  next
    case False
    then have "unat s + i < unat d" using assms(1,3) by simp
    then have "unat (s + of_nat i - d) = unat s + i + 2 ^ 64 - unat d"
      using u by (simp add: unat_sub_if_size word_le_nat_alt word_size)
    then show ?thesis using unat_below[of d] by simp
  qed
qed

lemma source_behind:
  fixes d s :: u64
  assumes "s < d" "unat d + n \<le> 2 ^ 64" "i < n"
  shows "unat (s + of_nat i - d) < i \<or> n \<le> unat (s + of_nat i - d)"
proof -
  have lt: "unat s < unat d" using assms(1) by (simp add: word_less_nat_alt)
  have u: "unat (s + of_nat i) = unat s + i" using assms lt by (subst unat_add_nowrap) (simp_all add: unat_of_nat)
  show ?thesis
  proof (cases "unat d \<le> unat s + i")
    case True
    then have "unat (s + of_nat i - d) = unat s + i - unat d" using u by (simp add: unat_sub_nowrap word_le_nat_alt)
    then show ?thesis using lt True by linarith
  next
    case False
    then have "unat (s + of_nat i - d) = unat s + i + 2 ^ 64 - unat d"
      using u by (simp add: unat_sub_if_size word_le_nat_alt word_size)
    then show ?thesis using assms(2) by linarith
  qed
qed

lemma forward_copy:
  assumes "d \<le> s \<or> unat s + n \<le> unat d" "unat s + n \<le> 2 ^ 64" "unat d + n \<le> 2 ^ 64" "k \<le> n"
  shows "fold (copy_byte d s) [0..<k] m = copy_block d s 0 k m"
  using assms(4)
proof (induction k)
  case (Suc k)
  have "k \<le> unat (s + of_nat k - d)" by (rule source_ahead[OF assms(1,2)]) (use Suc.prems in simp)
  then have "copy_block d s 0 k m (s + of_nat k) = m (s + of_nat k)" by (simp add: copy_block_def)
  then have "copy_byte d s k (copy_block d s 0 k m) = copy_block d s 0 (Suc k) m"
    using copy_block_extend[of k d s 0 k m] Suc.prems assms(2) by simp
  then show ?case using Suc by simp
qed (simp add: copy_block_empty)

lemma backward_copy:
  assumes "s < d" "unat d + n \<le> 2 ^ 64" "k \<le> n"
  shows "fold (\<lambda>i. copy_byte d s (i - 1)) (rev [n - k + 1..<n + 1]) m = copy_block d s (n - k) n m"
  using assms(3)
proof (induction k)
  case (Suc k)
  define i where "i = n - Suc k"
  have i: "n - k = Suc i" "i < n" "i < 2 ^ 64" using Suc.prems assms(2) by (simp_all add: i_def)
  have l: "[i + 1..<n + 1] = (i + 1) # [n - k + 1..<n + 1]" using i by (simp add: upt_conv_Cons del: upt_Suc)
  have "copy_block d s (n - k) n m (s + of_nat i) = m (s + of_nat i)"
    using source_behind[OF assms(1,2) i(2)] i(1) by (auto simp: copy_block_def)
  then have "copy_byte d s i (copy_block d s (n - k) n m) = copy_block d s i n m"
    using copy_block_extend[of i d s "n - k" n m] i by simp
  then show ?case using Suc l unfolding i_def[symmetric] by simp
qed (simp add: copy_block_empty)

text \<open>C30. Moving a block is a simultaneous copy however the operands overlap: each destination byte
  receives the source byte as it was before the move and no other byte changes, for blocks
  that end within the address space.  \<open>memcpy\<close> has the same effect when the destination does not
  start after the source, and when the two blocks do not overlap.\<close>

theorem mem_move_simultaneous:
  assumes "unat dest + unat n \<le> 2 ^ 64" "unat src + unat n \<le> 2 ^ 64"
  shows "mem_move dest src n m = (\<lambda>a. if unat (a - dest) < unat n then m (src + (a - dest)) else m a)
    \<and> (dest \<le> src \<or> unat src + unat n \<le> unat dest \<longrightarrow>
         mem_cpy dest src n m = (\<lambda>a. if unat (a - dest) < unat n then m (src + (a - dest)) else m a))"
proof -
  have b: "(\<lambda>a. if unat (a - dest) < unat n then m (src + (a - dest)) else m a) = copy_block dest src 0 (unat n) m"
    by (simp add: copy_block_def)
  have cpy: "fold (copy_byte dest src) [0..<unat n] m = copy_block dest src 0 (unat n) m"
    if "dest \<le> src \<or> unat src + unat n \<le> unat dest" using forward_copy[OF that assms(2,1) order_refl] .
  consider "dest < src" | "src < dest" | "dest = src" by (rule linorder_cases)
  then have "mem_move dest src n m = copy_block dest src 0 (unat n) m"
  proof cases
    case 1
    then show ?thesis using cpy[OF disjI1[OF less_imp_le[OF 1]]] by (simp add: mem_move_def)
  next
    case 2
    then show ?thesis using backward_copy[OF 2 assms(1) order_refl, of m] by (simp add: mem_move_def less_not_sym[OF 2] del: upt_Suc)
  next
    case 3
    then show ?thesis by (rule_tac ext) (simp add: mem_move_def copy_block_def)
  qed
  then show ?thesis using cpy unfolding b mem_cpy_def by blast
qed

theorem mem_move_simultaneous_witness:
  "mem_move 2 0 8 (\<lambda>a. ucast a) = (\<lambda>a. if unat (a - 2) < 8 then ucast (0 + (a - 2)) else ucast a)
   \<and> mem_cpy 8 0 8 (\<lambda>a. ucast a) = (\<lambda>a. if unat (a - 8) < 8 then ucast (0 + (a - 8)) else ucast a)
   \<and> mem_cpy 2 0 8 (\<lambda>a. ucast a) 6 = 0 \<and> mem_move 2 0 8 (\<lambda>a. ucast a) 6 = 4"
proof -
  have "mem_cpy 2 0 8 (\<lambda>a. ucast a) 6 = 0" by code_simp
  then show ?thesis using mem_move_simultaneous[of 2 8 0 "\<lambda>a. ucast a"] mem_move_simultaneous[of 8 8 0 "\<lambda>a. ucast a"] by simp
qed

section \<open>Terminated strings in memory\<close>

fun cstr :: "byte_mem \<Rightarrow> u64 \<Rightarrow> u8 list \<Rightarrow> bool" where
  "cstr m s [] = (m s = 0)"
| "cstr m s (x # xs) = (m s = x \<and> x \<noteq> 0 \<and> cstr m (s + 1) xs)"

lemma strlen_from_cstr:
  "cstr m (s + len) xs \<Longrightarrow> strlen_from m s len = Some (len + of_nat (length xs))"
proof (induction xs arbitrary: len)
  case Nil
  then show ?case by (subst strlen_from.simps) simp
next
  case (Cons x xs)
  then have "strlen_from m s (len + 1) = Some (len + 1 + of_nat (length xs))" by (simp add: add.assoc)
  then show ?case using Cons.prems by (subst strlen_from.simps) (simp add: algebra_simps)
qed

lemma strlen_cstr: "cstr m s xs \<Longrightarrow> s \<noteq> 0 \<Longrightarrow> strlen m s = Some (of_nat (length xs))"
  using strlen_from_cstr[of m s 0 xs] by (simp add: strlen_def)

lemma uint_diff_0: "uint (a::u8) - uint b = 0 \<longleftrightarrow> a = b" "uint a = uint b \<longleftrightarrow> a = b" "uint a = 0 \<longleftrightarrow> a = 0"
  by (simp_all add: word_uint_eq_iff)

lemma strcmp_from_cstr:
  "cstr m a xs \<Longrightarrow> cstr m b ys \<Longrightarrow> \<exists>r. strcmp_from m a b = Some r \<and> (r = 0 \<longleftrightarrow> xs = ys)"
proof (induction xs arbitrary: a b ys)
  case Nil
  then show ?case by (subst strcmp_from.simps) (cases ys; auto simp: uint_diff_0)
next
  case (Cons x xs)
  show ?case
  proof (cases "\<exists>zs. ys = x # zs")
    case True
    then obtain zs where z: "ys = x # zs" by blast
    obtain r where "strcmp_from m (a + 1) (b + 1) = Some r" "r = 0 \<longleftrightarrow> xs = zs"
      using Cons.IH[of "a + 1" "b + 1" zs] Cons.prems z by auto
    then show ?thesis using Cons.prems z by (subst strcmp_from.simps) simp
  next
    case False
    then have "m a \<noteq> m b" using Cons.prems by (cases ys) auto
    then have "strcmp_from m a b = Some (uint (m a) - uint (m b))" by (subst strcmp_from.simps) simp
    then show ?thesis using \<open>m a \<noteq> m b\<close> False by (auto simp: uint_diff_0)
  qed
qed

text \<open>On terminated strings the comparison returns, and it returns zero exactly for equal strings.\<close>

lemma strcmp_cstr:
  "cstr m a xs \<Longrightarrow> cstr m b ys \<Longrightarrow> a \<noteq> 0 \<Longrightarrow> b \<noteq> 0 \<Longrightarrow> \<exists>r. strcmp m a b = Some r \<and> (r = 0 \<longleftrightarrow> xs = ys)"
  using strcmp_from_cstr by (simp add: strcmp_def)

lemma strncmp_from_cstr:
  "cstr m a xs \<Longrightarrow> cstr m b ys \<Longrightarrow> strncmp_from m a b n = 0 \<longleftrightarrow> take n xs = take n ys"
proof (induction n arbitrary: a b xs ys)
  case (Suc n)
  then show ?case by (cases xs; cases ys) (auto simp: uint_diff_0)
qed simp

lemma mem_cmp_from_0:
  "mem_cmp_from m a b n = 0 \<longleftrightarrow> (\<forall>i<n. m (a + of_nat i) = m (b + of_nat i))"
proof (induction n arbitrary: a b)
  case (Suc n)
  have "(\<forall>i<Suc n. m (a + of_nat i) = m (b + of_nat i)) \<longleftrightarrow>
      m a = m b \<and> (\<forall>i<n. m (a + 1 + of_nat i) = m (b + 1 + of_nat i))"
    by (auto simp: less_Suc_eq_0_disj add.assoc)
  then show ?case using Suc by auto
qed simp

end
