(* ===== verification/User_Memory.thy ===== *)
theory User_Memory
  imports Stack_Allocator
begin

text \<open>
  The validator of pointers that come from user programs
  (\<open>src/kernel/userland/user_memory.hpp\<close>, \<open>user_memory.cpp\<close>), over the page tables the
  processor uses.  Bytes of memory are read through the translation of their address.
\<close>

unbundle bit_operations_syntax

section \<open>Bytes\<close>

definition phys_byte :: "page_mem \<Rightarrow> u64 \<Rightarrow> u8" where
  "phys_byte mem pa = ucast (drop_bit (8 * (unat pa mod 8)) (mem (pa AND NOT 0xFFF) (unat pa mod 4096 div 8)))"

definition virt_byte :: "vmm \<Rightarrow> page_mem \<Rightarrow> u64 \<Rightarrow> u8 option" where
  "virt_byte v mem va = (case translate v mem va of None \<Rightarrow> None | Some (pa, _) \<Rightarrow> Some (phys_byte mem pa))"

section \<open>The validator\<close>

definition USER_ADDR_MIN :: u64 where "USER_ADDR_MIN = 0x1000"
definition USER_ADDR_MAX :: u64 where "USER_ADDR_MAX = 0x00007FFFFFFFFFFF"
definition MAX_USER_BUFFER_SIZE :: u64 where "MAX_USER_BUFFER_SIZE = 16 * 1024 * 1024"

definition is_user_address :: "u64 \<Rightarrow> bool" where
  "is_user_address addr = (addr \<ge> USER_ADDR_MIN \<and> addr \<le> USER_ADDR_MAX)"

definition is_user_range :: "u64 \<Rightarrow> u64 \<Rightarrow> bool" where
  "is_user_range start len =
     (if len = 0 then False
      else if len > MAX_USER_BUFFER_SIZE then False
      else if \<not> is_user_address start then False
      else let end = start + len in
        if end < start then False
        else let last_byte = end - 1 in \<not> last_byte > USER_ADDR_MAX)"

text \<open>The body of the page loops; \<open>write\<close> adds the test that only the write validation makes.\<close>

definition page_ok :: "bool \<Rightarrow> vmm \<Rightarrow> page_mem \<Rightarrow> u64 \<Rightarrow> bool" where
  "page_ok write v mem va =
     (case translate v mem va of
        None \<Rightarrow> False
      | Some (_, flags) \<Rightarrow>
          test_flag flags PF_Present \<and> test_flag flags PF_User \<and> (write \<longrightarrow> test_flag flags PF_Writable))"

text \<open>The pages visited by \<open>for (va = page_start; va < page_end; va += PAGE_SIZE)\<close>; both bounds
  are page-aligned.\<close>

definition loop_pages :: "u64 \<Rightarrow> u64 \<Rightarrow> u64 list" where
  "loop_pages page_start page_end =
     (if page_start < page_end
      then map (\<lambda>i. page_start + of_nat i * PAGE_SIZE) [0..<unat (page_end - page_start) div 4096]
      else [])"

definition validate_buffer :: "bool \<Rightarrow> vmm \<Rightarrow> page_mem \<Rightarrow> u64 \<Rightarrow> u64 \<Rightarrow> bool" where
  "validate_buffer write v mem start len =
     (if start = 0 \<or> len = 0 then False
      else if \<not> is_user_range start len then False
      else let end = start + len;
               page_start = start AND NOT (PAGE_SIZE - 1);
               page_end = (end + PAGE_SIZE - 1) AND NOT (PAGE_SIZE - 1)
           in list_all (page_ok write v mem) (loop_pages page_start page_end))"

definition validate_read_buffer :: "vmm \<Rightarrow> page_mem \<Rightarrow> u64 \<Rightarrow> u64 \<Rightarrow> bool" where
  "validate_read_buffer = validate_buffer False"

definition validate_write_buffer :: "vmm \<Rightarrow> page_mem \<Rightarrow> u64 \<Rightarrow> u64 \<Rightarrow> bool" where
  "validate_write_buffer = validate_buffer True"

text \<open>The scan of a string, for the number of characters left; the result is its length.\<close>

fun scan_string :: "vmm \<Rightarrow> page_mem \<Rightarrow> u64 \<Rightarrow> u64 \<Rightarrow> nat \<Rightarrow> u64 option" where
  "scan_string v mem start len 0 = None"
| "scan_string v mem start len (Suc n) =
     (let current_addr = start + len in
      if current_addr > USER_ADDR_MAX then None
      else if \<not> page_ok False v mem (current_addr AND NOT (PAGE_SIZE - 1)) then None
      else if virt_byte v mem current_addr = Some 0 then Some len
      else scan_string v mem start (len + 1) n)"

definition validate_string :: "vmm \<Rightarrow> page_mem \<Rightarrow> u64 \<Rightarrow> u64 \<Rightarrow> u64 option" where
  "validate_string v mem str max_len =
     (if str = 0 \<or> max_len = 0 then None
      else if \<not> is_user_address str then None
      else scan_string v mem str 0 (unat max_len))"

section \<open>Pages\<close>

lemma user_consts: "unat USER_ADDR_MIN = 4096" "unat USER_ADDR_MAX = 2 ^ 47 - 1" "unat MAX_USER_BUFFER_SIZE = 2 ^ 24"
  by (simp_all add: USER_ADDR_MIN_def USER_ADDR_MAX_def MAX_USER_BUFFER_SIZE_def)

lemma user_address_iff: "is_user_address a \<longleftrightarrow> 4096 \<le> unat a \<and> unat a < 2 ^ 47"
  unfolding is_user_address_def word_le_nat_alt user_consts by auto

lemma is_user_range_iff:
  "is_user_range start len \<longleftrightarrow> 0 < unat len \<and> unat len \<le> 2 ^ 24 \<and> 4096 \<le> unat start \<and> unat start + unat len \<le> 2 ^ 47"
proof (cases "is_user_address start \<and> 0 < unat len \<and> unat len \<le> 2 ^ 24")
  case False
  then have "\<not> is_user_range start len"
    unfolding is_user_range_def Let_def by (auto simp: word_less_nat_alt user_consts unat_gt_0)
  moreover have "\<not> (0 < unat len \<and> unat len \<le> 2 ^ 24 \<and> 4096 \<le> unat start \<and> unat start + unat len \<le> 2 ^ 47)"
    using False unfolding user_address_iff by linarith
  ultimately show ?thesis by blast
next
  case True
  then have u: "unat (start + len) = unat start + unat len"
    by (subst unat_add_nowrap) (simp_all add: user_address_iff)
  then have "unat (start + len - 1) = unat start + unat len - 1"
    using True by (subst unat_sub_nowrap) (simp_all add: word_le_nat_alt)
  then show ?thesis using True u
    unfolding is_user_range_def Let_def
    by (auto simp: word_le_nat_alt word_less_nat_alt user_consts user_address_iff unat_eq_0)
qed

lemma page_mask: "a AND NOT (PAGE_SIZE - 1) = a - page_offset a"
proof -
  have "PAGE_SIZE - 1 = mask 12" by (simp add: PAGE_SIZE_def mask_eq_exp_minus_1)
  moreover have "page_offset a = take_bit 12 a" by (simp add: page_offset_def low_mask_12 take_bit_eq_mask)
  ultimately show ?thesis by (simp add: and_not_mask_minus)
qed

lemma walk_same_page:
  assumes "va div PAGE_SIZE = va' div PAGE_SIZE"
  shows "map_option fst (walk mem root va) = map_option fst (walk mem root va')"
  using same_page_indices[OF assms] by (simp add: walk_def Let_def)

lemma page_ok_same_page:
  assumes "va div PAGE_SIZE = va' div PAGE_SIZE" "is_canonical va" "is_canonical va'"
  shows "page_ok w v mem va = page_ok w v mem va'"
proof -
  have "map_option snd (translate v mem x) = (if m_vmm_initialized v then map_option (pte_flags \<circ> fst)
      (walk mem (if hw_cr3 v \<noteq> 0 then hw_cr3 v AND NOT 0xFFF else m_root_pml4_paddr v) x) else None)"
    if "is_canonical x" for x
    using that by (auto simp: translate_def Let_def split: option.splits)
  then have "map_option snd (translate v mem va) = map_option snd (translate v mem va')"
    using walk_same_page[OF assms(1)] assms(2,3) by (simp flip: option.map_comp)
  then show ?thesis by (cases "translate v mem va"; cases "translate v mem va'") (auto simp: page_ok_def)
qed

lemma buffer_page_list:
  assumes "is_user_range start len"
  defines "S \<equiv> unat start div 4096" and "E \<equiv> (unat start + unat len - 1) div 4096"
  shows "loop_pages (start AND NOT (PAGE_SIZE - 1)) ((start + len + PAGE_SIZE - 1) AND NOT (PAGE_SIZE - 1)) =
    map (\<lambda>k. of_nat (4096 * k)) [S..<Suc E]"
proof -
  note R = assms(1)[unfolded is_user_range_iff]
  have e: "unat (start + len) = unat start + unat len" using R by (subst unat_add_nowrap) simp_all
  then have "unat (start + len + 0xFFF) = unat start + unat len + 4095" using R by (subst unat_add_nowrap) simp_all
  moreover have "start + len + PAGE_SIZE - 1 = start + len + 0xFFF" by (simp add: PAGE_SIZE_def)
  ultimately have e1: "unat (start + len + PAGE_SIZE - 1) = unat start + unat len + 4095" by (simp only:)
  define ps pe where "ps = start AND NOT (PAGE_SIZE - 1)" and "pe = (start + len + PAGE_SIZE - 1) AND NOT (PAGE_SIZE - 1)"
  have ps: "unat ps = 4096 * S" unfolding ps_def page_mask page_base(1) S_def ..
  have "(unat start + unat len + 4095) div 4096 = (unat start + unat len - 1 + 4096) div 4096" using R by simp
  then have "(unat start + unat len + 4095) div 4096 = Suc E" by (simp add: E_def)
  then have pe: "unat pe = 4096 * Suc E" unfolding pe_def page_mask page_base(1) e1 by simp
  have SE: "S \<le> E" using R unfolding S_def E_def by (intro div_le_mono) linarith
  have lt: "ps < pe" using SE by (simp add: word_less_nat_alt ps pe)
  then have n: "unat (pe - ps) div 4096 = Suc E - S" using ps pe SE by (simp add: unat_sub_nowrap diff_mult_distrib2[symmetric])
  have "ps = of_nat (4096 * S)" unfolding ps[symmetric] by simp
  then have "loop_pages ps pe = map (\<lambda>i. of_nat (4096 * (S + i))) [0..<Suc E - S]"
    using lt n by (simp add: loop_pages_def PAGE_SIZE_def algebra_simps)
  also have "\<dots> = map (\<lambda>k. of_nat (4096 * k)) (map ((+) S) [0..<Suc E - S])" by simp
  also have "map ((+) S) [0..<Suc E - S] = [S..<Suc E]" 
    using SE by (intro nth_equalityI) (simp_all del: upt_Suc)
  finally show ?thesis by (simp add: ps_def pe_def)
qed

lemma page_ok_number:
  assumes "unat a < 2 ^ 47"
  shows "page_ok w v mem (of_nat (4096 * (unat a div 4096))) = page_ok w v mem a"
proof -
  have "of_nat (4096 * (unat a div 4096)) = a - page_offset a"
    unfolding page_base(1)[of a, symmetric] by simp
  moreover have "is_canonical a" using assms by (simp add: is_canonical_iff)
  ultimately show ?thesis using page_ok_same_page[of "a - page_offset a" a] page_base(2,4) by simp
qed

lemma validate_buffer_iff:
  "validate_buffer w v mem start len \<longleftrightarrow> is_user_range start len
     \<and> (\<forall>a::u64. unat start \<le> unat a \<and> unat a < unat start + unat len \<longrightarrow> page_ok w v mem a)"
proof (cases "is_user_range start len")
  case True
  note R = True[unfolded is_user_range_iff]
  define S E where "S = unat start div 4096" and "E = (unat start + unat len - 1) div 4096"
  have "validate_buffer w v mem start len \<longleftrightarrow> (\<forall>k. S \<le> k \<and> k \<le> E \<longrightarrow> page_ok w v mem (of_nat (4096 * k)))"
    using True R buffer_page_list[OF True]
    by (auto simp: validate_buffer_def Let_def list_all_iff S_def E_def less_Suc_eq_le simp del: upt_Suc)
  also have "\<dots> \<longleftrightarrow> (\<forall>a::u64. unat start \<le> unat a \<and> unat a < unat start + unat len \<longrightarrow> page_ok w v mem a)" (is "?l = ?r")
  proof
    assume l: ?l
    show ?r
    proof (intro allI impI)
      fix a :: u64 assume a: "unat start \<le> unat a \<and> unat a < unat start + unat len"
      have "S \<le> unat a div 4096" "unat a div 4096 \<le> E" unfolding S_def E_def using a by (auto intro!: div_le_mono)
      then have "page_ok w v mem (of_nat (4096 * (unat a div 4096)))" using l by blast
      then show "page_ok w v mem a" using page_ok_number[of a w v mem] a R by simp
    qed
  next
    assume r: ?r
    show ?l
    proof (intro allI impI)
      fix k assume k: "S \<le> k \<and> k \<le> E"
      define a where "a = max (unat start) (4096 * k)"
      have "4096 * E \<le> unat start + unat len - 1" unfolding E_def by simp
      then have a: "unat start \<le> a" "a < unat start + unat len" using k R unfolding a_def by auto
      have "a div 4096 = k"
      proof (cases "unat start \<le> 4096 * k")
        case False
        then have "k \<le> S" unfolding S_def using div_le_mono[of "4096 * k" "unat start" 4096] by simp
        then show ?thesis using k False by (simp add: a_def S_def)
      qed (simp add: a_def)
      moreover have "unat (of_nat a :: u64) = a" using a R by (simp add: unat_of_nat)
      ultimately show "page_ok w v mem (of_nat (4096 * k))"
        using r[rule_format, of "of_nat a"] page_ok_number[of "of_nat a" w v mem] a R by simp
    qed
  qed
  finally show ?thesis using True by simp
qed (simp add: validate_buffer_def)

text \<open>A validated string lies in user memory up to its terminator, every byte of it on a present
  user page, and is shorter than the limit.\<close>

lemma scan_string_Some:
  assumes "scan_string v mem start len n = Some k" "unat start + unat len + n < 2 ^ 64"
  shows "len \<le> k \<and> unat k < unat len + n \<and> virt_byte v mem (start + k) = Some 0
    \<and> (\<forall>i. unat len \<le> i \<and> i \<le> unat k \<longrightarrow> start + of_nat i \<le> USER_ADDR_MAX
         \<and> page_ok False v mem ((start + of_nat i) AND NOT (PAGE_SIZE - 1)))"
  using assms
proof (induction n arbitrary: len)
  case (Suc n)
  then have c: "start + len \<le> USER_ADDR_MAX" "page_ok False v mem ((start + len) AND NOT (PAGE_SIZE - 1))"
    by (auto simp: Let_def split: if_splits)
  show ?case
  proof (cases "virt_byte v mem (start + len) = Some 0")
    case True
    then have "k = len" using Suc.prems(1) c by (auto simp: Let_def split: if_splits)
    then show ?thesis using c True by auto
  next
    case False
    then have r: "scan_string v mem start (len + 1) n = Some k" using Suc.prems(1) c by (auto simp: Let_def split: if_splits)
    have u: "unat (len + 1) = unat len + 1" using Suc.prems(2) by (subst unat_add_nowrap) simp_all
    have I: "len + 1 \<le> k \<and> unat k < unat len + 1 + n \<and> virt_byte v mem (start + k) = Some 0
      \<and> (\<forall>i. unat len + 1 \<le> i \<and> i \<le> unat k \<longrightarrow> start + of_nat i \<le> USER_ADDR_MAX
         \<and> page_ok False v mem ((start + of_nat i) AND NOT (PAGE_SIZE - 1)))"
      using Suc.IH[OF r] Suc.prems(2) u by simp
    then have le: "unat len + 1 \<le> unat k" unfolding word_le_nat_alt u by simp
    have "start + of_nat i \<le> USER_ADDR_MAX \<and> page_ok False v mem ((start + of_nat i) AND NOT (PAGE_SIZE - 1))"
      if "unat len \<le> i \<and> i \<le> unat k" for i
      using that I c by (cases "i = unat len") auto
    then show ?thesis using I le by (simp add: word_le_nat_alt)
  qed
qed simp

text \<open>C31. The pointer validator is exact: a buffer is accepted for reading or writing exactly when it
  is non-empty, at most 16 MiB, lies between the null page and the end of the user half without
  wrapping, and every one of its bytes is on a present page that user code may access, and
  may write when the buffer is to be written.\<close>

theorem user_buffer_exact:
  "(if write then validate_write_buffer else validate_read_buffer) v mem start len \<longleftrightarrow>
     0 < unat len \<and> unat len \<le> 2 ^ 24 \<and> 4096 \<le> unat start \<and> unat start + unat len \<le> 2 ^ 47
     \<and> (\<forall>a::u64. unat start \<le> unat a \<and> unat a < unat start + unat len \<longrightarrow>
          (\<exists>pa flags. translate v mem a = Some (pa, flags) \<and> test_flag flags PF_Present \<and> test_flag flags PF_User
             \<and> (write \<longrightarrow> test_flag flags PF_Writable)))"
proof -
  have "page_ok write v mem a \<longleftrightarrow> (\<exists>pa flags. translate v mem a = Some (pa, flags) \<and> test_flag flags PF_Present
      \<and> test_flag flags PF_User \<and> (write \<longrightarrow> test_flag flags PF_Writable))" for a
    by (auto simp: page_ok_def split: option.splits)
  moreover have "(if write then validate_write_buffer else validate_read_buffer) v mem start len = validate_buffer write v mem start len"
    by (simp add: validate_write_buffer_def validate_read_buffer_def)
  ultimately show ?thesis unfolding validate_buffer_iff is_user_range_iff by auto
qed

definition example_user_mem :: page_mem where
  "example_user_mem = snd (snd (map_page_in_table example_vmm (roomy_pmm, \<lambda>_ _. 0) 0x2000 0x400000 0xF000
     (PF_Present OR PF_Writable OR PF_User)))"

theorem user_buffer_exact_witness:
  "validate_write_buffer example_vmm example_user_mem 0x400FF0 16
   \<and> \<not> validate_write_buffer example_vmm example_user_mem 0x400FF1 16
   \<and> (\<exists>pa flags. translate example_vmm example_user_mem 0x400FFF = Some (pa, flags) \<and> test_flag flags PF_Writable)"
proof -
  have "validate_write_buffer example_vmm example_user_mem 0x400FF0 16" by code_simp
  moreover have "\<not> validate_write_buffer example_vmm example_user_mem 0x400FF1 16" by code_simp
  ultimately show ?thesis using user_buffer_exact[of True example_vmm example_user_mem "0x400FF0" 16]
    by (auto dest: spec[of _ "0x400FFF"])
qed

end
