(* ===== verification/Kalloc.thy ===== *)
theory Kalloc
  imports Stack_Allocator
begin

text \<open>
  The kernel heap (\<open>src/kernel/memory/kalloc.hpp\<close>, \<open>kalloc.cpp\<close>): page allocations and the
  slab allocator behind \<open>kmalloc\<close> and \<open>kfree\<close>.  Free lists are linked through the memory of
  the free blocks themselves, as in the code; pointers are virtual addresses of the direct
  map, and blocks are accessed by 64-bit words.  An allocation header is the pair of words
  \<open>magic, size\<close> and \<open>page_count, slab_bin, reserved\<close>.
\<close>

unbundle bit_operations_syntax

section \<open>Words behind pointers\<close>

definition loc :: "u64 \<Rightarrow> u64 \<times> nat" where
  "loc va = (virt_to_phys va AND NOT 0xFFF, unat (virt_to_phys va) mod 4096 div 8)"

definition rd64 :: "page_mem \<Rightarrow> u64 \<Rightarrow> u64" where
  "rd64 mem va = mem (fst (loc va)) (snd (loc va))"

definition wr64 :: "u64 \<Rightarrow> u64 \<Rightarrow> page_mem \<Rightarrow> page_mem" where
  "wr64 va w mem = write_entry mem (fst (loc va)) (snd (loc va)) w"

section \<open>The allocator\<close>

definition ALLOC_MAGIC :: u32 where "ALLOC_MAGIC = 0x4C4C414D"
definition SLAB_SIZES :: "u64 list" where "SLAB_SIZES = [64, 128, 256, 512, 1024, 2048]"
definition NUM_SLABS :: nat where "NUM_SLABS = 6"
definition HEADER_SIZE :: u64 where "HEADER_SIZE = 16"
definition DIRECT_BIN :: u8 where "DIRECT_BIN = 0xFF"

record kheap =
  g_slab_freelists :: "u64 list"
  h_mem :: "pmm \<times> page_mem"

text \<open>The fields of the header, each written into its place in the two words.\<close>

definition put_magic_size :: "u64 \<Rightarrow> u32 \<Rightarrow> u32 \<Rightarrow> page_mem \<Rightarrow> page_mem" where
  "put_magic_size h magic sz = wr64 h (push_bit 32 (ucast sz) OR ucast magic)"

definition put_pages_bin :: "u64 \<Rightarrow> u32 \<Rightarrow> u8 \<Rightarrow> page_mem \<Rightarrow> page_mem" where
  "put_pages_bin h pages bin mem =
     wr64 (h + 8) ((rd64 mem (h + 8) AND push_bit 40 (mask 24)) OR push_bit 32 (ucast bin) OR ucast pages) mem"

definition get_magic :: "page_mem \<Rightarrow> u64 \<Rightarrow> u32" where "get_magic mem h = ucast (rd64 mem h)"
definition get_page_count :: "page_mem \<Rightarrow> u64 \<Rightarrow> u32" where "get_page_count mem h = ucast (rd64 mem (h + 8))"
definition get_slab_bin :: "page_mem \<Rightarrow> u64 \<Rightarrow> u8" where "get_slab_bin mem h = ucast (drop_bit 32 (rd64 mem (h + 8)))"

definition clear_magic :: "u64 \<Rightarrow> page_mem \<Rightarrow> page_mem" where
  "clear_magic h mem = wr64 h (rd64 mem h AND push_bit 32 (mask 32)) mem"

definition find_slab_bin :: "u64 \<Rightarrow> nat option" where
  "find_slab_bin total_needed = List.find (\<lambda>i. total_needed \<le> SLAB_SIZES ! i) [0..<NUM_SLABS]"

definition alloc_kernel_pages :: "u64 \<Rightarrow> pmm \<times> page_mem \<Rightarrow> u64 \<times> pmm \<times> page_mem" where
  "alloc_kernel_pages cnt s =
     (if cnt = 0 then (0, s)
      else case alloc_pages s cnt of (pa, p, mem) \<Rightarrow>
        if pa = 0 then (0, p, mem)
        else (phys_to_virt pa, p, zero_pages mem pa (unat cnt)))"

definition free_kernel_pages :: "u64 \<Rightarrow> u64 \<Rightarrow> pmm \<times> page_mem \<Rightarrow> bool \<times> pmm \<times> page_mem" where
  "free_kernel_pages virt_addr cnt = (\<lambda>(p, mem).
     if virt_addr = 0 \<or> cnt = 0 then (False, p, mem)
     else case free_pages p (virt_to_phys virt_addr) cnt of (ok, p') \<Rightarrow> (ok, p', mem))"

text \<open>Replenishing a bin: the blocks of a fresh page are pushed one after the other.\<close>

definition push_block :: "u64 \<Rightarrow> u64 \<Rightarrow> nat \<Rightarrow> u64 \<times> page_mem \<Rightarrow> u64 \<times> page_mem" where
  "push_block page block_size b = (\<lambda>(head, mem).
     let node = page + of_nat b * block_size in (node, wr64 node head mem))"

definition replenish :: "nat \<Rightarrow> kheap \<Rightarrow> bool \<times> kheap" where
  "replenish bin H =
     (case alloc_kernel_pages 1 (h_mem H) of (new_page, p, mem) \<Rightarrow>
        if new_page = 0 then (False, H\<lparr>h_mem := (p, mem)\<rparr>)
        else let block_size = SLAB_SIZES ! bin;
                 (head, mem') = fold (push_block new_page block_size) [0..<unat (PAGE_SIZE div block_size)]
                   (g_slab_freelists H ! bin, mem)
             in (True, H\<lparr>g_slab_freelists := (g_slab_freelists H)[bin := head], h_mem := (p, mem')\<rparr>))"

definition pop_block :: "nat \<Rightarrow> u64 \<Rightarrow> kheap \<Rightarrow> u64 \<times> kheap" where
  "pop_block bin sz H =
     (let node = g_slab_freelists H ! bin;
          (p, mem) = h_mem H;
          heads = (g_slab_freelists H)[bin := rd64 mem node];
          mem' = put_pages_bin node 0 (of_nat bin) (put_magic_size node ALLOC_MAGIC (ucast sz) mem)
      in (node + HEADER_SIZE, H\<lparr>g_slab_freelists := heads, h_mem := (p, mem')\<rparr>))"

definition kmalloc :: "u64 \<Rightarrow> kheap \<Rightarrow> u64 \<times> kheap" where
  "kmalloc sz H =
     (if sz = 0 then (0, H)
      else let total_needed = sz + HEADER_SIZE in
        case find_slab_bin total_needed of
          Some bin \<Rightarrow>
            if g_slab_freelists H ! bin = 0
            then case replenish bin H of (ok, H1) \<Rightarrow> if \<not> ok then (0, H1) else pop_block bin sz H1
            else pop_block bin sz H
        | None \<Rightarrow>
            let pages = pages_from_bytes total_needed in
            case alloc_kernel_pages pages (h_mem H) of (page_ptr, p, mem) \<Rightarrow>
              if page_ptr = 0 then (0, H\<lparr>h_mem := (p, mem)\<rparr>)
              else (page_ptr + HEADER_SIZE,
                    H\<lparr>h_mem := (p, put_pages_bin page_ptr (ucast pages) DIRECT_BIN
                                  (put_magic_size page_ptr ALLOC_MAGIC (ucast sz) mem))\<rparr>))"

definition kfree :: "u64 \<Rightarrow> kheap \<Rightarrow> kheap" where
  "kfree ptr H =
     (if ptr = 0 then H
      else let h = ptr - HEADER_SIZE; (p, mem) = h_mem H in
        if get_magic mem h \<noteq> ALLOC_MAGIC
        then (if is_page_aligned ptr then H\<lparr>h_mem := snd (free_kernel_pages ptr 1 (p, mem))\<rparr> else H)
        else let mem1 = clear_magic h mem; bin = unat (get_slab_bin mem1 h) in
          if get_slab_bin mem1 h \<noteq> DIRECT_BIN \<and> bin < NUM_SLABS
          then H\<lparr>h_mem := (p, wr64 h (g_slab_freelists H ! bin) mem1),
                 g_slab_freelists := (g_slab_freelists H)[bin := h]\<rparr>
          else if get_page_count mem1 h > 0
          then H\<lparr>h_mem := snd (free_kernel_pages h (ucast (get_page_count mem1 h)) (p, mem1))\<rparr>
          else H\<lparr>h_mem := (p, mem1)\<rparr>)"

section \<open>Blocks\<close>

lemma loc_page:
  assumes "is_page_aligned pa" "k < 512"
  shows "loc (phys_to_virt pa + of_nat (8 * k)) = (pa, k)"
proof -
  have v: "virt_to_phys (phys_to_virt pa + of_nat (8 * k)) = pa + of_nat (8 * k)"
    by (simp add: virt_to_phys_def phys_to_virt_def)
  have o: "unat (of_nat (8 * k) :: u64) = 8 * k" using assms(2) by (simp only: unat_of_nat) simp
  then have l: "unat (of_nat (8 * k) :: u64) < 4096" using assms(2) by (simp only:)
  note P = page_plus_offset[OF assms(1) l]
  have "4096 dvd unat pa" using assms(1) by (simp add: is_page_aligned_iff)
  then have "(unat pa + 8 * k) mod 4096 div 8 = k"
    using assms(2) by (simp add: mod_add_eq[symmetric] dvd_imp_mod_0)
  then show ?thesis unfolding loc_def v P(2,3) o by (simp only:)
qed

definition span :: "u64 \<Rightarrow> nat \<Rightarrow> (u64 \<times> nat) set" where
  "span a n = (\<lambda>k. loc (a + of_nat (8 * k))) ` {..<n}"

lemma span_page:
  assumes "is_page_aligned pa" "m + n \<le> 512"
  shows "span (phys_to_virt pa + of_nat (8 * m)) n = {pa} \<times> {m..<m + n}"
proof -
  have "span (phys_to_virt pa + of_nat (8 * m)) n = (\<lambda>k. (pa, m + k)) ` {..<n}"
    unfolding span_def using loc_page[OF assms(1), of "m + _"] assms(2)
    by (intro image_cong refl) (simp add: algebra_simps)
  also have "\<dots> = {pa} \<times> {m..<m + n}"
    by (auto simp: image_iff) (metis add_diff_inverse_nat lessThan_iff nat_add_left_cancel_less not_le)
  finally show ?thesis .
qed

lemma wr64_other: "loc va \<noteq> (pg, i) \<Longrightarrow> wr64 va w mem pg i = mem pg i"
  by (auto simp: wr64_def loc_def write_entry_other)

lemma rd64_wr64: "rd64 (wr64 va w mem) va' = (if loc va = loc va' then w else rd64 mem va')"
  by (auto simp: rd64_def wr64_def write_entry_def prod_eq_iff)

fun flist :: "page_mem \<Rightarrow> u64 \<Rightarrow> u64 list \<Rightarrow> bool" where
  "flist mem h [] = (h = 0)"
| "flist mem h (x # xs) = (h = x \<and> x \<noteq> 0 \<and> flist mem (rd64 mem x) xs)"

lemma flist_cong: "(\<forall>x\<in>set xs. rd64 mem' x = rd64 mem x) \<Longrightarrow> flist mem' h xs = flist mem h xs"
  by (induction xs arbitrary: h) auto

lemma flist_nonnull: "flist mem h xs \<Longrightarrow> h \<noteq> 0 \<Longrightarrow> \<exists>ys. xs = h # ys \<and> flist mem (rd64 mem h) ys"
  by (cases xs) auto

section \<open>The invariant\<close>

text \<open>The words of a block of a bin, and what holds of the heap when \<open>L\<close> is the set of words in
  use: the free lists are linked lists of blocks that overlap neither each other nor \<open>L\<close>, and
  no word of either lies in a page the page allocator may hand out.\<close>

definition block_words :: "nat \<Rightarrow> nat" where "block_words bin = unat (SLAB_SIZES ! bin) div 8"

abbreviation slab_block :: "nat \<Rightarrow> u64 \<Rightarrow> (u64 \<times> nat) set" where "slab_block bin x \<equiv> span x (block_words bin)"

definition lists_ok :: "(nat \<Rightarrow> u64 list) \<Rightarrow> (u64 \<times> nat) set \<Rightarrow> u64 list \<Rightarrow> page_mem \<Rightarrow> bool" where
  "lists_ok FL L heads mem \<longleftrightarrow> length heads = NUM_SLABS
     \<and> (\<forall>i<NUM_SLABS. flist mem (heads ! i) (FL i) \<and> distinct (FL i) \<and> (\<forall>x\<in>set (FL i). slab_block i x \<inter> L = {}))
     \<and> (\<forall>i<NUM_SLABS. \<forall>j<NUM_SLABS. \<forall>x\<in>set (FL i). \<forall>y\<in>set (FL j). (i, x) \<noteq> (j, y) \<longrightarrow> slab_block i x \<inter> slab_block j y = {})"

definition off_pages :: "(nat \<Rightarrow> u64 list) \<Rightarrow> (u64 \<times> nat) set \<Rightarrow> pmm \<Rightarrow> bool" where
  "off_pages FL L p \<longleftrightarrow> (\<forall>w\<in>L. fst w \<notin> free_addrs p)
     \<and> (\<forall>i<NUM_SLABS. \<forall>x\<in>set (FL i). \<forall>w\<in>slab_block i x. fst w \<notin> free_addrs p)"

definition heap_inv :: "(u64 \<times> nat) set \<Rightarrow> kheap \<Rightarrow> bool" where
  "heap_inv L H \<longleftrightarrow> pmm_inv (fst (h_mem H)) \<and> (\<forall>a\<in>free_addrs (fst (h_mem H)). is_direct_mapped a)
     \<and> (\<exists>FL. lists_ok FL L (g_slab_freelists H) (snd (h_mem H)) \<and> off_pages FL L (fst (h_mem H)))"

lemma bin_cases: "bin < NUM_SLABS \<Longrightarrow> bin = 0 \<or> bin = 1 \<or> bin = 2 \<or> bin = 3 \<or> bin = 4 \<or> bin = 5"
  by (auto simp: NUM_SLABS_def)

lemma slab_size:
  assumes "bin < NUM_SLABS"
  shows "SLAB_SIZES ! bin = of_nat (64 * 2 ^ bin)" "block_words bin = 8 * 2 ^ bin" "unat (PAGE_SIZE div SLAB_SIZES ! bin) = 64 div 2 ^ bin"
  using bin_cases[OF assms] by (elim disjE; simp add: SLAB_SIZES_def block_words_def PAGE_SIZE_def)+

lemma two_words: "bin < NUM_SLABS \<Longrightarrow> loc x \<in> slab_block bin x \<and> loc (x + 8) \<in> slab_block bin x"
proof
  assume b: "bin < NUM_SLABS"
  have w: "0 < block_words bin" "1 < block_words bin" using slab_size(2)[OF b] by (simp_all add: Suc_lessI)
  show "loc x \<in> slab_block bin x" unfolding span_def using w(1) by (intro image_eqI[of _ _ 0]) simp_all
  show "loc (x + 8) \<in> slab_block bin x" unfolding span_def using w(2) by (intro image_eqI[of _ _ 1]) simp_all
qed

lemma rd64_outside:
  assumes "\<forall>w. w \<notin> X \<longrightarrow> mem' (fst w) (snd w) = mem (fst w) (snd w)" "loc x \<notin> X"
  shows "rd64 mem' x = rd64 mem x"
  using assms by (simp add: rd64_def)

lemma lists_okD:
  assumes "lists_ok FL L heads mem"
  shows "length heads = NUM_SLABS" "\<And>i. i < NUM_SLABS \<Longrightarrow> flist mem (heads ! i) (FL i)" "\<And>i. i < NUM_SLABS \<Longrightarrow> distinct (FL i)"
    "\<And>i x. i < NUM_SLABS \<Longrightarrow> x \<in> set (FL i) \<Longrightarrow> slab_block i x \<inter> L = {}"
    "\<And>i j x y. i < NUM_SLABS \<Longrightarrow> j < NUM_SLABS \<Longrightarrow> x \<in> set (FL i) \<Longrightarrow> y \<in> set (FL j) \<Longrightarrow> (i, x) \<noteq> (j, y) \<Longrightarrow>
       slab_block i x \<inter> slab_block j y = {}"
  using assms unfolding lists_ok_def by blast+

lemma lists_okI:
  assumes "length heads = NUM_SLABS" "\<And>i. i < NUM_SLABS \<Longrightarrow> flist mem (heads ! i) (FL i)" "\<And>i. i < NUM_SLABS \<Longrightarrow> distinct (FL i)"
    "\<And>i x. i < NUM_SLABS \<Longrightarrow> x \<in> set (FL i) \<Longrightarrow> slab_block i x \<inter> L = {}"
    "\<And>i j x y. i < NUM_SLABS \<Longrightarrow> j < NUM_SLABS \<Longrightarrow> x \<in> set (FL i) \<Longrightarrow> y \<in> set (FL j) \<Longrightarrow> (i, x) \<noteq> (j, y) \<Longrightarrow>
       slab_block i x \<inter> slab_block j y = {}"
  shows "lists_ok FL L heads mem"
  using assms unfolding lists_ok_def by blast

text \<open>Writes outside the free blocks keep the lists.\<close>

lemma lists_ok_mem:
  assumes "lists_ok FL L heads mem" "\<And>w. w \<notin> X \<Longrightarrow> mem' (fst w) (snd w) = mem (fst w) (snd w)"
    "\<And>i x. i < NUM_SLABS \<Longrightarrow> x \<in> set (FL i) \<Longrightarrow> slab_block i x \<inter> X = {}"
  shows "lists_ok FL L heads mem'"
proof (rule lists_okI)
  fix i assume i: "i < NUM_SLABS"
  have "\<forall>x\<in>set (FL i). rd64 mem' x = rd64 mem x"
  proof
    fix x assume "x \<in> set (FL i)"
    then have "loc x \<notin> X" using assms(3)[OF i, of x] two_words[OF i, of x] by blast
    then show "rd64 mem' x = rd64 mem x" unfolding rd64_def by (rule assms(2))
  qed
  then show "flist mem' (heads ! i) (FL i)" using lists_okD(2)[OF assms(1) i] flist_cong by blast
qed (use lists_okD[OF assms(1)] in blast)+

lemma lists_ok_sub: "lists_ok FL L heads mem \<Longrightarrow> L' \<subseteq> L \<Longrightarrow> lists_ok FL L' heads mem"
  unfolding lists_ok_def by blast

lemma pop_ok:
  assumes l: "lists_ok FL L heads mem" and b: "bin < NUM_SLABS" and f: "FL bin = x # ys"
    and m: "\<And>w. w \<notin> slab_block bin x \<Longrightarrow> mem' (fst w) (snd w) = mem (fst w) (snd w)"
  shows "lists_ok (FL(bin := ys)) (L \<union> slab_block bin x) (heads[bin := rd64 mem x]) mem'"
proof -
  note D = lists_okD[OF l]
  have fx: "flist mem (rd64 mem x) ys" "x \<notin> set ys" "distinct ys" using D(2,3)[OF b] f by auto
  have sub: "y \<in> set ((FL(bin := ys)) i) \<Longrightarrow> y \<in> set (FL i) \<and> (i, y) \<noteq> (bin, x)" for i y
    using f fx(2) by (cases "i = bin") auto
  have x: "x \<in> set (FL bin)" using f by simp
  have "lists_ok (FL(bin := ys)) (L \<union> slab_block bin x) (heads[bin := rd64 mem x]) mem"
  proof (rule lists_okI)
    fix i assume i: "i < NUM_SLABS"
    show "flist mem (heads[bin := rd64 mem x] ! i) ((FL(bin := ys)) i)"
      using D(1) D(2)[OF i] fx(1) b by (cases "i = bin") simp_all
    show "distinct ((FL(bin := ys)) i)" using D(3)[OF i] fx(3) by simp
    fix y assume "y \<in> set ((FL(bin := ys)) i)"
    then show "slab_block i y \<inter> (L \<union> slab_block bin x) = {}" using sub D(4)[OF i, of y] D(5)[OF i b _ x, of y] by blast
  next
    fix i j y z assume "i < NUM_SLABS" "j < NUM_SLABS" "y \<in> set ((FL(bin := ys)) i)" "z \<in> set ((FL(bin := ys)) j)" "(i, y) \<noteq> (j, z)"
    then show "slab_block i y \<inter> slab_block j z = {}" using sub D(5) by blast
  qed (simp add: D(1))
  then show ?thesis
  proof (rule lists_ok_mem[where X = "slab_block bin x"])
    fix i y assume i: "i < NUM_SLABS" and "y \<in> set ((FL(bin := ys)) i)"
    then have "y \<in> set (FL i)" "(i, y) \<noteq> (bin, x)" using sub by blast+
    then show "slab_block i y \<inter> slab_block bin x = {}" by (intro D(5)[OF i b _ x])
  qed (rule m)
qed

lemma push_ok:
  assumes l: "lists_ok FL L heads mem" and b: "bin < NUM_SLABS" and x: "x \<noteq> 0" "slab_block bin x \<inter> L = {}"
    and d: "\<And>i y. i < NUM_SLABS \<Longrightarrow> y \<in> set (FL i) \<Longrightarrow> slab_block bin x \<inter> slab_block i y = {}"
  shows "lists_ok (FL(bin := x # FL bin)) L (heads[bin := x]) (wr64 x (heads ! bin) mem)"
proof -
  have "lists_ok FL L heads (wr64 x (heads ! bin) mem)"
  proof (rule lists_ok_mem[OF l, where X = "slab_block bin x"])
    fix w assume "w \<notin> slab_block bin x"
    then have "loc x \<noteq> (fst w, snd w)" using two_words[OF b, of x] by auto
    then show "wr64 x (heads ! bin) mem (fst w) (snd w) = mem (fst w) (snd w)" by (rule wr64_other)
  qed (use d in blast)
  note D = lists_okD[OF this]
  have n: "x \<notin> set (FL bin)" using d[OF b, of x] two_words[OF b, of x] by blast
  have mem: "y \<in> set ((FL(bin := x # FL bin)) i) \<Longrightarrow> y \<in> set (FL i) \<or> i = bin \<and> y = x" for i y
    by (cases "i = bin") auto
  show ?thesis
  proof (rule lists_okI)
    fix i assume i: "i < NUM_SLABS"
    show "flist (wr64 x (heads ! bin) mem) (heads[bin := x] ! i) ((FL(bin := x # FL bin)) i)"
      using D(1) D(2)[OF i] x(1) i by (cases "i = bin") (simp_all add: rd64_wr64)
    show "distinct ((FL(bin := x # FL bin)) i)" using D(3)[OF i] D(3)[OF b] n by simp
    fix y assume "y \<in> set ((FL(bin := x # FL bin)) i)"
    then show "slab_block i y \<inter> L = {}" using mem D(4)[OF i, of y] x(2) by blast
  next
    fix i j y z assume "i < NUM_SLABS" "j < NUM_SLABS" "y \<in> set ((FL(bin := x # FL bin)) i)"
      "z \<in> set ((FL(bin := x # FL bin)) j)" "(i, y) \<noteq> (j, z)"
    then show "slab_block i y \<inter> slab_block j z = {}" using mem D(5) d by blast
  qed (simp add: D(1))
qed

section \<open>Allocation from a bin\<close>

lemma off_pages_sub:
  assumes "off_pages FL L p" "free_addrs p' \<subseteq> free_addrs p"
  shows "off_pages FL L p'"
  using assms unfolding off_pages_def by blast

lemma heap_invI:
  "pmm_inv p \<Longrightarrow> (\<And>a. a \<in> free_addrs p \<Longrightarrow> is_direct_mapped a) \<Longrightarrow> lists_ok FL L heads mem \<Longrightarrow> off_pages FL L p \<Longrightarrow>
   heap_inv L \<lparr>g_slab_freelists = heads, h_mem = (p, mem)\<rparr>"
  unfolding heap_inv_def by auto

lemma pop_block_spec:
  assumes I: "heap_inv L H" and b: "bin < NUM_SLABS" and h: "g_slab_freelists H ! bin \<noteq> 0" and p: "pop_block bin sz H = (ptr, H')"
  shows "slab_block bin (ptr - HEADER_SIZE) \<inter> L = {} \<and> heap_inv (L \<union> slab_block bin (ptr - HEADER_SIZE)) H'
    \<and> (\<forall>w. w \<notin> slab_block bin (ptr - HEADER_SIZE) \<longrightarrow> snd (h_mem H') (fst w) (snd w) = snd (h_mem H) (fst w) (snd w))"
proof -
  obtain heads q mem where H: "H = \<lparr>g_slab_freelists = heads, h_mem = (q, mem)\<rparr>" by (metis kheap.surjective old.unit.exhaust prod.collapse)
  obtain FL where l: "lists_ok FL L heads mem" "off_pages FL L q" and pq: "pmm_inv q" "\<And>a. a \<in> free_addrs q \<Longrightarrow> is_direct_mapped a"
    using I H by (auto simp: heap_inv_def)
  define x where "x = heads ! bin"
  obtain ys where f: "FL bin = x # ys" using flist_nonnull[OF lists_okD(2)[OF l(1) b]] h by (auto simp: x_def H)
  define mem' where "mem' = put_pages_bin x 0 (of_nat bin) (put_magic_size x ALLOC_MAGIC (ucast sz) mem)"
  have r: "ptr - HEADER_SIZE = x" "H' = \<lparr>g_slab_freelists = heads[bin := rd64 mem x], h_mem = (q, mem')\<rparr>"
    using p by (auto simp: pop_block_def H x_def mem'_def Let_def)
  have m: "mem' (fst w) (snd w) = mem (fst w) (snd w)" if "w \<notin> slab_block bin x" for w
  proof -
    have ne: "loc x \<noteq> (fst w, snd w)" "loc (x + 8) \<noteq> (fst w, snd w)" using that two_words[OF b, of x] by auto
    show ?thesis unfolding mem'_def put_pages_bin_def put_magic_size_def wr64_other[OF ne(2)] wr64_other[OF ne(1)] ..
  qed
  have x: "x \<in> set (FL bin)" using f by simp
  have "set ((FL(bin := ys)) i) \<subseteq> set (FL i)" for i using f by auto
  then have "off_pages (FL(bin := ys)) (L \<union> slab_block bin x) q"
    using l(2) x b unfolding off_pages_def by blast
  then have "heap_inv (L \<union> slab_block bin x) H'" unfolding r(2) using pop_ok[OF l(1) b f m] by (intro heap_invI pq)
  then show ?thesis unfolding r(1) using lists_okD(4)[OF l(1) b x] m by (simp add: r(2) H)
qed

lemma node_block:
  assumes b: "bin < NUM_SLABS" and pa: "is_page_aligned pa" and k: "k < 64 div 2 ^ bin"
  shows "slab_block bin (phys_to_virt pa + of_nat k * SLAB_SIZES ! bin) = {pa} \<times> {k * block_words bin..<Suc k * block_words bin}"
proof -
  have "k * (8 * 2 ^ bin) + 8 * 2 ^ bin \<le> 512"
  proof -
    have "Suc k \<le> 64 div 2 ^ bin" using k by simp
    then have "Suc k * 2 ^ bin \<le> 64" by (simp add: less_eq_div_iff_mult_less_eq)
    then show ?thesis by simp
  qed
  moreover have "of_nat k * SLAB_SIZES ! bin = (of_nat (8 * (k * block_words bin)) :: u64)"
    unfolding slab_size[OF b] by (simp add: algebra_simps)
  ultimately show ?thesis
    using span_page[OF pa, of "k * block_words bin" "block_words bin"] unfolding slab_size(2)[OF b] by (simp add: add.commute)
qed

lemma direct_virt_nonnull:
  assumes "is_direct_mapped pa" "is_page_aligned pa" "k < 4096"
  shows "phys_to_virt pa + of_nat k \<noteq> 0"
proof -
  have "unat pa + 4096 \<le> 2 ^ 31"
    using assms(1,2) by (auto simp: is_direct_mapped_def word_less_nat_alt is_page_aligned_iff elim!: dvdE)
  then have "unat (pa + of_nat k) = unat pa + k" using assms(3) by (subst unat_add_nowrap) (simp_all add: unat_of_nat)
  moreover have kb: "unat KERNEL_VIRTUAL_BASE = 0xFFFFFFFF80000000" by (simp add: KERNEL_VIRTUAL_BASE_def)
  ultimately have "unat (KERNEL_VIRTUAL_BASE + (pa + of_nat k)) = 0xFFFFFFFF80000000 + (unat pa + k)"
    using \<open>unat pa + 4096 \<le> 2 ^ 31\<close> assms(3) by (subst unat_add_nowrap) simp_all
  then have "KERNEL_VIRTUAL_BASE + (pa + of_nat k) \<noteq> 0" by auto
  then show ?thesis by (simp add: phys_to_virt_def add_ac)
qed

lemma push_blocks:
  assumes b: "bin < NUM_SLABS" and pa: "is_page_aligned pa" "is_direct_mapped pa"
    and l: "lists_ok FL L heads mem" and n: "\<forall>w\<in>L. fst w \<noteq> pa"
    and f: "\<forall>i<NUM_SLABS. \<forall>x\<in>set (FL i). \<forall>w\<in>slab_block i x. fst w \<noteq> pa"
    and k: "k \<le> 64 div 2 ^ bin"
  defines "node \<equiv> \<lambda>j. phys_to_virt pa + of_nat j * SLAB_SIZES ! bin"
  shows "\<exists>head mem'. fold (push_block (phys_to_virt pa) (SLAB_SIZES ! bin)) [0..<k] (heads ! bin, mem) = (head, mem')
    \<and> lists_ok (FL(bin := rev (map node [0..<k]) @ FL bin)) L (heads[bin := head]) mem'
    \<and> (\<forall>w. fst w \<noteq> pa \<longrightarrow> mem' (fst w) (snd w) = mem (fst w) (snd w))"
  using k
proof (induction k)
  case 0
  then show ?case using l by simp
next
  case (Suc k)
  let ?FL = "FL(bin := rev (map node [0..<k]) @ FL bin)"
  obtain head mem' where I: "fold (push_block (phys_to_virt pa) (SLAB_SIZES ! bin)) [0..<k] (heads ! bin, mem) = (head, mem')"
    "lists_ok ?FL L (heads[bin := head]) mem'" "\<forall>w. fst w \<noteq> pa \<longrightarrow> mem' (fst w) (snd w) = mem (fst w) (snd w)"
    using Suc.IH Suc.prems by (meson Suc_leD)
  have nb: "slab_block bin (node j) = {pa} \<times> {j * block_words bin..<Suc j * block_words bin}" if "j \<le> k" for j
    unfolding node_def using that Suc.prems by (intro node_block[OF b pa(1)]) simp
  have sz: "of_nat k * SLAB_SIZES ! bin = (of_nat (k * (64 * 2 ^ bin)) :: u64)" "k * (64 * 2 ^ bin) < 4096"
  proof -
    show "of_nat k * SLAB_SIZES ! bin = (of_nat (k * (64 * 2 ^ bin)) :: u64)" by (simp add: slab_size(1)[OF b])
    have "Suc k * 2 ^ bin \<le> 64" using Suc.prems by (simp add: less_eq_div_iff_mult_less_eq)
    moreover have "0 < (2::nat) ^ bin" by simp
    ultimately have "k * 2 ^ bin < 64" unfolding mult_Suc by linarith
    then show "k * (64 * 2 ^ bin) < 4096" by simp
  qed
  have "node k \<noteq> 0" unfolding node_def sz(1) by (rule direct_virt_nonnull[OF pa(2,1) sz(2)])
  moreover have fw: "fst w = pa" if "w \<in> slab_block bin (node k)" for w using that unfolding nb[OF order_refl] by auto
  moreover have "slab_block bin (node k) \<inter> L = {}" using fw n by blast
  moreover have "slab_block bin (node k) \<inter> slab_block i y = {}" if i: "i < NUM_SLABS" and y: "y \<in> set (?FL i)" for i y
  proof (cases "y \<in> set (FL i)")
    case True
    then show ?thesis using fw f i True by blast
  next
    case False
    then obtain j where j: "i = bin" "y = node j" "j < k" using y by (auto split: if_splits)
    have "Suc j * block_words bin \<le> k * block_words bin" using j(3) by (intro mult_le_mono1) simp
    then show ?thesis unfolding j(1,2) using nb[of k] nb[of j] j(3) by auto
  qed
  ultimately have P: "lists_ok (?FL(bin := node k # ?FL bin)) L (heads[bin := head, bin := node k]) (wr64 (node k) (heads[bin := head] ! bin) mem')"
    by (intro push_ok[OF I(2) b]) auto
  have "heads[bin := head] ! bin = head" using lists_okD(1)[OF l] b by simp
  moreover have "?FL(bin := node k # ?FL bin) = FL(bin := rev (map node [0..<Suc k]) @ FL bin)" by simp
  moreover have "wr64 (node k) head mem' (fst w) (snd w) = mem (fst w) (snd w)" if "fst w \<noteq> pa" for w
  proof -
    have "loc (node k) \<in> {pa} \<times> UNIV" using two_words[OF b, of "node k"] nb[of k] by auto
    then have "loc (node k) \<noteq> (fst w, snd w)" using that by auto
    then show ?thesis using I(3) that by (simp add: wr64_other)
  qed
  moreover have "fold (push_block (phys_to_virt pa) (SLAB_SIZES ! bin)) [0..<Suc k] (heads ! bin, mem) = (node k, wr64 (node k) head mem')"
    using I(1) by (simp add: push_block_def[of _ _ k] node_def Let_def)
  ultimately show ?case using P unfolding list_update_overwrite by metis
qed

lemma alloc_kernel_pages_spec:
  assumes I: "pmm_inv p" "\<And>a. a \<in> free_addrs p \<Longrightarrow> is_direct_mapped a"
    and l: "lists_ok FL L heads mem" "off_pages FL L p"
    and a: "alloc_kernel_pages cnt (p, mem) = (va, p', mem')" "va \<noteq> 0"
  shows "\<exists>r. va = phys_to_virt (frame_addr r) \<and> {r..<r + unat cnt} \<subseteq> free_set p \<and> 0 < unat cnt
    \<and> free_set p' = free_set p - {r..<r + unat cnt} \<and> pmm_inv p' \<and> free_addrs p' \<subseteq> free_addrs p
    \<and> lists_ok FL L heads mem' \<and> off_pages FL L p' \<and> (\<forall>b. b \<notin> free_addrs p \<longrightarrow> mem' b = mem b)"
proof -
  obtain pa p1 mem1 where e: "alloc_pages (p, mem) cnt = (pa, p1, mem1)" by (meson prod_cases3)
  have c: "cnt \<noteq> 0" "pa \<noteq> 0" "va = phys_to_virt pa" "p' = p1" "mem' = zero_pages mem1 pa (unat cnt)"
    using a e by (auto simp: alloc_kernel_pages_def split: if_splits)
  obtain r where r: "pa = frame_addr r" "{r..<r + unat cnt} \<subseteq> free_set p" "free_set p' = free_set p - {r..<r + unat cnt}" "pmm_inv p'"
    using alloc_pages_spec[OF I(1) e c(2)] c(4) by blast
  have sub: "free_addrs p' \<subseteq> free_addrs p" using r(3) by (auto simp: free_addrs_def)
  have m: "mem' b = mem b" if "b \<notin> free_addrs p" for b
  proof -
    have "b \<noteq> pa + of_nat i * PAGE_SIZE" if "i < unat cnt" for i
    proof -
      have "r + i \<in> free_set p" using r(2) that by auto
      then have "frame_addr (r + i) \<in> free_addrs p" by (simp add: free_addrs_def)
      then show ?thesis using \<open>b \<notin> free_addrs p\<close> r(1) by (auto simp: frame_addr_def distrib_right)
    qed
    then show ?thesis using zero_pages_other[of "unat cnt" b pa mem1] alloc_pages_mem[OF I(1) e c(2) that] c(5) by simp
  qed
  have "lists_ok FL L heads mem'"
    by (rule lists_ok_mem[OF l(1), where X = "free_addrs p \<times> UNIV"])
      (use m l(2) in \<open>force simp: off_pages_def\<close>)+
  moreover have "off_pages FL L p'" by (rule off_pages_sub[OF l(2) sub])
  moreover have "0 < unat cnt" using c(1) by (simp add: unat_gt_0)
  ultimately show ?thesis using r c(3) sub m by blast
qed

lemma replenish_spec:
  assumes I: "heap_inv L H" and b: "bin < NUM_SLABS" and h: "replenish bin H = (True, H')"
  shows "heap_inv L H' \<and> g_slab_freelists H' ! bin \<noteq> 0
    \<and> (\<forall>w. fst w \<notin> free_addrs (fst (h_mem H)) \<longrightarrow> snd (h_mem H') (fst w) (snd w) = snd (h_mem H) (fst w) (snd w))"
proof -
  obtain heads q mem where H: "H = \<lparr>g_slab_freelists = heads, h_mem = (q, mem)\<rparr>" by (metis kheap.surjective old.unit.exhaust prod.collapse)
  obtain FL where l: "lists_ok FL L heads mem" "off_pages FL L q" and pq: "pmm_inv q" "\<And>a. a \<in> free_addrs q \<Longrightarrow> is_direct_mapped a"
    using I H by (auto simp: heap_inv_def)
  obtain va p1 mem1 where e: "alloc_kernel_pages 1 (q, mem) = (va, p1, mem1)" by (meson prod_cases3)
  have va: "va \<noteq> 0" using h e by (auto simp: replenish_def H)
  obtain r where r: "va = phys_to_virt (frame_addr r)" "{r..<r + unat (1::u64)} \<subseteq> free_set q"
    "free_set p1 = free_set q - {r..<r + unat (1::u64)}" "pmm_inv p1" "free_addrs p1 \<subseteq> free_addrs q"
    "lists_ok FL L heads mem1" "off_pages FL L p1" "\<forall>b. b \<notin> free_addrs q \<longrightarrow> mem1 b = mem b"
    using alloc_kernel_pages_spec[OF pq l e va] by blast
  let ?pa = "frame_addr r"
  have rf: "r \<in> free_set q" using r(2) by simp
  then have pa: "is_page_aligned ?pa" "is_direct_mapped ?pa" "?pa \<in> free_addrs q"
    using pq(2) by (auto simp: free_addrs_def)
  have off: "\<forall>w\<in>L. fst w \<noteq> ?pa" "\<forall>i<NUM_SLABS. \<forall>x\<in>set (FL i). \<forall>w\<in>slab_block i x. fst w \<noteq> ?pa"
    using l(2) pa(3) unfolding off_pages_def by metis+
  let ?n = "64 div 2 ^ bin :: nat" and ?node = "\<lambda>j. phys_to_virt ?pa + of_nat j * SLAB_SIZES ! bin"
  obtain head mem2 where P: "fold (push_block va (SLAB_SIZES ! bin)) [0..<?n] (heads ! bin, mem1) = (head, mem2)"
    "lists_ok (FL(bin := rev (map ?node [0..<?n]) @ FL bin)) L (heads[bin := head]) mem2"
    "\<forall>w. fst w \<noteq> ?pa \<longrightarrow> mem2 (fst w) (snd w) = mem1 (fst w) (snd w)"
    using push_blocks[OF b pa(1,2) r(6) off order_refl] unfolding r(1) by blast
  let ?FL = "FL(bin := rev (map ?node [0..<?n]) @ FL bin)"
  have H': "H' = \<lparr>g_slab_freelists = heads[bin := head], h_mem = (p1, mem2)\<rparr>"
    using h e va P(1) by (simp add: replenish_def H slab_size(3)[OF b])
  have np: "?pa \<notin> free_addrs p1" 
    using free_addrs_diff[OF pq(1), of "{r}"] r(3) rf by (simp add: free_addrs_def)
  have "off_pages ?FL L p1" unfolding off_pages_def
  proof (intro conjI allI impI ballI)
    fix w assume "w \<in> L"
    then show "fst w \<notin> free_addrs p1" using r(7) unfolding off_pages_def by blast
  next
    fix i x w assume i: "i < NUM_SLABS" and x: "x \<in> set (?FL i)" and w: "w \<in> slab_block i x"
    show "fst w \<notin> free_addrs p1"
    proof (cases "x \<in> set (FL i)")
      case True
      then show ?thesis using r(7) i w unfolding off_pages_def by blast
    next
      case False
      then obtain j where j: "i = bin" "x = ?node j" "j < ?n" using x by (auto split: if_splits)
      then show ?thesis using w np node_block[OF b pa(1) j(3)] by auto
    qed
  qed
  then have "heap_inv L H'" unfolding H' using P(2) pq(2) r(4,5) by (intro heap_invI) blast+
  moreover have "head \<noteq> 0"
  proof -
    have "0 < ?n" using bin_cases[OF b] by (elim disjE) simp_all
    then obtain ys where "?FL bin = ?node (?n - 1) # ys" by (cases ?n) auto
    then show ?thesis using lists_okD(2)[OF P(2) b] lists_okD(1)[OF l(1)] b by auto
  qed
  moreover have "mem2 (fst w) (snd w) = mem (fst w) (snd w)" if "fst w \<notin> free_addrs q" for w
    using that P(3) r(8) pa(3) by metis
  ultimately show ?thesis using lists_okD(1)[OF l(1)] b by (simp add: H' H)
qed


lemma alloc_pages_fail:
  assumes inv: "pmm_inv p" and a: "alloc_pages (p, mem) n = (0, p', mem')"
  shows "p' = p \<and> mem' = mem"
proof (rule ccontr)
  assume no: "\<not> ?thesis"
  have "n \<noteq> 1"
  proof
    assume "n = 1"
    then have "alloc_page (p, mem) = (0, p', mem')" using a no by (auto simp: alloc_pages_def split: if_splits)
    then show False using pages.acquire_fail[of "(p, mem)"] inv no by auto
  qed
  moreover have "n \<noteq> 0" using a no by (auto simp: alloc_pages_def)
  then have un: "unat n \<noteq> 0" by (simp add: unat_eq_zero)
  ultimately obtain r fs where r: "take_run p mem n r = (0, p', mem')" "find_run (m_bitmap p) (unat n) fs 0 0 = Some r"
    and fs: "fs = [m_last_search_frame p..<m_total_frames p] \<or> fs = [0..<min (m_last_search_frame p) (m_total_frames p)]"
    using a no by (auto simp: alloc_pages_def split: if_splits option.splits)
  have "r + unat n \<le> m_total_frames p \<and> (\<forall>g. r \<le> g \<longrightarrow> g < r + unat n \<longrightarrow> \<not> bm_test (m_bitmap p) g)"
    using fs
  proof
    assume "fs = [m_last_search_frame p..<m_total_frames p]"
    then show ?thesis using find_run_sound[OF r(2)[unfolded \<open>fs = _\<close>]] un by simp
  next
    assume "fs = [0..<min (m_last_search_frame p) (m_total_frames p)]"
    then show ?thesis using find_run_sound[OF r(2)[unfolded \<open>fs = _\<close>]] un by simp
  qed
  then show False using take_run_spec[OF inv _ un _ r(1)] by blast
qed

lemma alloc_kernel_pages_fail:
  assumes I: "pmm_inv p" "\<And>a. a \<in> free_addrs p \<Longrightarrow> is_direct_mapped a" and a: "alloc_kernel_pages cnt (p, mem) = (0, p', mem')"
  shows "p' = p \<and> mem' = mem"
proof (cases "cnt = 0")
  case False
  obtain pa p1 mem1 where e: "alloc_pages (p, mem) cnt = (pa, p1, mem1)" by (meson prod_cases3)
  have "pa = 0"
  proof (rule ccontr)
    assume pa: "pa \<noteq> 0"
    then obtain r where r: "pa = frame_addr r" "{r..<r + unat cnt} \<subseteq> free_set p" using alloc_pages_spec[OF I(1) e] by blast
    have "0 < unat cnt" using False by (simp add: unat_gt_0)
    then have "r \<in> free_set p" using r(2) by auto
    then have "is_direct_mapped pa" "is_page_aligned pa" using I(2) r(1) by (auto simp: free_addrs_def)
    from direct_virt_nonnull[OF this, of 0] show False using a e pa False by (simp add: alloc_kernel_pages_def)
  qed
  then show ?thesis using a e alloc_pages_fail[OF I(1)] False by (simp add: alloc_kernel_pages_def)
qed (use a in \<open>simp add: alloc_kernel_pages_def\<close>)

section \<open>Allocation headers\<close>

lemma loc_apart:
  assumes m: "0 < m" "m < 2 ^ 61"
  shows "loc x \<noteq> loc (x + of_nat (8 * m))"
proof
  assume e: "loc x = loc (x + of_nat (8 * m))"
  define y where "y = virt_to_phys x"
  define a where "a = unat y mod 4096"
  define b where "b = unat (y + of_nat (8 * m)) mod 4096"
  have y8: "virt_to_phys (x + of_nat (8 * m)) = y + of_nat (8 * m)" by (simp add: y_def virt_to_phys_def)
  have "y - page_offset y = y + of_nat (8 * m) - page_offset (y + of_nat (8 * m))" and i: "a div 8 = b div 8"
    using e unfolding loc_def y8 y_def[symmetric] low_page prod.inject a_def b_def by blast+
  then have "page_offset (y + of_nat (8 * m)) = page_offset y + of_nat (8 * m)" by (simp only: algebra_simps) simp
  then have "b = unat (page_offset y + of_nat (8 * m))" unfolding b_def by (metis unat_page_offset)
  also have "\<dots> = (a + 8 * m) mod 2 ^ 64" unfolding a_def unat_word_ariths unat_page_offset unat_of_nat by (simp add: mod_simps)
  finally have b: "b = (a + 8 * m) mod 2 ^ 64" .
  have "a < 4096" by (simp add: a_def)
  show False
  proof (cases "a + 8 * m < 2 ^ 64")
    case True
    then have "b = a + 8 * m" using b by simp
    then show False using i m(1) by simp
  next
    case False
    then have "b = a + 8 * m - 2 ^ 64" unfolding b using m(2) \<open>a < 4096\<close> by (subst mod_if) simp
    then have "b + 8 \<le> a" using False m(2) by simp
    then show False using i by linarith
  qed
qed

lemma loc_next: "loc x \<noteq> loc (x + 8)"
  using loc_apart[of 1 x] by simp

definition with_header :: "u64 \<Rightarrow> u32 \<Rightarrow> u32 \<Rightarrow> u8 \<Rightarrow> page_mem \<Rightarrow> page_mem" where
  "with_header h sz pages bin mem = put_pages_bin h pages bin (put_magic_size h ALLOC_MAGIC sz mem)"

lemma header_fields:
  "get_magic (with_header h sz pages bin mem) h = ALLOC_MAGIC"
  "get_page_count (with_header h sz pages bin mem) h = pages"
  "get_slab_bin (with_header h sz pages bin mem) h = bin"
proof -
  have "ucast (push_bit 32 (ucast sz :: u64) OR ucast m) = m" for m :: u32
    by (rule bit_word_eqI) (auto simp: bit_simps)
  then show "get_magic (with_header h sz pages bin mem) h = ALLOC_MAGIC"
    using loc_next[of h] by (simp add: get_magic_def with_header_def put_pages_bin_def put_magic_size_def rd64_wr64)
  have "ucast ((v AND push_bit 40 (mask 24)) OR push_bit 32 (ucast bin :: u64) OR ucast pages) = pages" for v
    by (rule bit_word_eqI) (auto simp: bit_simps)
  then show "get_page_count (with_header h sz pages bin mem) h = pages"
    by (simp add: get_page_count_def with_header_def put_pages_bin_def rd64_wr64)
  have "ucast (drop_bit 32 ((v AND push_bit 40 (mask 24)) OR push_bit 32 (ucast bin :: u64) OR ucast pages)) = bin" for v
    by (rule bit_word_eqI) (auto simp: bit_simps dest: bit_imp_le_length)
  then show "get_slab_bin (with_header h sz pages bin mem) h = bin"
    by (simp add: get_slab_bin_def with_header_def put_pages_bin_def rd64_wr64)
qed

lemma with_header_other: "w \<noteq> loc h \<Longrightarrow> w \<noteq> loc (h + 8) \<Longrightarrow> with_header h sz pages bin mem (fst w) (snd w) = mem (fst w) (snd w)"
  unfolding with_header_def put_pages_bin_def put_magic_size_def using wr64_other[of _ "fst w" "snd w"] by simp

lemma cleared:
  "get_slab_bin (clear_magic h mem) h = get_slab_bin mem h" "get_page_count (clear_magic h mem) h = get_page_count mem h"
  using loc_next[of h] by (simp_all add: clear_magic_def get_slab_bin_def get_page_count_def rd64_wr64)

lemma clear_magic_other: "w \<noteq> loc h \<Longrightarrow> clear_magic h mem (fst w) (snd w) = mem (fst w) (snd w)"
  unfolding clear_magic_def by (rule wr64_other) auto


section \<open>Whole pages\<close>

lemma span_frames: "span (phys_to_virt (frame_addr r)) (512 * c) = frame_addr ` {r..<r + c} \<times> {..<512}"
proof -
  have l: "loc (phys_to_virt (frame_addr r) + of_nat (8 * k)) = (frame_addr (r + k div 512), k mod 512)" for k
  proof -
    have "8 * k = 4096 * (k div 512) + 8 * (k mod 512)" using div_mult_mod_eq[of k 512] by linarith
    then have "of_nat (8 * k) = (of_nat (k div 512) * 4096 + of_nat (8 * (k mod 512)) :: u64)"
      by (simp only: of_nat_add of_nat_mult of_nat_numeral) simp
    then have "phys_to_virt (frame_addr r) + of_nat (8 * k) = phys_to_virt (frame_addr (r + k div 512)) + of_nat (8 * (k mod 512))"
      by (simp only: frame_addr_def phys_to_virt_def PAGE_SIZE_def of_nat_add) (simp add: algebra_simps)
    then show ?thesis unfolding \<open>phys_to_virt (frame_addr r) + _ = _\<close> by (intro loc_page) simp_all
  qed
  have "(\<lambda>k. (frame_addr (r + k div 512), k mod 512)) ` {..<512 * c} = frame_addr ` {r..<r + c} \<times> {..<512}"
  proof (intro equalityI subsetI)
    fix w assume "w \<in> (\<lambda>k. (frame_addr (r + k div 512), k mod 512)) ` {..<512 * c}"
    then obtain k where "k < 512 * c" "w = (frame_addr (r + k div 512), k mod 512)" by auto
    moreover have "k div 512 < c" using calculation(1) by (simp add: less_mult_imp_div_less)
    ultimately show "w \<in> frame_addr ` {r..<r + c} \<times> {..<512}" by auto
  next
    fix w assume "w \<in> frame_addr ` {r..<r + c} \<times> {..<512::nat}"
    then obtain f i where f: "r \<le> f" "f < r + c" "i < 512" "w = (frame_addr f, i)" by auto
    then have "512 * (f - r) + i < 512 * c" by linarith
    moreover have "(512 * (f - r) + i) div 512 = f - r" "(512 * (f - r) + i) mod 512 = i" using f(3) by simp_all
    ultimately show "w \<in> (\<lambda>k. (frame_addr (r + k div 512), k mod 512)) ` {..<512 * c}"
      using f by (intro image_eqI[of _ _ "512 * (f - r) + i"]) auto
  qed
  then show ?thesis unfolding span_def l .
qed

lemma span_mono: "m \<le> n \<Longrightarrow> span h m \<subseteq> span h n"
  unfolding span_def by (intro image_mono) auto

lemma span_header: "2 \<le> n \<Longrightarrow> loc h \<in> span h n \<and> loc (h + 8) \<in> span h n"
  unfolding span_def by (auto intro: image_eqI[of _ _ 0] image_eqI[of _ _ 1])

lemma heap_inv_sub: "heap_inv L H \<Longrightarrow> L' \<subseteq> L \<Longrightarrow> heap_inv L' H"
  unfolding heap_inv_def off_pages_def using lists_ok_sub by blast

section \<open>Allocation\<close>

definition alloc_words :: "u64 \<Rightarrow> nat" where
  "alloc_words sz = (case find_slab_bin (sz + HEADER_SIZE) of
     Some bin \<Rightarrow> block_words bin | None \<Rightarrow> 512 * unat (pages_from_bytes (sz + HEADER_SIZE)))"

text \<open>What the header of a live allocation says.\<close>

definition header_ok :: "page_mem \<Rightarrow> u64 \<times> u64 \<Rightarrow> bool" where
  "header_ok mem = (\<lambda>(h, sz). h \<noteq> 0 \<and> h + HEADER_SIZE \<noteq> 0 \<and> get_magic mem h = ALLOC_MAGIC \<and> 2 \<le> alloc_words sz
     \<and> (case find_slab_bin (sz + HEADER_SIZE) of
          Some bin \<Rightarrow> get_slab_bin mem h = of_nat bin
        | None \<Rightarrow> get_slab_bin mem h = DIRECT_BIN \<and> get_page_count mem h = ucast (pages_from_bytes (sz + HEADER_SIZE))
            \<and> (\<exists>r. h = phys_to_virt (frame_addr r) \<and> r + unat (pages_from_bytes (sz + HEADER_SIZE)) \<le> 2 ^ 19)))"

lemma find_slab_bin_Some: "find_slab_bin t = Some bin \<Longrightarrow> bin < NUM_SLABS \<and> t \<le> SLAB_SIZES ! bin"
  unfolding find_slab_bin_def by (auto simp: find_Some_iff)

lemma alloc_words_enough:
  assumes "unat sz + 16 < 2 ^ 64"
  shows "unat sz + 16 \<le> 8 * alloc_words sz"
proof -
  have t: "unat (sz + HEADER_SIZE) = unat sz + 16" using assms by (subst unat_add_nowrap) (simp_all add: HEADER_SIZE_def)
  show ?thesis
  proof (cases "find_slab_bin (sz + HEADER_SIZE)")
    case None
    then show ?thesis by (simp add: alloc_words_def unat_pages_from_bytes t)
  next
    case (Some bin)
    then have b: "bin < NUM_SLABS" "sz + HEADER_SIZE \<le> SLAB_SIZES ! bin" using find_slab_bin_Some by auto
    have "unat (SLAB_SIZES ! bin) = 8 * block_words bin"
      using bin_cases[OF b(1)] by (elim disjE; simp add: SLAB_SIZES_def block_words_def)
    then show ?thesis using b(2) Some t by (simp add: alloc_words_def word_le_nat_alt)
  qed
qed

lemma slab_words: "bin < NUM_SLABS \<Longrightarrow> 2 \<le> block_words bin"
  using slab_size(2)[of bin] by (simp add: Suc_leI)

lemma pop_header:
  assumes "pop_block bin sz H = (ptr, H')"
  shows "ptr - HEADER_SIZE = g_slab_freelists H ! bin"
    "snd (h_mem H') = with_header (ptr - HEADER_SIZE) (ucast sz) 0 (of_nat bin) (snd (h_mem H))"
  using assms by (auto simp: pop_block_def Let_def with_header_def split: prod.splits)

lemma pop_alloc:
  assumes I: "heap_inv L H" and f: "find_slab_bin (sz + HEADER_SIZE) = Some bin" and h: "g_slab_freelists H ! bin \<noteq> 0"
    and p: "pop_block bin sz H = (ptr, H')"
  shows "span (ptr - HEADER_SIZE) (alloc_words sz) \<inter> L = {} \<and> heap_inv (L \<union> span (ptr - HEADER_SIZE) (alloc_words sz)) H'
    \<and> (\<forall>w\<in>L. snd (h_mem H') (fst w) (snd w) = snd (h_mem H) (fst w) (snd w))
    \<and> (ptr \<noteq> 0 \<longrightarrow> header_ok (snd (h_mem H')) (ptr - HEADER_SIZE, sz))"
proof -
  have b: "bin < NUM_SLABS" using find_slab_bin_Some[OF f] by simp
  have n: "alloc_words sz = block_words bin" by (simp add: alloc_words_def f)
  note P = pop_block_spec[OF I b h p]
  have "header_ok (snd (h_mem H')) (ptr - HEADER_SIZE, sz)" if "ptr \<noteq> 0"
  proof -
    have "ptr - HEADER_SIZE + HEADER_SIZE \<noteq> 0" using that by simp
    moreover have "ptr - HEADER_SIZE \<noteq> 0" using h pop_header(1)[OF p] by simp
    ultimately show ?thesis unfolding pop_header(2)[OF p] using f slab_words[OF b] by (simp add: header_ok_def header_fields n)
  qed
  then show ?thesis using P unfolding n by blast
qed


lemma direct_alloc:
  assumes I: "heap_inv L H" and f: "find_slab_bin (sz + HEADER_SIZE) = None"
    and a: "alloc_kernel_pages (pages_from_bytes (sz + HEADER_SIZE)) (h_mem H) = (h, p', mem1)" "h \<noteq> 0"
  defines "mem' \<equiv> with_header h (ucast sz) (ucast (pages_from_bytes (sz + HEADER_SIZE))) DIRECT_BIN mem1"
  shows "span h (alloc_words sz) \<inter> L = {} \<and> heap_inv (L \<union> span h (alloc_words sz)) (H\<lparr>h_mem := (p', mem')\<rparr>)
    \<and> (\<forall>w\<in>L. mem' (fst w) (snd w) = snd (h_mem H) (fst w) (snd w)) \<and> (h + HEADER_SIZE \<noteq> 0 \<longrightarrow> header_ok mem' (h, sz))"
proof -
  obtain heads q mem where H: "H = \<lparr>g_slab_freelists = heads, h_mem = (q, mem)\<rparr>" by (metis kheap.surjective old.unit.exhaust prod.collapse)
  obtain FL where l: "lists_ok FL L heads mem" "off_pages FL L q" and pq: "pmm_inv q" "\<And>a. a \<in> free_addrs q \<Longrightarrow> is_direct_mapped a"
    using I H by (auto simp: heap_inv_def)
  let ?c = "unat (pages_from_bytes (sz + HEADER_SIZE))" and ?S = "span h (alloc_words sz)"
  obtain r where r: "h = phys_to_virt (frame_addr r)" "{r..<r + ?c} \<subseteq> free_set q" "0 < ?c" "free_set p' = free_set q - {r..<r + ?c}"
    "pmm_inv p'" "free_addrs p' \<subseteq> free_addrs q" "lists_ok FL L heads mem1" "off_pages FL L p'" "\<forall>b. b \<notin> free_addrs q \<longrightarrow> mem1 b = mem b"
    using alloc_kernel_pages_spec[OF pq l a(1)[unfolded H kheap.simps] a(2)] by blast
  have n: "alloc_words sz = 512 * ?c" by (simp add: alloc_words_def f)
  have S: "?S = frame_addr ` {r..<r + ?c} \<times> {..<512}" unfolding n r(1) by (rule span_frames)
  have fr: "fst w \<in> free_addrs q" if "w \<in> ?S" for w using that r(2) unfolding S free_addrs_def by auto
  have S': "fst w \<notin> free_addrs p'" if "w \<in> ?S" for w
  proof -
    have "free_addrs p' = free_addrs q - frame_addr ` {r..<r + ?c}"
      using free_addrs_diff[OF pq(1) r(2)] r(4) by (simp add: free_addrs_def)
    moreover have "fst w \<in> frame_addr ` {r..<r + ?c}" using that unfolding S mem_Times_iff by (rule conjunct1)
    ultimately show ?thesis by (simp only: Diff_iff) simp
  qed
  have SL: "?S \<inter> L = {}" using fr l(2) unfolding off_pages_def by blast
  have SF: "slab_block i x \<inter> ?S = {}" if "i < NUM_SLABS" "x \<in> set (FL i)" for i x
    using fr l(2) that unfolding off_pages_def by blast
  have hd: "loc h \<in> ?S" "loc (h + 8) \<in> ?S" using span_header[of "alloc_words sz" h] r(3) n by simp_all
  then have m: "mem' (fst w) (snd w) = mem1 (fst w) (snd w)" if "w \<notin> ?S" for w
    unfolding mem'_def using that by (intro with_header_other) auto
  have ok: "lists_ok FL (L \<union> ?S) heads mem1"
    using r(7) SF unfolding lists_ok_def by (simp add: Int_Un_distrib)
  have "lists_ok FL (L \<union> ?S) heads mem'" by (rule lists_ok_mem[OF ok m SF])
  moreover have "off_pages FL (L \<union> ?S) p'" using r(8) S' unfolding off_pages_def by blast
  ultimately have "heap_inv (L \<union> ?S) \<lparr>g_slab_freelists = heads, h_mem = (p', mem')\<rparr>"
    using pq(2) r(5,6) by (intro heap_invI) blast+
  then have "heap_inv (L \<union> ?S) (H\<lparr>h_mem := (p', mem')\<rparr>)" by (simp only: H kheap.simps)
  moreover have "mem' (fst w) (snd w) = mem (fst w) (snd w)" if "w \<in> L" for w
    using m[of w] SL r(9) l(2) that unfolding off_pages_def by (metis disjoint_iff)
  moreover have "r + ?c \<le> 2 ^ 19"
  proof -
    have "r + ?c - 1 \<in> free_set q" using r(2,3) by auto
    then have "is_direct_mapped (frame_addr (r + ?c - 1))" "r + ?c - 1 < 2 ^ 52"
      using pq(2) free_frame_bound[OF pq(1)] free_setD(1) by (auto simp: free_addrs_def)
    then show ?thesis using r(3) by (simp add: is_direct_mapped_def word_less_nat_alt unat_frame_addr)
  qed
  then have "header_ok mem' (h, sz)" if "h + HEADER_SIZE \<noteq> 0"
    unfolding header_ok_def prod.case f option.case mem'_def header_fields
    using that a(2) r(1) n r(3) by (intro conjI refl exI[of _ r]) simp_all
  ultimately show ?thesis using SL by (simp only: H kheap.simps snd_conv) blast
qed

lemma kmalloc_spec:
  assumes I: "heap_inv L H" and k: "kmalloc sz H = (ptr, H')" "ptr \<noteq> 0"
  shows "span (ptr - HEADER_SIZE) (alloc_words sz) \<inter> L = {} \<and> heap_inv (L \<union> span (ptr - HEADER_SIZE) (alloc_words sz)) H'
    \<and> (\<forall>w\<in>L. snd (h_mem H') (fst w) (snd w) = snd (h_mem H) (fst w) (snd w)) \<and> header_ok (snd (h_mem H')) (ptr - HEADER_SIZE, sz)"
proof (cases "find_slab_bin (sz + HEADER_SIZE)")
  case None
  obtain h p' mem1 where a: "alloc_kernel_pages (pages_from_bytes (sz + HEADER_SIZE)) (h_mem H) = (h, p', mem1)" by (meson prod_cases3)
  have r: "h \<noteq> 0" "ptr = h + HEADER_SIZE" "H' = H\<lparr>h_mem := (p', with_header h (ucast sz) (ucast (pages_from_bytes (sz + HEADER_SIZE))) DIRECT_BIN mem1)\<rparr>"
    using k a by (auto simp: kmalloc_def None Let_def with_header_def split: if_splits)
  show ?thesis using direct_alloc[OF I None a r(1)] k(2) unfolding r(2,3) by simp
next
  case (Some bin)
  show ?thesis
  proof (cases "g_slab_freelists H ! bin = 0")
    case False
    then have "pop_block bin sz H = (ptr, H')" using k by (auto simp: kmalloc_def Some Let_def split: if_splits)
    then show ?thesis using pop_alloc[OF I Some False] k(2) by blast
  next
    case True
    then obtain H1 where H1: "replenish bin H = (True, H1)" "pop_block bin sz H1 = (ptr, H')"
      using k by (auto simp: kmalloc_def Some Let_def split: if_splits prod.splits)
    have "bin < NUM_SLABS" using find_slab_bin_Some[OF Some] by simp
    note R = replenish_spec[OF I this H1(1)]
    have "snd (h_mem H1) (fst w) (snd w) = snd (h_mem H) (fst w) (snd w)" if "w \<in> L" for w
      using R I that unfolding heap_inv_def off_pages_def by blast
    then show ?thesis using pop_alloc[OF _ Some _ H1(2)] R k(2) by metis
  qed
qed

lemma kmalloc_null:
  assumes I: "heap_inv L H" and k: "kmalloc sz H = (0, H')"
  shows "heap_inv L H' \<and> (\<forall>w\<in>L. snd (h_mem H') (fst w) (snd w) = snd (h_mem H) (fst w) (snd w))"
proof (cases "sz = 0")
  case False
  have pq: "pmm_inv (fst (h_mem H))" "\<And>a. a \<in> free_addrs (fst (h_mem H)) \<Longrightarrow> is_direct_mapped a"
    using I by (auto simp: heap_inv_def)
  have fail: "H\<lparr>h_mem := (p, mem)\<rparr> = H" if "alloc_kernel_pages c (h_mem H) = (0, p, mem)" for c p mem
    using alloc_kernel_pages_fail[OF pq, of c "snd (h_mem H)"] that by simp
  show ?thesis
  proof (cases "find_slab_bin (sz + HEADER_SIZE)")
    case None
    obtain h p' mem1 where a: "alloc_kernel_pages (pages_from_bytes (sz + HEADER_SIZE)) (h_mem H) = (h, p', mem1)" by (meson prod_cases3)
    show ?thesis
    proof (cases "h = 0")
      case True
      then have "H' = H" using k a False fail by (auto simp: kmalloc_def None Let_def)
      then show ?thesis using I by simp
    next
      case h: False
      then have "H' = H\<lparr>h_mem := (p', with_header h (ucast sz) (ucast (pages_from_bytes (sz + HEADER_SIZE))) DIRECT_BIN mem1)\<rparr>"
        using k a False by (auto simp: kmalloc_def None Let_def with_header_def)
      then show ?thesis using direct_alloc[OF I None a h] heap_inv_sub by auto
    qed
  next
    case (Some bin)
    then have b: "bin < NUM_SLABS" using find_slab_bin_Some[OF Some] by simp
    obtain ok H1 where H1: "replenish bin H = (ok, H1)" by (meson surj_pair)
    consider "g_slab_freelists H ! bin \<noteq> 0" "pop_block bin sz H = (0, H')"
      | "ok" "pop_block bin sz H1 = (0, H')" | "\<not> ok" "H' = H1"
      using k False H1 by (auto simp: kmalloc_def Some Let_def split: if_splits)
    then show ?thesis
    proof cases
      case 1
      then show ?thesis using pop_alloc[OF I Some 1] heap_inv_sub by blast
    next
      case 2
      then have R: "heap_inv L H1" "g_slab_freelists H1 ! bin \<noteq> 0"
        "\<forall>w. fst w \<notin> free_addrs (fst (h_mem H)) \<longrightarrow> snd (h_mem H1) (fst w) (snd w) = snd (h_mem H) (fst w) (snd w)"
        using replenish_spec[OF I b] H1 by auto
      have "snd (h_mem H1) (fst w) (snd w) = snd (h_mem H) (fst w) (snd w)" if "w \<in> L" for w
        using R(3) I that unfolding heap_inv_def off_pages_def by blast
      then show ?thesis using pop_alloc[OF R(1) Some R(2) 2(2)] heap_inv_sub by (metis Un_upper1)
    next
      case 3
      then have "H1 = H" using H1 fail by (auto simp: replenish_def Let_def split: prod.splits if_splits)
      then show ?thesis using I 3 by simp
    qed
  qed
qed (use k I in \<open>simp add: kmalloc_def\<close>)


section \<open>Release\<close>

lemma free_pages_loop_spec:
  assumes "pmm_inv p" "free_pages_loop p a n ok = (ok', p')"
  shows "pmm_inv p' \<and> free_addrs p' \<subseteq> free_addrs p \<union> {a + of_nat i * PAGE_SIZE |i. i < n}"
  using assms
proof (induction n arbitrary: p a ok)
  case (Suc n)
  obtain o1 p1 where f: "free_page p a = (o1, p1)" by (meson surj_pair)
  have p1: "pmm_inv p1 \<and> free_addrs p1 \<subseteq> insert a (free_addrs p)"
    using free_page_spec[OF Suc.prems(1) f] Suc.prems(1) by (auto simp: free_addrs_def)
  have "pmm_inv p' \<and> free_addrs p' \<subseteq> free_addrs p1 \<union> {a + PAGE_SIZE + of_nat i * PAGE_SIZE |i. i < n}"
    using Suc.IH[of p1] p1 Suc.prems(2) f by simp
  moreover have "{a + PAGE_SIZE + of_nat i * PAGE_SIZE |i. i < n} \<subseteq> {a + of_nat i * PAGE_SIZE |i. i < Suc n}"
  proof
    fix x assume "x \<in> {a + PAGE_SIZE + of_nat i * PAGE_SIZE |i. i < n}"
    then obtain i where "i < n" "x = a + of_nat (Suc i) * PAGE_SIZE" by (auto simp: algebra_simps)
    then show "x \<in> {a + of_nat i * PAGE_SIZE |i. i < Suc n}" using Suc_mono by blast
  qed
  moreover have "a \<in> {a + of_nat i * PAGE_SIZE |i. i < Suc n}" by (auto intro!: exI[of _ 0])
  ultimately show ?case using p1 by blast
qed simp

lemma free_kernel_pages_frames:
  assumes "pmm_inv p" "free_kernel_pages (phys_to_virt (frame_addr r)) cnt (p, mem) = (ok, p', mem')"
  shows "pmm_inv p' \<and> free_addrs p' \<subseteq> free_addrs p \<union> frame_addr ` {r..<r + unat cnt} \<and> mem' = mem"
proof -
  have v: "virt_to_phys (phys_to_virt (frame_addr r)) = frame_addr r" by (simp add: virt_to_phys_def phys_to_virt_def)
  have "{frame_addr r + of_nat i * PAGE_SIZE |i. i < unat cnt} \<subseteq> frame_addr ` {r..<r + unat cnt}"
  proof
    fix x assume "x \<in> {frame_addr r + of_nat i * PAGE_SIZE |i. i < unat cnt}"
    then obtain i where "i < unat cnt" "x = frame_addr (r + i)" by (auto simp: frame_addr_def algebra_simps)
    then show "x \<in> frame_addr ` {r..<r + unat cnt}" by auto
  qed
  moreover obtain o1 p1 where l: "free_pages_loop p (frame_addr r) (unat cnt) True = (o1, p1)" by (meson surj_pair)
  ultimately have "pmm_inv p1 \<and> free_addrs p1 \<subseteq> free_addrs p \<union> frame_addr ` {r..<r + unat cnt}"
    using free_pages_loop_spec[OF assms(1) l] by blast
  moreover have "p' = p \<or> p' = p1" "mem' = mem"
    using assms(2) l by (auto simp: free_kernel_pages_def v free_pages_def split: if_splits)
  ultimately show ?thesis using assms(1) by blast
qed

lemma free_slab:
  assumes I: "heap_inv L \<lparr>g_slab_freelists = heads, h_mem = (q, mem)\<rparr>" and b: "bin < NUM_SLABS"
    and h: "slab_block bin h \<subseteq> L" "h \<noteq> 0" and m: "\<And>w. w \<notin> slab_block bin h \<Longrightarrow> mem1 (fst w) (snd w) = mem (fst w) (snd w)"
  shows "heap_inv (L - slab_block bin h) \<lparr>g_slab_freelists = heads[bin := h], h_mem = (q, wr64 h (heads ! bin) mem1)\<rparr>"
proof -
  obtain FL where l: "lists_ok FL L heads mem" "off_pages FL L q" and pq: "pmm_inv q" "\<And>a. a \<in> free_addrs q \<Longrightarrow> is_direct_mapped a"
    using I by (auto simp: heap_inv_def)
  have d: "slab_block i y \<inter> slab_block bin h = {}" if "i < NUM_SLABS" "y \<in> set (FL i)" for i y
    using lists_okD(4)[OF l(1) that] h(1) by blast
  have "lists_ok FL (L - slab_block bin h) heads mem1"
    by (rule lists_ok_mem[OF lists_ok_sub[OF l(1)] m d]) blast+
  then have "lists_ok (FL(bin := h # FL bin)) (L - slab_block bin h) (heads[bin := h]) (wr64 h (heads ! bin) mem1)"
    using d h(2) b by (intro push_ok) blast+
  moreover have "off_pages (FL(bin := h # FL bin)) (L - slab_block bin h) q"
    using l(2) h(1) unfolding off_pages_def by (auto split: if_splits)
  ultimately show ?thesis by (intro heap_invI pq)
qed

lemma span_index: "w \<in> span h n \<Longrightarrow> snd w < 512"
  by (auto simp: span_def loc_def)

lemma free_direct:
  fixes r :: nat and c :: u64
  defines "S \<equiv> span (phys_to_virt (frame_addr r)) (512 * unat c)"
  assumes I: "heap_inv L \<lparr>g_slab_freelists = heads, h_mem = (q, mem)\<rparr>" and c: "r + unat c \<le> 2 ^ 19"
    and S: "S \<subseteq> L" and idx: "\<And>w. w \<in> L \<Longrightarrow> snd w < 512"
    and m: "\<And>w. w \<notin> S \<Longrightarrow> mem1 (fst w) (snd w) = mem (fst w) (snd w)"
    and f: "free_kernel_pages (phys_to_virt (frame_addr r)) c (q, mem1) = (ok, p', mem')"
  shows "heap_inv (L - S) \<lparr>g_slab_freelists = heads, h_mem = (p', mem')\<rparr> \<and> mem' = mem1"
proof -
  obtain FL where l: "lists_ok FL L heads mem" "off_pages FL L q" and pq: "pmm_inv q" "\<And>a. a \<in> free_addrs q \<Longrightarrow> is_direct_mapped a"
    using I by (auto simp: heap_inv_def)
  let ?F = "frame_addr ` {r..<r + unat c}"
  have F: "pmm_inv p'" "free_addrs p' \<subseteq> free_addrs q \<union> ?F" "mem' = mem1" using free_kernel_pages_frames[OF pq(1) f] by auto
  have in_S: "w \<in> S" if "fst w \<in> ?F" "snd w < 512" for w using that unfolding S_def span_frames by (cases w) auto
  have d: "slab_block i y \<inter> S = {}" if "i < NUM_SLABS" "y \<in> set (FL i)" for i y
    using lists_okD(4)[OF l(1) that] S by blast
  have "lists_ok FL (L - S) heads mem1"
    by (rule lists_ok_mem[OF lists_ok_sub[OF l(1)] m d]) blast+
  moreover have "off_pages FL (L - S) p'" unfolding off_pages_def
  proof (intro conjI ballI allI impI)
    fix w assume "w \<in> L - S"
    then show "fst w \<notin> free_addrs p'" using F(2) in_S[of w] idx[of w] l(2) unfolding off_pages_def by blast
  next
    fix i x w assume x: "i < NUM_SLABS" "x \<in> set (FL i)" and w: "w \<in> slab_block i x"
    have "w \<notin> S" using d[OF x] w by blast
    then have "fst w \<notin> ?F" using in_S[of w] span_index[OF w] by blast
    then show "fst w \<notin> free_addrs p'" using F(2) l(2) x w unfolding off_pages_def by blast
  qed
  moreover have "is_direct_mapped a" if a: "a \<in> free_addrs p'" for a
  proof (cases "a \<in> free_addrs q")
    case False
    then obtain f where "a = frame_addr f" "f < r + unat c" using F(2) a by auto
    then show ?thesis using c by (simp add: is_direct_mapped_def word_less_nat_alt unat_frame_addr)
  qed (rule pq(2))
  ultimately show ?thesis using F(1,3) by (intro conjI) (auto intro: heap_invI)
qed

lemma kfree_spec:
  assumes I: "heap_inv L H" and S: "span h (alloc_words sz) \<subseteq> L" and idx: "\<And>w. w \<in> L \<Longrightarrow> snd w < 512"
    and ok: "header_ok (snd (h_mem H)) (h, sz)"
  shows "heap_inv (L - span h (alloc_words sz)) (kfree (h + HEADER_SIZE) H)
    \<and> (\<forall>w. w \<notin> span h (alloc_words sz) \<longrightarrow> snd (h_mem (kfree (h + HEADER_SIZE) H)) (fst w) (snd w) = snd (h_mem H) (fst w) (snd w))"
proof -
  obtain heads q mem where H: "H = \<lparr>g_slab_freelists = heads, h_mem = (q, mem)\<rparr>" by (metis kheap.surjective old.unit.exhaust prod.collapse)
  note I' = I[unfolded H]
  define mem1 where "mem1 = clear_magic h mem"
  have O: "h \<noteq> 0" "h + HEADER_SIZE \<noteq> 0" "get_magic mem h = ALLOC_MAGIC" "2 \<le> alloc_words sz" using ok by (simp_all add: header_ok_def H)
  have m1: "mem1 (fst w) (snd w) = mem (fst w) (snd w)" if "w \<notin> span h (alloc_words sz)" for w
    unfolding mem1_def using that span_header[OF O(4), of h] by (intro clear_magic_other) auto
  show ?thesis
  proof (cases "find_slab_bin (sz + HEADER_SIZE)")
    case (Some bin)
    then have b: "bin < NUM_SLABS" and n: "alloc_words sz = block_words bin" and g: "get_slab_bin mem h = of_nat bin"
      using find_slab_bin_Some[OF Some] ok by (simp_all add: alloc_words_def header_ok_def H)
    have bn: "of_nat bin \<noteq> DIRECT_BIN" "unat (of_nat bin :: u8) = bin"
      using bin_cases[OF b] by (elim disjE; simp add: DIRECT_BIN_def)+
    have k: "kfree (h + HEADER_SIZE) H = \<lparr>g_slab_freelists = heads[bin := h], h_mem = (q, wr64 h (heads ! bin) mem1)\<rparr>"
      using O bn b g by (simp add: kfree_def H mem1_def cleared Let_def)
    have "wr64 h (heads ! bin) mem1 (fst w) (snd w) = mem (fst w) (snd w)" if "w \<notin> span h (alloc_words sz)" for w
      using m1[OF that] that span_header[OF O(4), of h] by (subst wr64_other) auto
    moreover have "heap_inv (L - slab_block bin h) \<lparr>g_slab_freelists = heads[bin := h], h_mem = (q, wr64 h (heads ! bin) mem1)\<rparr>"
      using m1 S n O(1) by (intro free_slab[OF I' b]) simp_all
    ultimately show ?thesis unfolding k n by (simp add: H)
  next
    case None
    let ?c = "pages_from_bytes (sz + HEADER_SIZE)"
    obtain r where r: "h = phys_to_virt (frame_addr r)" "r + unat ?c \<le> 2 ^ 19" and n: "alloc_words sz = 512 * unat ?c"
      and g: "get_slab_bin mem h = DIRECT_BIN" "get_page_count mem h = ucast ?c"
      using ok None by (auto simp: alloc_words_def header_ok_def H)
    have "unat ?c < 2 ^ 32" using r(2) by simp
    then have u: "ucast (ucast ?c :: u32) = ?c" by (simp add: word_unat_eq_iff unsigned_ucast_eq take_bit_eq_mod unat_mod_distrib)
    have "?c \<noteq> 0" using O(4) n by auto
    then have "get_page_count mem h \<noteq> 0" unfolding g(2) using u by auto
    then have pos: "0 < get_page_count mem h" by (simp add: word_gt_0)
    obtain ok' p' mem' where f: "free_kernel_pages h ?c (q, mem1) = (ok', p', mem')" by (meson prod_cases3)
    have k: "kfree (h + HEADER_SIZE) H = \<lparr>g_slab_freelists = heads, h_mem = (p', mem')\<rparr>"
      using O g pos f u by (simp add: kfree_def H mem1_def cleared Let_def)
    have "heap_inv (L - span h (alloc_words sz)) \<lparr>g_slab_freelists = heads, h_mem = (p', mem')\<rparr> \<and> mem' = mem1"
      unfolding n r(1) using m1 S idx by (intro free_direct[OF I' r(2) _ _ _ f[unfolded r(1)]]) (simp_all add: n r(1))
    then show ?thesis unfolding k unfolding H kheap.simps snd_conv using m1 by blast
  qed
qed


section \<open>Runs of the heap\<close>

text \<open>What clients do, from a heap with empty bins on a page allocator whose free pages are all
  in the direct map: allocate, see an allocation refused, release a live allocation, store a
  word into the payload of a live allocation.  \<open>A\<close> is the set of live allocations, each with
  the address of its header and the size that was asked for.\<close>

definition words :: "u64 \<times> u64 \<Rightarrow> (u64 \<times> nat) set" where
  "words = (\<lambda>(h, sz). span h (alloc_words sz))"

definition store :: "u64 \<Rightarrow> u64 \<Rightarrow> kheap \<Rightarrow> kheap" where
  "store va v H = H\<lparr>h_mem := (fst (h_mem H), wr64 va v (snd (h_mem H)))\<rparr>"

inductive heap_reach :: "(u64 \<times> u64) set \<Rightarrow> kheap \<Rightarrow> bool" where
  init: "pmm_inv p \<Longrightarrow> \<forall>a\<in>free_addrs p. is_direct_mapped a \<Longrightarrow>
    heap_reach {} \<lparr>g_slab_freelists = replicate NUM_SLABS 0, h_mem = (p, mem)\<rparr>"
| malloc: "heap_reach A H \<Longrightarrow> kmalloc sz H = (ptr, H') \<Longrightarrow> ptr \<noteq> 0 \<Longrightarrow> heap_reach (insert (ptr - HEADER_SIZE, sz) A) H'"
| refused: "heap_reach A H \<Longrightarrow> kmalloc sz H = (0, H') \<Longrightarrow> heap_reach A H'"
| free: "heap_reach A H \<Longrightarrow> (h, sz) \<in> A \<Longrightarrow> heap_reach (A - {(h, sz)}) (kfree (h + HEADER_SIZE) H)"
| store: "heap_reach A H \<Longrightarrow> (h, sz) \<in> A \<Longrightarrow> 2 \<le> k \<Longrightarrow> k < alloc_words sz \<Longrightarrow> heap_reach A (store (h + of_nat (8 * k)) v H)"

definition live_ok :: "(u64 \<times> u64) set \<Rightarrow> kheap \<Rightarrow> bool" where
  "live_ok A H \<longleftrightarrow> heap_inv (\<Union>(words ` A)) H \<and> (\<forall>x\<in>A. header_ok (snd (h_mem H)) x)
     \<and> (\<forall>x\<in>A. \<forall>y\<in>A. x \<noteq> y \<longrightarrow> words x \<inter> words y = {})"

lemma header_words: "header_ok mem (h, sz) \<Longrightarrow> loc h \<in> words (h, sz) \<and> loc (h + 8) \<in> words (h, sz)"
  using span_header[of "alloc_words sz" h] by (simp add: header_ok_def words_def)

lemma header_keep:
  assumes "header_ok mem x" "\<And>w. w \<in> words x \<Longrightarrow> mem' (fst w) (snd w) = mem (fst w) (snd w)"
  shows "header_ok mem' x"
proof -
  obtain h sz where x: "x = (h, sz)" by (cases x)
  have "rd64 mem' h = rd64 mem h" "rd64 mem' (h + 8) = rd64 mem (h + 8)"
    using header_words[of mem h sz] assms x by (auto simp: rd64_def)
  then have "get_magic mem' h = get_magic mem h" "get_slab_bin mem' h = get_slab_bin mem h" "get_page_count mem' h = get_page_count mem h"
    by (simp_all add: get_magic_def get_slab_bin_def get_page_count_def)
  then have "header_ok mem' (h, sz) = header_ok mem (h, sz)" by (simp only: header_ok_def prod.case)
  then show ?thesis using assms(1) x by simp
qed

lemma live_okD:
  assumes "live_ok A H"
  shows "heap_inv (\<Union>(words ` A)) H" "\<And>y. y \<in> A \<Longrightarrow> header_ok (snd (h_mem H)) y"
    "\<And>y z. y \<in> A \<Longrightarrow> z \<in> A \<Longrightarrow> y \<noteq> z \<Longrightarrow> words y \<inter> words z = {}"
  using assms by (auto simp: live_ok_def)

lemma live_okI:
  assumes "heap_inv (\<Union>(words ` A)) H" "\<And>y. y \<in> A \<Longrightarrow> header_ok (snd (h_mem H)) y"
    "\<And>y z. y \<in> A \<Longrightarrow> z \<in> A \<Longrightarrow> y \<noteq> z \<Longrightarrow> words y \<inter> words z = {}"
  shows "live_ok A H"
  using assms by (auto simp: live_ok_def)

lemma headers_keep:
  assumes "live_ok A H" "\<forall>w\<in>\<Union>(words ` A). snd (h_mem H') (fst w) (snd w) = snd (h_mem H) (fst w) (snd w)" "y \<in> A"
  shows "header_ok (snd (h_mem H')) y"
proof (rule header_keep[OF live_okD(2)[OF assms(1,3)]])
  fix w assume "w \<in> words y"
  then have "w \<in> \<Union>(words ` A)" using assms(3) by blast
  then show "snd (h_mem H') (fst w) (snd w) = snd (h_mem H) (fst w) (snd w)" by (rule bspec[OF assms(2)])
qed

lemma live_malloc:
  assumes L: "live_ok A H" and k: "kmalloc sz H = (ptr, H')" "ptr \<noteq> 0"
  shows "live_ok (insert (ptr - HEADER_SIZE, sz) A) H'"
proof (rule live_okI)
  let ?x = "(ptr - HEADER_SIZE, sz)"
  have S: "words ?x \<inter> \<Union>(words ` A) = {}" "heap_inv (\<Union>(words ` A) \<union> words ?x) H'" "header_ok (snd (h_mem H')) ?x"
    "\<forall>w\<in>\<Union>(words ` A). snd (h_mem H') (fst w) (snd w) = snd (h_mem H) (fst w) (snd w)"
    using kmalloc_spec[OF live_okD(1)[OF L] k] unfolding words_def prod.case by blast+
  show "heap_inv (\<Union>(words ` insert ?x A)) H'" using S(2) by (simp only: image_insert Union_insert Un_commute)
  show "header_ok (snd (h_mem H')) y" if "y \<in> insert ?x A" for y
    using that S(3) headers_keep[OF L S(4)] by blast
  show "words y \<inter> words z = {}" if "y \<in> insert ?x A" "z \<in> insert ?x A" "y \<noteq> z" for y z
    using that live_okD(3)[OF L] S(1) by blast
qed

lemma live_free:
  assumes L: "live_ok A H" and x: "(h, sz) \<in> A"
  shows "live_ok (A - {(h, sz)}) (kfree (h + HEADER_SIZE) H)"
proof (rule live_okI)
  let ?x = "(h, sz)" and ?H = "kfree (h + HEADER_SIZE) H"
  have w: "words ?x = span h (alloc_words sz)" by (simp add: words_def)
  have idx: "snd v < 512" if "v \<in> \<Union>(words ` A)" for v using that by (auto simp: words_def intro: span_index)
  have sub: "words ?x \<subseteq> \<Union>(words ` A)" using x by blast
  note S = kfree_spec[OF live_okD(1)[OF L] sub[unfolded w] idx live_okD(2)[OF L x], folded w]
  have d: "words y \<inter> words ?x = {}" if "y \<in> A - {?x}" for y using that x live_okD(3)[OF L, of y ?x] by blast
  then have "\<Union>(words ` A) - words ?x = \<Union>(words ` (A - {?x}))" using x by blast
  then show "heap_inv (\<Union>(words ` (A - {?x}))) ?H" using S by simp
  show "header_ok (snd (h_mem ?H)) y" if y: "y \<in> A - {?x}" for y
  proof (rule header_keep[OF live_okD(2)[OF L]])
    show "y \<in> A" using y by simp
    fix v assume "v \<in> words y"
    then have "v \<notin> words ?x" using d[OF y] by blast
    then show "snd (h_mem ?H) (fst v) (snd v) = snd (h_mem H) (fst v) (snd v)" using S by simp
  qed
  show "words y \<inter> words z = {}" if "y \<in> A - {?x}" "z \<in> A - {?x}" "y \<noteq> z" for y z
    using that live_okD(3)[OF L] by simp
qed

lemma header_size: "header_ok mem (h, sz) \<Longrightarrow> alloc_words sz < 2 ^ 61"
proof (cases "find_slab_bin (sz + HEADER_SIZE)")
  case (Some bin)
  then show ?thesis using bin_cases[OF conjunct1[OF find_slab_bin_Some[OF Some]]]
    by (elim disjE; simp add: alloc_words_def block_words_def SLAB_SIZES_def)
qed (auto simp: header_ok_def alloc_words_def)

lemma store_keep:
  assumes "heap_inv L H" "loc a \<in> L"
  shows "heap_inv L (store a v H)"
proof -
  obtain heads q mem where H: "H = \<lparr>g_slab_freelists = heads, h_mem = (q, mem)\<rparr>" by (metis kheap.surjective old.unit.exhaust prod.collapse)
  obtain FL where F: "lists_ok FL L heads mem" "off_pages FL L q"
    and pq: "pmm_inv q" "\<And>a. a \<in> free_addrs q \<Longrightarrow> is_direct_mapped a" using assms(1) by (auto simp: heap_inv_def H)
  have "lists_ok FL L heads (wr64 a v mem)"
  proof (rule lists_ok_mem[OF F(1), where X = "{loc a}"])
    fix i y assume "i < NUM_SLABS" "y \<in> set (FL i)"
    from lists_okD(4)[OF F(1) this] show "slab_block i y \<inter> {loc a} = {}" using assms(2) by blast
  next
    fix w assume "w \<notin> {loc a}"
    then show "wr64 a v mem (fst w) (snd w) = mem (fst w) (snd w)" by (intro wr64_other) simp
  qed
  then have "heap_inv L \<lparr>g_slab_freelists = heads, h_mem = (q, wr64 a v mem)\<rparr>" using F(2) pq by (intro heap_invI)
  then show ?thesis by (simp only: store_def H kheap.simps fst_conv snd_conv)
qed

lemma store_payload:
  assumes x: "header_ok mem (h, sz)" and k: "2 \<le> k" "k < alloc_words sz"
  shows "header_ok (wr64 (h + of_nat (8 * k)) v mem) (h, sz)"
proof -
  let ?a = "h + of_nat (8 * k)"
  have n: "k < 2 ^ 61" using header_size[OF x] k(2) by simp
  have 1: "loc ?a \<noteq> loc h" using loc_apart[of k h] n k(1) by auto
  have "?a = h + 8 + of_nat (8 * (k - 1))" using k(1) by (simp add: of_nat_diff algebra_simps)
  moreover have "loc (h + 8) \<noteq> loc (h + 8 + of_nat (8 * (k - 1)))" using n k(1) by (intro loc_apart) simp_all
  ultimately have 2: "loc ?a \<noteq> loc (h + 8)" by (simp only:) (simp only: eq_commute not_False_eq_True)
  have "get_magic (wr64 ?a v mem) h = get_magic mem h" "get_slab_bin (wr64 ?a v mem) h = get_slab_bin mem h"
    "get_page_count (wr64 ?a v mem) h = get_page_count mem h"
    by (simp_all only: get_magic_def get_slab_bin_def get_page_count_def rd64_wr64 1 2 if_False)
  then have "header_ok (wr64 ?a v mem) (h, sz) = header_ok mem (h, sz)" by (simp only: header_ok_def prod.case)
  then show ?thesis using x by simp
qed

lemma live_store:
  assumes L: "live_ok A H" and x: "(h, sz) \<in> A" and k: "2 \<le> k" "k < alloc_words sz"
  shows "live_ok A (store (h + of_nat (8 * k)) v H)"
proof (rule live_okI)
  let ?a = "h + of_nat (8 * k)"
  have ax: "loc ?a \<in> words (h, sz)" unfolding words_def prod.case span_def using k(2) by blast
  then show "heap_inv (\<Union>(words ` A)) (store ?a v H)" using x by (intro store_keep live_okD(1)[OF L]) blast
  have m: "snd (h_mem (store ?a v H)) = wr64 ?a v (snd (h_mem H))" by (simp add: store_def)
  show "header_ok (snd (h_mem (store ?a v H))) y" if y: "y \<in> A" for y
  proof (cases "y = (h, sz)")
    case True
    then show ?thesis unfolding m using store_payload[OF live_okD(2)[OF L x] k] by (simp only:)
  next
    case False
    then have "loc ?a \<notin> words y" using live_okD(3)[OF L y x] ax by blast
    then show ?thesis unfolding m
      by (intro header_keep[OF live_okD(2)[OF L y]] wr64_other) (metis prod.collapse)
  qed
qed (rule live_okD(3)[OF L])

lemma heap_reach_ok: "heap_reach A H \<Longrightarrow> live_ok A H"
proof (induction rule: heap_reach.induct)
  case (init p mem)
  have "lists_ok (\<lambda>_. []) {} (replicate NUM_SLABS 0) mem" by (simp add: lists_ok_def)
  then show ?case using init by (auto simp: live_ok_def off_pages_def intro!: heap_invI)
next
  case (refused A H sz H')
  note K = kmalloc_null[OF live_okD(1)[OF refused(3)] refused(2)]
  show ?case
    using conjunct1[OF K] headers_keep[OF refused(3) conjunct2[OF K]] live_okD(3)[OF refused(3)] by (rule live_okI)
next
  case (malloc A H sz ptr H')
  then show ?case using live_malloc by blast
next
  case (free A H h sz)
  then show ?case by (intro live_free)
next
  case (store A H h sz k v)
  then show ?case by (intro live_store)
qed


text \<open>A request within 16 bytes of the largest size wraps to a total of less than 16 bytes and
  is served from the smallest bin.\<close>

lemma kmalloc_size_wraps: "find_slab_bin (0xFFFFFFFFFFFFFFF8 + HEADER_SIZE) = Some 0 \<and> alloc_words 0xFFFFFFFFFFFFFFF8 = 8"
  by code_simp

section \<open>The heap property\<close>

text \<open>C32.  Whatever sequence of allocations, refusals, releases of live allocations and stores into
  live payloads has run, a live allocation has room for its header and the size that was asked
  for (sizes that wrap apart), shares no word with another live allocation and no page with the
  free pages; and a further \<open>kmalloc\<close> returns memory disjoint from it and leaves all its words
  as they are.\<close>

theorem heap_live_disjoint:
  assumes "heap_reach A H" "(h, sz) \<in> A"
  shows "(unat sz + 16 < 2 ^ 64 \<longrightarrow> unat sz + 16 \<le> 8 * alloc_words sz)
    \<and> (\<forall>(h', sz')\<in>A. (h', sz') \<noteq> (h, sz) \<longrightarrow> span h (alloc_words sz) \<inter> span h' (alloc_words sz') = {})
    \<and> (\<forall>w\<in>span h (alloc_words sz). fst w \<notin> free_addrs (fst (h_mem H)))
    \<and> (\<forall>n ptr H'. kmalloc n H = (ptr, H') \<and> ptr \<noteq> 0 \<longrightarrow>
         span (ptr - HEADER_SIZE) (alloc_words n) \<inter> span h (alloc_words sz) = {}
         \<and> (\<forall>w\<in>span h (alloc_words sz). snd (h_mem H') (fst w) (snd w) = snd (h_mem H) (fst w) (snd w)))"
proof (intro conjI)
  note L = live_okD[OF heap_reach_ok[OF assms(1)]]
  have w: "words (h, sz) = span h (alloc_words sz)" for h sz by (simp add: words_def)
  have sub: "span h (alloc_words sz) \<subseteq> \<Union>(words ` A)" unfolding w[symmetric] by (rule UN_upper[OF assms(2)])
  show "unat sz + 16 < 2 ^ 64 \<longrightarrow> unat sz + 16 \<le> 8 * alloc_words sz" by (rule impI[OF alloc_words_enough])
  show "\<forall>(h', sz')\<in>A. (h', sz') \<noteq> (h, sz) \<longrightarrow> span h (alloc_words sz) \<inter> span h' (alloc_words sz') = {}"
  proof (intro ballI, unfold split_paired_all prod.case, intro impI)
    fix h' sz' assume "(h', sz') \<in> A" "(h', sz') \<noteq> (h, sz)"
    from L(3)[OF assms(2) this(1) not_sym[OF this(2)]]
    show "span h (alloc_words sz) \<inter> span h' (alloc_words sz') = {}" unfolding w .
  qed
  show "\<forall>w\<in>span h (alloc_words sz). fst w \<notin> free_addrs (fst (h_mem H))"
  proof
    fix v assume "v \<in> span h (alloc_words sz)"
    then have v: "v \<in> \<Union>(words ` A)" by (rule subsetD[OF sub])
    obtain FL where "off_pages FL (\<Union>(words ` A)) (fst (h_mem H))" using L(1) unfolding heap_inv_def by (elim conjE exE)
    then show "fst v \<notin> free_addrs (fst (h_mem H))" unfolding off_pages_def using v by (elim conjE) (rule bspec)
  qed
  show "\<forall>n ptr H'. kmalloc n H = (ptr, H') \<and> ptr \<noteq> 0 \<longrightarrow>
      span (ptr - HEADER_SIZE) (alloc_words n) \<inter> span h (alloc_words sz) = {}
      \<and> (\<forall>w\<in>span h (alloc_words sz). snd (h_mem H') (fst w) (snd w) = snd (h_mem H) (fst w) (snd w))"
  proof (intro allI impI, elim conjE)
    fix n ptr H' assume k: "kmalloc n H = (ptr, H')" "ptr \<noteq> 0"
    note K = kmalloc_spec[OF L(1) k]
    have "span (ptr - HEADER_SIZE) (alloc_words n) \<inter> span h (alloc_words sz) = {}" using conjunct1[OF K] sub by blast
    moreover have "\<forall>w\<in>span h (alloc_words sz). snd (h_mem H') (fst w) (snd w) = snd (h_mem H) (fst w) (snd w)"
      by (rule ballI) (rule bspec[OF conjunct1[OF conjunct2[OF conjunct2[OF K]]] subsetD[OF sub]])
    ultimately show "span (ptr - HEADER_SIZE) (alloc_words n) \<inter> span h (alloc_words sz) = {}
      \<and> (\<forall>w\<in>span h (alloc_words sz). snd (h_mem H') (fst w) (snd w) = snd (h_mem H) (fst w) (snd w))" ..
  qed
qed

definition example_heap :: kheap where
  "example_heap = \<lparr>g_slab_freelists = replicate NUM_SLABS 0, h_mem = (roomy_pmm, \<lambda>_ _. 0)\<rparr>"

lemma example_pages: "fst (alloc_kernel_pages 2 (roomy_pmm, \<lambda>_ _. 0)) = 0xFFFFFFFF80003000"
  by code_simp

lemma example_kmalloc: "fst (kmalloc 5000 example_heap) = 0xFFFFFFFF80003010"
proof -
  have "find_slab_bin (5000 + HEADER_SIZE) = None" "pages_from_bytes (5000 + HEADER_SIZE) = 2" by code_simp+
  moreover obtain p mem where "alloc_kernel_pages 2 (roomy_pmm, \<lambda>_ _. 0) = (0xFFFFFFFF80003000, p, mem)"
    using example_pages by (metis prod.collapse)
  ultimately show ?thesis by (simp add: kmalloc_def example_heap_def Let_def HEADER_SIZE_def)
qed

theorem heap_live_disjoint_witness:
  "\<exists>H1. kmalloc 5000 example_heap = (0xFFFFFFFF80003010, H1) \<and> heap_reach {(0xFFFFFFFF80003000, 5000)} H1
    \<and> loc 0xFFFFFFFF80003000 \<in> span 0xFFFFFFFF80003000 (alloc_words 5000)
    \<and> fst (loc 0xFFFFFFFF80003000) \<notin> free_addrs (fst (h_mem H1)) \<and> 5016 \<le> 8 * alloc_words 5000"
proof -
  obtain H1 where 1: "kmalloc 5000 example_heap = (0xFFFFFFFF80003010, H1)" using example_kmalloc by (metis prod.collapse)
  have "heap_reach {} example_heap" unfolding example_heap_def
    using vm_invD(1,4)[OF roomy_vm_inv] by (intro heap_reach.init) simp_all
  from heap_reach.malloc[OF this 1] have r: "heap_reach {(0xFFFFFFFF80003000, 5000)} H1" by (simp add: HEADER_SIZE_def)
  have "alloc_words 5000 = 1024" by code_simp
  then have w: "loc 0xFFFFFFFF80003000 \<in> span 0xFFFFFFFF80003000 (alloc_words 5000)"
    using span_header[of 1024 "0xFFFFFFFF80003000"] by simp
  note D = heap_live_disjoint[OF r, of "0xFFFFFFFF80003000" 5000]
  have "5016 \<le> 8 * alloc_words 5000" using D by simp
  moreover have "fst (loc 0xFFFFFFFF80003000) \<notin> free_addrs (fst (h_mem H1))" using D w by blast
  ultimately show ?thesis using 1 r w by blast
qed

end
