(* ===== verification/Vfs.thy ===== *)
theory Vfs
  imports Kernel_Prelude
begin

text \<open>
  The virtual file system layer (\<open>src/kernel/fs/vfs.hpp\<close>, \<open>vfs.cpp\<close>): path normalisation and
  resolution, the mount table and the file-descriptor table.  The virtual interfaces
  \<open>Filesystem\<close> and \<open>VNode\<close> are records of operations over a state of the drivers, so every
  theorem here holds for every file system behind them.  A C string is the list of its
  characters before the terminating zero, and a null pointer is \<open>None\<close>; file offsets are 64-bit
  words and results of signed type are integers.
\<close>

unbundle bit_operations_syntax

section \<open>Interfaces\<close>

datatype node_type = NT_Unknown | NT_File | NT_Directory | NT_BlockDevice | NT_CharacterDevice

datatype seek_origin = Seek_Set | Seek_Current | Seek_End

record file_stat =
  st_type :: node_type
  st_size :: u64
  st_inode :: u64
  st_block_size :: u32
  st_blocks :: u64

record dir_entry =
  de_name :: string
  de_type :: node_type
  de_size :: u64
  de_inode :: u64

record ('v, 's) vnode_ops =
  vn_size :: "'v \<Rightarrow> 's \<Rightarrow> u64"
  vn_read :: "'v \<Rightarrow> u64 \<Rightarrow> u64 \<Rightarrow> 's \<Rightarrow> int \<times> u8 list \<times> 's"
  vn_write :: "'v \<Rightarrow> u64 \<Rightarrow> u8 list \<Rightarrow> 's \<Rightarrow> int \<times> 's"
  vn_truncate :: "'v \<Rightarrow> u64 \<Rightarrow> 's \<Rightarrow> int \<times> 's"
  vn_lookup :: "'v \<Rightarrow> string \<Rightarrow> 's \<Rightarrow> int \<times> 'v option \<times> 's"
  vn_create :: "'v \<Rightarrow> string \<Rightarrow> node_type \<Rightarrow> 's \<Rightarrow> int \<times> 'v option \<times> 's"
  vn_mkdir :: "'v \<Rightarrow> string \<Rightarrow> 's \<Rightarrow> int \<times> 'v option \<times> 's"
  vn_unlink :: "'v \<Rightarrow> string \<Rightarrow> 's \<Rightarrow> int \<times> 's"
  vn_readdir :: "'v \<Rightarrow> u32 \<Rightarrow> 's \<Rightarrow> int \<times> dir_entry \<times> 's"
  vn_stat :: "'v \<Rightarrow> 's \<Rightarrow> int \<times> file_stat \<times> 's"

record ('d, 'f, 'v, 's) fs_ops =
  fs_mount :: "'f \<Rightarrow> 'd \<Rightarrow> 's \<Rightarrow> int \<times> 'v option \<times> 's"
  fs_unmount :: "'f \<Rightarrow> 's \<Rightarrow> int \<times> 's"

definition O_RDONLY :: u32 where "O_RDONLY = 0x0001"
definition O_WRONLY :: u32 where "O_WRONLY = 0x0002"
definition O_RDWR :: u32 where "O_RDWR = 0x0003"
definition O_CREAT :: u32 where "O_CREAT = 0x0040"
definition O_TRUNC :: u32 where "O_TRUNC = 0x0200"
definition O_APPEND :: u32 where "O_APPEND = 0x0400"

definition MAX_MOUNTS :: nat where "MAX_MOUNTS = 8"
definition MAX_FILE_DESCRIPTORS :: nat where "MAX_FILE_DESCRIPTORS = 64"
definition PATH_MAX :: nat where "PATH_MAX = 256"

record 'v file_descriptor =
  fd_vnode :: "'v option"
  fd_flags :: u32
  fd_offset :: u64
  fd_in_use :: bool

record ('d, 'f, 'v) mount_point =
  mp_path :: string
  mp_device :: "'d option"
  mp_fs :: "'f option"
  mp_root :: "'v option"
  mp_active :: bool

record ('d, 'f, 'v, 's) vfs =
  v_mounts :: "('d, 'f, 'v) mount_point list"
  v_fds :: "'v file_descriptor list"
  v_initialized :: bool
  v_store :: 's

definition empty_fd :: "'v file_descriptor" where
  "empty_fd = \<lparr>fd_vnode = None, fd_flags = 0, fd_offset = 0, fd_in_use = False\<rparr>"

definition empty_mount :: "('d, 'f, 'v) mount_point" where
  "empty_mount = \<lparr>mp_path = [], mp_device = None, mp_fs = None, mp_root = None, mp_active = False\<rparr>"

section \<open>Mounts\<close>

definition vfs_init :: "('d, 'f, 'v, 's) vfs \<Rightarrow> ('d, 'f, 'v, 's) vfs" where
  "vfs_init V = V\<lparr>v_mounts := replicate MAX_MOUNTS empty_mount,
                  v_fds := replicate MAX_FILE_DESCRIPTORS empty_fd, v_initialized := True\<rparr>"

definition vfs_mount ::
  "('d, 'f, 'v, 's) fs_ops \<Rightarrow> string option \<Rightarrow> 'd option \<Rightarrow> 'f option \<Rightarrow> ('d, 'f, 'v, 's) vfs \<Rightarrow> int \<times> ('d, 'f, 'v, 's) vfs" where
  "vfs_mount F mountpoint dev fs V =
     (case (mountpoint, dev, fs) of
        (Some path, Some d, Some f) \<Rightarrow>
          let V0 = (if v_initialized V then V else vfs_init V) in
          (case List.find (\<lambda>i. \<not> mp_active (v_mounts V0 ! i)) [0..<MAX_MOUNTS] of
             None \<Rightarrow> (-2, V0)
           | Some slot \<Rightarrow>
               (case fs_mount F f d (v_store V0) of (res, root, st) \<Rightarrow>
                  if res \<noteq> 0 \<or> root = None then (res, V0\<lparr>v_store := st\<rparr>)
                  else (0, V0\<lparr>v_store := st,
                             v_mounts := (v_mounts V0)[slot := \<lparr>mp_path = take 31 path, mp_device = Some d,
                               mp_fs = Some f, mp_root = root, mp_active = True\<rparr>]\<rparr>)))
      | _ \<Rightarrow> (-1, V))"

definition vfs_unmount ::
  "('d, 'f, 'v, 's) fs_ops \<Rightarrow> string option \<Rightarrow> ('d, 'f, 'v, 's) vfs \<Rightarrow> int \<times> ('d, 'f, 'v, 's) vfs" where
  "vfs_unmount F mountpoint V =
     (case mountpoint of
        None \<Rightarrow> (-1, V)
      | Some path \<Rightarrow>
          (case List.find (\<lambda>i. mp_active (v_mounts V ! i) \<and> mp_path (v_mounts V ! i) = path) [0..<MAX_MOUNTS] of
             None \<Rightarrow> (-1, V)
           | Some i \<Rightarrow>
               (case fs_unmount F (the (mp_fs (v_mounts V ! i))) (v_store V) of (res, st) \<Rightarrow>
                  (res, V\<lparr>v_store := st, v_mounts := (v_mounts V)[i := empty_mount]\<rparr>))))"

definition root_vnode :: "('d, 'f, 'v, 's) vfs \<Rightarrow> 'v option" where
  "root_vnode V =
     (case List.find (\<lambda>i. mp_active (v_mounts V ! i) \<and> mp_path (v_mounts V ! i) = ''/'') [0..<MAX_MOUNTS] of
        None \<Rightarrow> None | Some i \<Rightarrow> mp_root (v_mounts V ! i))"

section \<open>Paths\<close>

text \<open>The segment loop, on the part of the input from index \<open>i\<close> on.\<close>

function norm_loop :: "string \<Rightarrow> string list \<Rightarrow> string list option" where
  "norm_loop s segs =
     (let r = dropWhile (\<lambda>c. c = CHR ''/'') s in
      if r = [] then Some segs
      else let seg = takeWhile (\<lambda>c. c \<noteq> CHR ''/'') r; rest = dropWhile (\<lambda>c. c \<noteq> CHR ''/'') r in
        if seg = ''.'' then norm_loop rest segs
        else if seg = ''..'' then norm_loop rest (butlast segs)
        else if length segs \<ge> 16 \<or> length seg \<ge> 64 then None
        else norm_loop rest (segs @ [seg]))"
  by pat_completeness auto

lemma norm_rest_shorter:
  assumes "r = dropWhile (\<lambda>c. c = CHR ''/'') s" "r \<noteq> []"
  shows "length (dropWhile (\<lambda>c. c \<noteq> CHR ''/'') r) < length s"
proof -
  obtain c cs where r: "r = c # cs" using assms(2) by (cases r) auto
  then have "c \<noteq> CHR ''/''" using hd_dropWhile[of "\<lambda>c. c = CHR ''/''" s] assms by simp
  then have "length (dropWhile (\<lambda>c. c \<noteq> CHR ''/'') r) \<le> length cs" using r by (simp add: length_dropWhile_le)
  also have "\<dots> < length r" using r by simp
  also have "\<dots> \<le> length s" using assms(1) by (simp add: length_dropWhile_le)
  finally show ?thesis .
qed

termination norm_loop
  by (relation "measure (\<lambda>(s, segs). length s)") (auto intro: norm_rest_shorter)

declare norm_loop.simps [simp del]

fun emit_path :: "nat \<Rightarrow> string list \<Rightarrow> string \<Rightarrow> string option" where
  "emit_path max_len [] out = Some out"
| "emit_path max_len (seg # segs) out =
     (if length out + 1 \<ge> max_len then None
      else let out1 = out @ ''/'' in
        if length out1 + length seg \<ge> max_len then None else emit_path max_len segs (out1 @ seg))"

definition normalize_path :: "string option \<Rightarrow> nat \<Rightarrow> string option" where
  "normalize_path in_path max_len =
     (case in_path of
        None \<Rightarrow> None
      | Some s \<Rightarrow>
          if max_len < 2 \<or> length s \<ge> PATH_MAX \<or> length s = 0 then None
          else case norm_loop s [] of
                 None \<Rightarrow> None
               | Some [] \<Rightarrow> Some ''/''
               | Some segs \<Rightarrow> emit_path max_len segs [])"

record 'v resolved =
  rs_code :: int
  rs_vnode :: "'v option"
  rs_basename :: string
  rs_parent :: "'v option"

abbreviation unresolved :: "int \<Rightarrow> 'v resolved" where
  "unresolved code \<equiv> \<lparr>rs_code = code, rs_vnode = None, rs_basename = [], rs_parent = None\<rparr>"

text \<open>The walk over the normalised path from index \<open>i\<close> on.\<close>

function resolve_walk :: "('v, 's) vnode_ops \<Rightarrow> 'v \<Rightarrow> string \<Rightarrow> 's \<Rightarrow> 'v resolved \<times> 's" where
  "resolve_walk D cur s st =
     (if s = [] then (unresolved (-1), st)
      else let seg = takeWhile (\<lambda>c. c \<noteq> CHR ''/'') s; rest = dropWhile (\<lambda>c. c \<noteq> CHR ''/'') s in
        case vn_lookup D cur seg st of (res, child, st') \<Rightarrow>
          if rest \<noteq> []
          then (if res \<noteq> 0 \<or> child = None then (unresolved (-3), st') else resolve_walk D (the child) (tl rest) st')
          else (\<lparr>rs_code = (if res = 0 \<and> child \<noteq> None then 0 else 1), rs_vnode = child,
                 rs_basename = take 63 seg, rs_parent = Some cur\<rparr>, st'))"
  by pat_completeness auto

lemma walk_rest_shorter: "s \<noteq> [] \<Longrightarrow> length (dropWhile P s) - Suc 0 < length s"
  using length_dropWhile_le[of P s] by (cases s) (auto simp: less_Suc_eq_le)

termination resolve_walk
  by (relation "measure (\<lambda>(D, cur, s, st). length s)") (auto intro: walk_rest_shorter)

declare resolve_walk.simps [simp del]

definition resolve_path ::
  "('v, 's) vnode_ops \<Rightarrow> string option \<Rightarrow> ('d, 'f, 'v, 's) vfs \<Rightarrow> 'v resolved \<times> ('d, 'f, 'v, 's) vfs" where
  "resolve_path D path V =
     (case normalize_path path PATH_MAX of
        None \<Rightarrow> (unresolved (-1), V)
      | Some norm \<Rightarrow>
          (case root_vnode V of
             None \<Rightarrow> (unresolved (-2), V)
           | Some cur \<Rightarrow>
               if norm = ''/''
               then (\<lparr>rs_code = 0, rs_vnode = Some cur, rs_basename = ''/'', rs_parent = None\<rparr>, V)
               else case resolve_walk D cur (tl norm) (v_store V) of (r, st) \<Rightarrow> (r, V\<lparr>v_store := st\<rparr>)))"

section \<open>Files\<close>

definition has_flag :: "u32 \<Rightarrow> u32 \<Rightarrow> bool" where "has_flag flags f = (flags AND f \<noteq> 0)"

definition free_fd :: "'v file_descriptor list \<Rightarrow> nat option" where
  "free_fd fds = List.find (\<lambda>i. \<not> fd_in_use (fds ! i)) [3..<MAX_FILE_DESCRIPTORS]"

text \<open>The descriptor step of \<open>open\<close>, once the node is known.\<close>

definition open_node ::
  "('v, 's) vnode_ops \<Rightarrow> 'v \<Rightarrow> u32 \<Rightarrow> ('d, 'f, 'v, 's) vfs \<Rightarrow> int \<times> ('d, 'f, 'v, 's) vfs" where
  "open_node D node flags V =
     (let V1 = (if has_flag flags O_TRUNC then V\<lparr>v_store := snd (vn_truncate D node 0 (v_store V))\<rparr> else V) in
      case free_fd (v_fds V1) of
        None \<Rightarrow> (-5, V1)
      | Some fd \<Rightarrow>
          (int fd, V1\<lparr>v_fds := (v_fds V1)[fd := \<lparr>fd_vnode = Some node, fd_flags = flags,
             fd_offset = (if has_flag flags O_APPEND then vn_size D node (v_store V1) else 0), fd_in_use = True\<rparr>]\<rparr>))"

definition vfs_open ::
  "('v, 's) vnode_ops \<Rightarrow> string option \<Rightarrow> u32 \<Rightarrow> ('d, 'f, 'v, 's) vfs \<Rightarrow> int \<times> ('d, 'f, 'v, 's) vfs" where
  "vfs_open D path flags V =
     (if path = None then (-1, V)
      else case resolve_path D path V of (r, V1) \<Rightarrow>
        if rs_code r = 1 \<and> has_flag flags O_CREAT
        then (case rs_parent r of
                None \<Rightarrow> (-2, V1)
              | Some parent \<Rightarrow>
                  (case vn_create D parent (rs_basename r) NT_File (v_store V1) of (cres, node, st) \<Rightarrow>
                     let V2 = V1\<lparr>v_store := st\<rparr> in
                     if cres \<noteq> 0 \<or> node = None then (-3, V2) else open_node D (the node) flags V2))
        else if rs_code r \<noteq> 0 \<or> rs_vnode r = None then (-4, V1)
        else open_node D (the (rs_vnode r)) flags V1)"

definition fd_valid :: "int \<Rightarrow> bool" where
  "fd_valid fd = (\<not> (fd < 0 \<or> nat fd \<ge> MAX_FILE_DESCRIPTORS))"

definition vfs_close :: "int \<Rightarrow> ('d, 'f, 'v, 's) vfs \<Rightarrow> int \<times> ('d, 'f, 'v, 's) vfs" where
  "vfs_close fd V =
     (if \<not> fd_valid fd then (-1, V)
      else if \<not> fd_in_use (v_fds V ! nat fd) then (-1, V)
      else (0, V\<lparr>v_fds := (v_fds V)[nat fd := \<lparr>fd_vnode = None, fd_flags = 0, fd_offset = 0, fd_in_use = False\<rparr>]\<rparr>))"

text \<open>The node behind a descriptor that passes the checks every operation starts with.\<close>

definition open_vnode :: "int \<Rightarrow> ('d, 'f, 'v, 's) vfs \<Rightarrow> 'v option" where
  "open_vnode fd V = (if fd_valid fd \<and> fd_in_use (v_fds V ! nat fd) then fd_vnode (v_fds V ! nat fd) else None)"

definition advance :: "int \<Rightarrow> int \<Rightarrow> 'v file_descriptor list \<Rightarrow> 'v file_descriptor list" where
  "advance fd bytes fds =
     (if bytes > 0 then fds[nat fd := (fds ! nat fd)\<lparr>fd_offset := fd_offset (fds ! nat fd) + of_int bytes\<rparr>] else fds)"

definition vfs_read ::
  "('v, 's) vnode_ops \<Rightarrow> int \<Rightarrow> bool \<Rightarrow> u64 \<Rightarrow> ('d, 'f, 'v, 's) vfs \<Rightarrow> int \<times> u8 list \<times> ('d, 'f, 'v, 's) vfs" where
  "vfs_read D fd dst cnt V =
     (case (if dst then open_vnode fd V else None) of
        None \<Rightarrow> (-1, [], V)
      | Some node \<Rightarrow>
          (case vn_read D node (fd_offset (v_fds V ! nat fd)) cnt (v_store V) of (bytes, buf, st) \<Rightarrow>
             (bytes, buf, V\<lparr>v_store := st, v_fds := advance fd bytes (v_fds V)\<rparr>)))"

definition vfs_write ::
  "('v, 's) vnode_ops \<Rightarrow> int \<Rightarrow> u8 list option \<Rightarrow> ('d, 'f, 'v, 's) vfs \<Rightarrow> int \<times> ('d, 'f, 'v, 's) vfs" where
  "vfs_write D fd src V =
     (case src of
        None \<Rightarrow> (-1, V)
      | Some buf \<Rightarrow>
          (case open_vnode fd V of
             None \<Rightarrow> (-1, V)
           | Some node \<Rightarrow>
               (case vn_write D node (fd_offset (v_fds V ! nat fd)) buf (v_store V) of (bytes, st) \<Rightarrow>
                  (bytes, V\<lparr>v_store := st, v_fds := advance fd bytes (v_fds V)\<rparr>))))"

definition seek_target :: "('v, 's) vnode_ops \<Rightarrow> 'v \<Rightarrow> u64 \<Rightarrow> u64 \<Rightarrow> seek_origin \<Rightarrow> 's \<Rightarrow> u64" where
  "seek_target D node cur offset origin st =
     (case origin of Seek_Set \<Rightarrow> offset | Seek_Current \<Rightarrow> cur + offset | Seek_End \<Rightarrow> vn_size D node st + offset)"

definition vfs_seek ::
  "('v, 's) vnode_ops \<Rightarrow> int \<Rightarrow> u64 \<Rightarrow> seek_origin \<Rightarrow> ('d, 'f, 'v, 's) vfs \<Rightarrow> int \<times> ('d, 'f, 'v, 's) vfs" where
  "vfs_seek D fd offset origin V =
     (case open_vnode fd V of
        None \<Rightarrow> (-1, V)
      | Some node \<Rightarrow>
          let new_offset = seek_target D node (fd_offset (v_fds V ! nat fd)) offset origin (v_store V) in
          if sint new_offset < 0 then (-2, V)
          else (sint new_offset, V\<lparr>v_fds := (v_fds V)[nat fd := (v_fds V ! nat fd)\<lparr>fd_offset := new_offset\<rparr>]\<rparr>))"

definition vfs_stat ::
  "('v, 's) vnode_ops \<Rightarrow> string option \<Rightarrow> bool \<Rightarrow> ('d, 'f, 'v, 's) vfs \<Rightarrow> int \<times> file_stat option \<times> ('d, 'f, 'v, 's) vfs" where
  "vfs_stat D path out V =
     (if path = None \<or> \<not> out then (-1, None, V)
      else case resolve_path D path V of (r, V1) \<Rightarrow>
        if rs_code r \<noteq> 0 \<or> rs_vnode r = None then (-2, None, V1)
        else case vn_stat D (the (rs_vnode r)) (v_store V1) of (res, st, s) \<Rightarrow> (res, Some st, V1\<lparr>v_store := s\<rparr>))"

definition vfs_fstat ::
  "('v, 's) vnode_ops \<Rightarrow> int \<Rightarrow> bool \<Rightarrow> ('d, 'f, 'v, 's) vfs \<Rightarrow> int \<times> file_stat option \<times> ('d, 'f, 'v, 's) vfs" where
  "vfs_fstat D fd out V =
     (case (if out then open_vnode fd V else None) of
        None \<Rightarrow> (-1, None, V)
      | Some node \<Rightarrow> (case vn_stat D node (v_store V) of (res, st, s) \<Rightarrow> (res, Some st, V\<lparr>v_store := s\<rparr>)))"

definition vfs_mkdir ::
  "('v, 's) vnode_ops \<Rightarrow> string option \<Rightarrow> ('d, 'f, 'v, 's) vfs \<Rightarrow> int \<times> ('d, 'f, 'v, 's) vfs" where
  "vfs_mkdir D path V =
     (if path = None then (-1, V)
      else case resolve_path D path V of (r, V1) \<Rightarrow>
        if rs_code r = 0 \<and> rs_vnode r \<noteq> None then (-2, V1)
        else case rs_parent r of
               None \<Rightarrow> (-3, V1)
             | Some parent \<Rightarrow>
                 (case vn_mkdir D parent (rs_basename r) (v_store V1) of (res, _, s) \<Rightarrow> (res, V1\<lparr>v_store := s\<rparr>)))"

definition vfs_readdir ::
  "('v, 's) vnode_ops \<Rightarrow> int \<Rightarrow> u32 \<Rightarrow> bool \<Rightarrow> ('d, 'f, 'v, 's) vfs \<Rightarrow> int \<times> dir_entry option \<times> ('d, 'f, 'v, 's) vfs" where
  "vfs_readdir D fd idx out V =
     (case (if out then open_vnode fd V else None) of
        None \<Rightarrow> (-1, None, V)
      | Some node \<Rightarrow> (case vn_readdir D node idx (v_store V) of (res, e, s) \<Rightarrow> (res, Some e, V\<lparr>v_store := s\<rparr>)))"

definition vfs_unlink ::
  "('v, 's) vnode_ops \<Rightarrow> string option \<Rightarrow> ('d, 'f, 'v, 's) vfs \<Rightarrow> int \<times> ('d, 'f, 'v, 's) vfs" where
  "vfs_unlink D path V =
     (if path = None then (-1, V)
      else case resolve_path D path V of (r, V1) \<Rightarrow>
        (case (rs_parent r, rs_vnode r) of
           (Some parent, Some _) \<Rightarrow>
             if rs_code r \<noteq> 0 then (-2, V1)
             else (case vn_unlink D parent (rs_basename r) (v_store V1) of (res, s) \<Rightarrow> (res, V1\<lparr>v_store := s\<rparr>))
         | _ \<Rightarrow> (-2, V1)))"


section \<open>Normalised paths\<close>

text \<open>The reference: a path is the list of its slash-separated fields; empty fields and \<open>.\<close> stand
  for nothing, \<open>..\<close> removes the last field kept.\<close>

fun fields :: "string \<Rightarrow> string list" where
  "fields [] = [[]]"
| "fields (c # cs) = (if c = CHR ''/'' then [] # fields cs else (c # hd (fields cs)) # tl (fields cs))"

definition apply_field :: "string list \<Rightarrow> string \<Rightarrow> string list" where
  "apply_field segs f = (if f = [] \<or> f = ''.'' then segs else if f = ''..'' then butlast segs else segs @ [f])"

definition path_names :: "string \<Rightarrow> string list" where
  "path_names s = foldl apply_field [] (fields s)"

definition render :: "string list \<Rightarrow> string" where
  "render segs = (if segs = [] then ''/'' else concat (map (\<lambda>f. CHR ''/'' # f) segs))"

definition plain_name :: "string \<Rightarrow> bool" where
  "plain_name f \<longleftrightarrow> f \<noteq> [] \<and> f \<noteq> ''.'' \<and> f \<noteq> ''..'' \<and> CHR ''/'' \<notin> set f \<and> length f < 64"

lemma fields_nonempty: "fields s \<noteq> []"
  by (induction s) auto

lemma fields_split:
  "fields r = takeWhile (\<lambda>c. c \<noteq> CHR ''/'') r #
     (if dropWhile (\<lambda>c. c \<noteq> CHR ''/'') r = [] then [] else fields (tl (dropWhile (\<lambda>c. c \<noteq> CHR ''/'') r)))"
  by (induction r) auto

lemma fields_skip: "foldl apply_field segs (fields (dropWhile (\<lambda>c. c = CHR ''/'') s)) = foldl apply_field segs (fields s)"
  by (induction s) (auto simp: apply_field_def)

lemma fields_rest:
  fixes r defines "rest \<equiv> dropWhile (\<lambda>c. c \<noteq> CHR ''/'') r"
  shows "foldl apply_field segs (fields r) = foldl apply_field (apply_field segs (takeWhile (\<lambda>c. c \<noteq> CHR ''/'') r)) (fields rest)"
proof (cases rest)
  case Nil
  then have "fields r = [takeWhile (\<lambda>c. c \<noteq> CHR ''/'') r]" using fields_split[of r] unfolding rest_def by (simp only: if_True refl)
  then show ?thesis by (simp add: Nil apply_field_def[of _ "[]"])
next
  case (Cons c t)
  then have "c = CHR ''/''" using hd_dropWhile[of "\<lambda>c. c \<noteq> CHR ''/''" r] by (simp add: rest_def)
  then have "foldl apply_field x (fields rest) = foldl apply_field x (fields t)" for x using Cons by (simp add: apply_field_def)
  moreover have "fields r = takeWhile (\<lambda>c. c \<noteq> CHR ''/'') r # fields t"
    using fields_split[of r] Cons unfolding rest_def by (simp only: list.sel list.distinct(2) if_False)
  ultimately show ?thesis by simp
qed

lemma norm_loop_fields:
  "norm_loop s segs = Some r \<Longrightarrow> r = foldl apply_field segs (fields s)"
proof (induction s segs rule: norm_loop.induct)
  case (1 s segs)
  define t where "t = dropWhile (\<lambda>c. c = CHR ''/'') s"
  define seg where "seg = takeWhile (\<lambda>c. c \<noteq> CHR ''/'') t"
  define rest where "rest = dropWhile (\<lambda>c. c \<noteq> CHR ''/'') t"
  have sk: "foldl apply_field segs (fields s) = foldl apply_field segs (fields t)" unfolding t_def by (rule fields_skip[symmetric])
  show ?case
  proof (cases "t = []")
    case True
    then have "segs = r" using 1(4) by (simp add: norm_loop.simps[of s] t_def Let_def)
    then show ?thesis unfolding sk True by (simp add: apply_field_def)
  next
    case False
    have "hd t \<noteq> CHR ''/''" using hd_dropWhile[of "\<lambda>c. c = CHR ''/''" s] False t_def by simp
    then have ne: "seg \<noteq> []" using False unfolding seg_def by (cases t) auto
    have f: "foldl apply_field segs (fields t) = foldl apply_field (apply_field segs seg) (fields rest)"
      unfolding seg_def rest_def by (rule fields_rest)
    note IH = 1(1-3)[OF t_def False seg_def rest_def]
    show ?thesis
      using 1(4) IH False ne unfolding sk f
      by (subst (asm) norm_loop.simps) (auto simp: Let_def t_def[symmetric] seg_def[symmetric] rest_def[symmetric] apply_field_def[of segs seg] split: if_splits)
  qed
qed


text \<open>One turn of the loop, with the names of its local variables.\<close>

lemma norm_loop_step:
  assumes "dropWhile (\<lambda>c. c = CHR ''/'') s = t" "t \<noteq> []"
  shows "norm_loop s segs =
    (let seg = takeWhile (\<lambda>c. c \<noteq> CHR ''/'') t; rest = dropWhile (\<lambda>c. c \<noteq> CHR ''/'') t in
      if seg = ''.'' then norm_loop rest segs
      else if seg = ''..'' then norm_loop rest (butlast segs)
      else if length segs \<ge> 16 \<or> length seg \<ge> 64 then None
      else norm_loop rest (segs @ [seg]))"
  using assms by (subst norm_loop.simps) (simp add: Let_def)

lemma norm_loop_plain:
  "norm_loop s segs = Some r \<Longrightarrow> \<forall>f\<in>set segs. plain_name f \<Longrightarrow> length segs \<le> 16 \<Longrightarrow> (\<forall>f\<in>set r. plain_name f) \<and> length r \<le> 16"
proof (induction s segs rule: norm_loop.induct)
  case (1 s segs)
  define t where "t = dropWhile (\<lambda>c. c = CHR ''/'') s"
  define seg where "seg = takeWhile (\<lambda>c. c \<noteq> CHR ''/'') t"
  define rest where "rest = dropWhile (\<lambda>c. c \<noteq> CHR ''/'') t"
  show ?case
  proof (cases "t = []")
    case True
    then have "segs = r" using 1(4) by (simp add: norm_loop.simps[of s] t_def Let_def)
    then show ?thesis using 1(5,6) by simp
  next
    case False
    have "hd t \<noteq> CHR ''/''" using hd_dropWhile[of "\<lambda>c. c = CHR ''/''" s] False t_def by simp
    then have ne: "seg \<noteq> []" using False unfolding seg_def by (cases t) auto
    have sl: "CHR ''/'' \<notin> set seg" unfolding seg_def by (auto dest: set_takeWhileD)
    have pop: "\<forall>f\<in>set (butlast segs). plain_name f" "length (butlast segs) \<le> 16" using 1(5,6) by (auto dest: in_set_butlastD)
    note IH = 1(1-3)[OF t_def False seg_def rest_def]
    have step: "norm_loop s segs = (if seg = ''.'' then norm_loop rest segs else if seg = ''..'' then norm_loop rest (butlast segs)
      else if length segs \<ge> 16 \<or> length seg \<ge> 64 then None else norm_loop rest (segs @ [seg]))"
      unfolding seg_def rest_def by (subst norm_loop_step[OF t_def[symmetric] False]) (simp add: Let_def)
    consider "seg = ''.''" | "seg = ''..''" | "seg \<noteq> ''.''" "seg \<noteq> ''..''" "length segs < 16" "length seg < 64"
      using 1(4) step by (auto split: if_splits)
    then show ?thesis
    proof cases
      case 1
      then show ?thesis using IH(1) \<open>norm_loop s segs = Some r\<close> step \<open>\<forall>f\<in>set segs. plain_name f\<close> \<open>length segs \<le> 16\<close> by simp
    next
      case 2
      then show ?thesis using IH(2) \<open>norm_loop s segs = Some r\<close> step pop by simp
    next
      case 3
      then have "plain_name seg" using ne sl by (simp add: plain_name_def)
      then show ?thesis using IH(3) 3 \<open>norm_loop s segs = Some r\<close> step \<open>\<forall>f\<in>set segs. plain_name f\<close> by simp
    qed
  qed
qed

lemma plain_takeWhile:
  assumes "plain_name f" "u = [] \<or> hd u = CHR ''/''"
  shows "takeWhile (\<lambda>c. c \<noteq> CHR ''/'') (f @ u) = f" "dropWhile (\<lambda>c. c \<noteq> CHR ''/'') (f @ u) = u"
    "dropWhile (\<lambda>c. c = CHR ''/'') (f @ u) = f @ u"
proof -
  have n: "\<forall>c\<in>set f. c \<noteq> CHR ''/''" using assms(1) by (auto simp: plain_name_def)
  show "takeWhile (\<lambda>c. c \<noteq> CHR ''/'') (f @ u) = f" using n assms(2) by (cases u) (auto simp: takeWhile_append)
  show "dropWhile (\<lambda>c. c \<noteq> CHR ''/'') (f @ u) = u" using n assms(2) by (cases u) (auto simp: dropWhile_append)
  obtain c cs where "f = c # cs" using assms(1) by (cases f) (auto simp: plain_name_def)
  then show "dropWhile (\<lambda>c. c = CHR ''/'') (f @ u) = f @ u" using n by simp
qed

abbreviation join :: "string list \<Rightarrow> string" where "join segs \<equiv> concat (map (\<lambda>f. CHR ''/'' # f) segs)"

lemma join_head: "join segs = [] \<or> hd (join segs) = CHR ''/''"
  by (cases segs) auto

lemma norm_loop_join:
  "\<forall>f\<in>set segs. plain_name f \<Longrightarrow> length acc + length segs \<le> 16 \<Longrightarrow> norm_loop (join segs) acc = Some (acc @ segs)"
proof (induction segs arbitrary: acc)
  case Nil
  show ?case by (subst norm_loop.simps) simp
next
  case (Cons f segs)
  have f: "plain_name f" using Cons.prems(1) by simp
  note T = plain_takeWhile[OF f join_head[of segs]]
  have "dropWhile (\<lambda>c. c = CHR ''/'') (join (f # segs)) = f @ join segs" using T(3) by simp
  moreover have "f @ join segs \<noteq> []" "f \<noteq> ''.''" "f \<noteq> ''..''" "length f < 64" using f by (auto simp: plain_name_def)
  ultimately have "norm_loop (join (f # segs)) acc = norm_loop (join segs) (acc @ [f])"
    using Cons.prems(2) T by (subst norm_loop_step) (auto simp: Let_def)
  then show ?case using Cons.IH[of "acc @ [f]"] Cons.prems by simp
qed

lemma emit_path_join:
  "emit_path m segs out = (if segs \<noteq> [] \<and> m \<le> length out + length (join segs) then None else Some (out @ join segs))"
  by (induction segs arbitrary: out) (auto simp: Let_def)


lemma weight_fields: "length (join (fields s)) = Suc (length s)"
proof (induction s)
  case (Cons c cs)
  obtain f fs where "fields cs = f # fs" using fields_nonempty[of cs] by (cases "fields cs") auto
  then show ?case using Cons.IH by simp
qed simp

lemma weight_apply: "length (join (foldl apply_field segs fs)) \<le> length (join segs) + length (join fs)"
proof (induction fs arbitrary: segs)
  case (Cons f fs)
  have "length (join (butlast segs)) \<le> length (join segs)" by (cases segs rule: rev_cases) auto
  then have "length (join (apply_field segs f)) \<le> length (join segs) + length (join [f])" by (auto simp: apply_field_def)
  then show ?case using Cons.IH[of "apply_field segs f"] by simp
qed simp

abbreviation names :: "string \<Rightarrow> string list" where "names s \<equiv> filter (\<lambda>f. f \<noteq> []) (fields s)"

lemma names_skip: "names (dropWhile (\<lambda>c. c = CHR ''/'') s) = names s"
  by (induction s) auto

lemma names_rest:
  fixes t defines "rest \<equiv> dropWhile (\<lambda>c. c \<noteq> CHR ''/'') t" and "seg \<equiv> takeWhile (\<lambda>c. c \<noteq> CHR ''/'') t"
  assumes "seg \<noteq> []"
  shows "names t = seg # names rest"
proof (cases rest)
  case Nil
  then have "fields t = [seg]" using fields_split[of t] unfolding rest_def seg_def by (simp only: if_True refl)
  then show ?thesis using assms(3) by (simp add: Nil)
next
  case (Cons c u)
  then have "c = CHR ''/''" using hd_dropWhile[of "\<lambda>c. c \<noteq> CHR ''/''" t] by (simp add: rest_def)
  moreover have "fields t = seg # fields u"
    using fields_split[of t] Cons unfolding rest_def seg_def by (simp only: list.sel list.distinct(2) if_False)
  ultimately show ?thesis using assms(3) Cons by simp
qed

lemma norm_loop_total:
  "length segs + length (names s) \<le> 16 \<Longrightarrow> \<forall>f\<in>set (names s). length f < 64 \<Longrightarrow> norm_loop s segs \<noteq> None"
proof (induction s segs rule: norm_loop.induct)
  case (1 s segs)
  define t where "t = dropWhile (\<lambda>c. c = CHR ''/'') s"
  define seg where "seg = takeWhile (\<lambda>c. c \<noteq> CHR ''/'') t"
  define rest where "rest = dropWhile (\<lambda>c. c \<noteq> CHR ''/'') t"
  show ?case
  proof (cases "t = []")
    case True
    then show ?thesis by (simp add: norm_loop.simps[of s] t_def Let_def)
  next
    case False
    have "hd t \<noteq> CHR ''/''" using hd_dropWhile[of "\<lambda>c. c = CHR ''/''" s] False t_def by simp
    then have ne: "seg \<noteq> []" using False unfolding seg_def by (cases t) auto
    have n: "names s = seg # names rest"
      using names_rest[OF ne[unfolded seg_def]] names_skip[of s] unfolding t_def seg_def rest_def by (simp only:)
    note IH = 1(1-3)[OF t_def False seg_def rest_def]
    have step: "norm_loop s segs = (if seg = ''.'' then norm_loop rest segs else if seg = ''..'' then norm_loop rest (butlast segs)
      else if length segs \<ge> 16 \<or> length seg \<ge> 64 then None else norm_loop rest (segs @ [seg]))"
      unfolding seg_def rest_def by (subst norm_loop_step[OF t_def[symmetric] False]) (simp add: Let_def)
    have l: "length segs + Suc (length (names rest)) \<le> 16" "length seg < 64" "\<forall>f\<in>set (names rest). length f < 64"
      using 1(4,5) unfolding n by simp_all
    show ?thesis unfolding step using IH l by (simp del: filter.simps)
  qed
qed

lemma normalize_path_sound:
  assumes "max_len \<le> PATH_MAX" "normalize_path (Some s) max_len = Some r"
  shows "r = render (path_names s) \<and> (\<forall>f\<in>set (path_names s). plain_name f) \<and> length r < max_len
    \<and> normalize_path (Some r) max_len = Some r"
proof -
  obtain segs where l: "norm_loop s [] = Some segs" and m: "2 \<le> max_len"
    using assms(2) by (auto simp: normalize_path_def split: if_splits option.splits)
  have segs: "segs = path_names s" using norm_loop_fields[OF l] by (simp add: path_names_def)
  have P: "\<forall>f\<in>set segs. plain_name f" "length segs \<le> 16" using norm_loop_plain[OF l] by simp_all
  have r: "r = render segs" "length r < max_len"
    using assms(2) l by (auto simp: normalize_path_def render_def emit_path_join split: if_splits list.splits)
  have "norm_loop r [] = Some segs"
  proof (cases "segs = []")
    case True
    then show ?thesis using r(1) by (subst norm_loop.simps) (simp add: render_def)
  next
    case False
    then show ?thesis using norm_loop_join[OF P(1), of "[]"] P(2) r(1) by (simp add: render_def)
  qed
  moreover have "r \<noteq> []" using r by (cases segs) (simp_all add: render_def)
  ultimately have "normalize_path (Some r) max_len = Some r"
    using r assms(1) m by (auto simp: normalize_path_def emit_path_join render_def split: list.splits if_splits)
  then show ?thesis using r P(1) unfolding segs by blast
qed

lemma normalize_path_total:
  assumes "max_len \<le> PATH_MAX" "s \<noteq> []" "length s + 1 < max_len" "length (names s) \<le> 16" "\<forall>f\<in>set (fields s). length f < 64"
  shows "normalize_path (Some s) max_len \<noteq> None"
proof -
  have "norm_loop s [] \<noteq> None" using assms(4,5) by (intro norm_loop_total) simp_all
  then obtain segs where l: "norm_loop s [] = Some segs" by auto
  have "length (join segs) \<le> Suc (length s)"
    using weight_apply[of "[]" "fields s"] norm_loop_fields[OF l] weight_fields[of s] by simp
  then show ?thesis using assms(1-3) l by (auto simp: normalize_path_def emit_path_join split: list.splits if_splits)
qed

text \<open>C33.  When \<open>normalize_path\<close> succeeds, its result fits the buffer and is the canonical form of the
  path: the names left after resolving \<open>.\<close> and \<open>..\<close> field by field, each of them non-empty, free of
  slashes, shorter than 64 characters and different from \<open>.\<close> and \<open>..\<close>; normalising it again changes
  nothing.  It does succeed on a path of at most 16 non-empty fields below 64 characters each
  whose length leaves room for a leading slash.\<close>

theorem normalize_path_canonical:
  assumes "max_len \<le> PATH_MAX"
  shows "(\<forall>r. normalize_path (Some s) max_len = Some r \<longrightarrow>
      r = render (path_names s) \<and> (\<forall>f\<in>set (path_names s). plain_name f) \<and> length r < max_len
      \<and> normalize_path (Some r) max_len = Some r)
    \<and> (s \<noteq> [] \<and> length s + 1 < max_len \<and> length (filter (\<lambda>f. f \<noteq> []) (fields s)) \<le> 16 \<and> (\<forall>f\<in>set (fields s). length f < 64)
      \<longrightarrow> normalize_path (Some s) max_len \<noteq> None)"
  using normalize_path_sound[OF assms] normalize_path_total[OF assms] by blast

theorem normalize_path_canonical_witness:
  "PATH_MAX \<le> PATH_MAX \<and> normalize_path (Some ''//usr/./bin/../lib/'') PATH_MAX = Some ''/usr/lib''
    \<and> render (path_names ''//usr/./bin/../lib/'') = ''/usr/lib''
    \<and> normalize_path (Some ''/usr/lib'') PATH_MAX = Some ''/usr/lib''"
proof -
  have n: "normalize_path (Some ''//usr/./bin/../lib/'') PATH_MAX = Some ''/usr/lib''" by code_simp
  then show ?thesis using normalize_path_canonical[OF order_refl, of "''//usr/./bin/../lib/''"] by auto
qed

section \<open>The descriptor table\<close>

datatype ('d, 'f) vfs_op =
  Op_Mount "string option" "'d option" "'f option" | Op_Unmount "string option"
| Op_Open "string option" u32 | Op_Close int | Op_Read int bool u64 | Op_Write int "u8 list option"
| Op_Seek int u64 seek_origin | Op_Stat "string option" bool | Op_Fstat int bool | Op_Mkdir "string option"
| Op_Readdir int u32 bool | Op_Unlink "string option"

fun vfs_exec ::
  "('d, 'f, 'v, 's) fs_ops \<Rightarrow> ('v, 's) vnode_ops \<Rightarrow> ('d, 'f) vfs_op \<Rightarrow> ('d, 'f, 'v, 's) vfs \<Rightarrow> int \<times> ('d, 'f, 'v, 's) vfs" where
  "vfs_exec F D (Op_Mount p d f) V = vfs_mount F p d f V"
| "vfs_exec F D (Op_Unmount p) V = vfs_unmount F p V"
| "vfs_exec F D (Op_Open p flags) V = vfs_open D p flags V"
| "vfs_exec F D (Op_Close fd) V = vfs_close fd V"
| "vfs_exec F D (Op_Read fd dst n) V = (case vfs_read D fd dst n V of (r, _, V') \<Rightarrow> (r, V'))"
| "vfs_exec F D (Op_Write fd src) V = vfs_write D fd src V"
| "vfs_exec F D (Op_Seek fd off org) V = vfs_seek D fd off org V"
| "vfs_exec F D (Op_Stat p out) V = (case vfs_stat D p out V of (r, _, V') \<Rightarrow> (r, V'))"
| "vfs_exec F D (Op_Fstat fd out) V = (case vfs_fstat D fd out V of (r, _, V') \<Rightarrow> (r, V'))"
| "vfs_exec F D (Op_Mkdir p) V = vfs_mkdir D p V"
| "vfs_exec F D (Op_Readdir fd i out) V = (case vfs_readdir D fd i out V of (r, _, V') \<Rightarrow> (r, V'))"
| "vfs_exec F D (Op_Unlink p) V = vfs_unlink D p V"

text \<open>The descriptor an operation may change: the one it is given, or the one it returns.\<close>

fun op_fd :: "('d, 'f) vfs_op \<Rightarrow> int \<Rightarrow> int option" where
  "op_fd (Op_Open p flags) r = Some r"
| "op_fd (Op_Close fd) r = Some fd"
| "op_fd (Op_Read fd dst n) r = Some fd"
| "op_fd (Op_Write fd src) r = Some fd"
| "op_fd (Op_Seek fd off org) r = Some fd"
| "op_fd _ r = None"

inductive vfs_reach ::
  "('d, 'f, 'v, 's) fs_ops \<Rightarrow> ('v, 's) vnode_ops \<Rightarrow> ('d, 'f, 'v, 's) vfs \<Rightarrow> bool" for F D where
  init: "vfs_reach F D (vfs_init V)"
| step: "vfs_reach F D V \<Longrightarrow> vfs_exec F D op V = (r, V') \<Longrightarrow> vfs_reach F D V'"

definition fds_ok :: "'v file_descriptor list \<Rightarrow> bool" where
  "fds_ok fds \<longleftrightarrow> length fds = MAX_FILE_DESCRIPTORS \<and> (\<forall>i<3. \<not> fd_in_use (fds ! i))
     \<and> (\<forall>i<MAX_FILE_DESCRIPTORS. if fd_in_use (fds ! i) then fd_vnode (fds ! i) \<noteq> None else fds ! i = empty_fd)"

definition mounts_ok :: "('d, 'f, 'v) mount_point list \<Rightarrow> bool" where
  "mounts_ok ms \<longleftrightarrow> length ms = MAX_MOUNTS \<and>
     (\<forall>i<MAX_MOUNTS. mp_active (ms ! i) \<longrightarrow> mp_fs (ms ! i) \<noteq> None \<and> mp_root (ms ! i) \<noteq> None \<and> length (mp_path (ms ! i)) < 32)"

definition vfs_ok :: "('d, 'f, 'v, 's) vfs \<Rightarrow> bool" where
  "vfs_ok V \<longleftrightarrow> v_initialized V \<and> fds_ok (v_fds V) \<and> mounts_ok (v_mounts V)"

lemma store_ok [simp]: "vfs_ok (V\<lparr>v_store := st\<rparr>) = vfs_ok V"
  by (simp add: vfs_ok_def)

lemma resolve_path_state: "resolve_path D p V = (r, V1) \<Longrightarrow> \<exists>st. V1 = V\<lparr>v_store := st\<rparr>"
  by (auto simp: resolve_path_def split: option.splits if_splits prod.splits intro: exI[of _ "v_store V"])

lemma fds_ok_upd:
  assumes "fds_ok fds" "3 \<le> i" "i < MAX_FILE_DESCRIPTORS" "if fd_in_use d then fd_vnode d \<noteq> None else d = empty_fd"
  shows "fds_ok (fds[i := d])"
  using assms unfolding fds_ok_def by (auto simp: nth_list_update)

lemma fds_okD:
  assumes "fds_ok fds"
  shows "length fds = MAX_FILE_DESCRIPTORS" "i < MAX_FILE_DESCRIPTORS \<Longrightarrow> fd_in_use (fds ! i) \<Longrightarrow> 3 \<le> i \<and> fd_vnode (fds ! i) \<noteq> None"
  using assms by (auto simp: fds_ok_def not_le[symmetric])

lemma open_vnode_Some:
  assumes "vfs_ok V" "open_vnode fd V = Some node"
  shows "3 \<le> nat fd \<and> nat fd < MAX_FILE_DESCRIPTORS \<and> 0 \<le> fd \<and> fd_in_use (v_fds V ! nat fd) \<and> fd_vnode (v_fds V ! nat fd) = Some node"
  using assms fds_okD(2)[of "v_fds V" "nat fd"] by (auto simp: open_vnode_def vfs_ok_def fd_valid_def split: if_splits)

lemma advance_ok:
  assumes "vfs_ok V" "open_vnode fd V = Some node"
  shows "fds_ok (advance fd bytes (v_fds V)) \<and> (\<forall>i. int i \<noteq> fd \<longrightarrow> advance fd bytes (v_fds V) ! i = v_fds V ! i)"
  using assms open_vnode_Some[OF assms] by (auto simp: advance_def vfs_ok_def nth_list_update intro!: fds_ok_upd)

lemma free_fd_Some: "free_fd fds = Some fd \<Longrightarrow> 3 \<le> fd \<and> fd < MAX_FILE_DESCRIPTORS \<and> \<not> fd_in_use (fds ! fd)"
  by (auto simp: free_fd_def find_Some_iff)

lemma open_node_spec:
  assumes "vfs_ok V" "open_node D node flags V = (r, V')"
  shows "vfs_ok V' \<and> (\<forall>i. int i \<noteq> r \<longrightarrow> v_fds V' ! i = v_fds V ! i)
    \<and> (0 \<le> r \<longrightarrow> 3 \<le> r \<and> nat r < MAX_FILE_DESCRIPTORS \<and> \<not> fd_in_use (v_fds V ! nat r) \<and> fd_in_use (v_fds V' ! nat r)
         \<and> fd_vnode (v_fds V' ! nat r) = Some node \<and> fd_flags (v_fds V' ! nat r) = flags)"
proof -
  define V1 where "V1 = (if has_flag flags O_TRUNC then V\<lparr>v_store := snd (vn_truncate D node 0 (v_store V))\<rparr> else V)"
  have V1: "v_fds V1 = v_fds V" "vfs_ok V1" using assms(1) by (simp_all add: V1_def)
  show ?thesis
  proof (cases "free_fd (v_fds V)")
    case None
    then show ?thesis using assms(2) V1 by (simp add: open_node_def V1_def[symmetric] Let_def)
  next
    case (Some fd)
    note f = free_fd_Some[OF Some]
    let ?d = "\<lparr>fd_vnode = Some node, fd_flags = flags, fd_offset = (if has_flag flags O_APPEND then vn_size D node (v_store V1) else 0), fd_in_use = True\<rparr>"
    have r: "r = int fd" "V' = V1\<lparr>v_fds := (v_fds V)[fd := ?d]\<rparr>"
      using assms(2) Some V1(1) by (simp_all add: open_node_def V1_def[symmetric] Let_def)
    have "length (v_fds V) = MAX_FILE_DESCRIPTORS" using assms(1) fds_okD(1) by (auto simp: vfs_ok_def)
    moreover have "vfs_ok V'" using V1(2) f unfolding r(2) vfs_ok_def by (auto simp: V1(1) intro!: fds_ok_upd)
    ultimately show ?thesis using f unfolding r(1) by (simp add: r(2) nth_list_update)
  qed
qed

lemma open_spec:
  assumes "vfs_ok V" "vfs_open D p flags V = (r, V')"
  shows "vfs_ok V' \<and> (\<forall>i. int i \<noteq> r \<longrightarrow> v_fds V' ! i = v_fds V ! i)
    \<and> (0 \<le> r \<longrightarrow> 3 \<le> r \<and> nat r < MAX_FILE_DESCRIPTORS \<and> \<not> fd_in_use (v_fds V ! nat r) \<and> fd_in_use (v_fds V' ! nat r)
         \<and> fd_flags (v_fds V' ! nat r) = flags)"
proof -
  obtain rs V1 where e: "resolve_path D p V = (rs, V1)" by (meson surj_pair)
  obtain st where V1: "V1 = V\<lparr>v_store := st\<rparr>" using resolve_path_state[OF e] by blast
  consider "r < 0" "\<exists>st. V' = V\<lparr>v_store := st\<rparr>" | node st where "open_node D node flags (V\<lparr>v_store := st\<rparr>) = (r, V')"
  proof (cases "p = None")
    case True
    then have "r < 0" "V' = V\<lparr>v_store := v_store V\<rparr>" using assms(2) by (auto simp: vfs_open_def)
    then show ?thesis using that(1) by blast
  next
    case False
    then show ?thesis using assms(2) e that unfolding V1
      by (auto simp: vfs_open_def Let_def split: if_splits option.splits prod.splits)
  qed
  then show ?thesis
  proof cases
    case 1
    then show ?thesis using assms(1) by auto
  next
    case (2 node st)
    then show ?thesis using open_node_spec[OF _ 2] assms(1) by simp
  qed
qed


lemma mounts_ok_upd:
  "mounts_ok ms \<Longrightarrow> (mp_active m \<longrightarrow> mp_fs m \<noteq> None \<and> mp_root m \<noteq> None \<and> length (mp_path m) < 32) \<Longrightarrow> mounts_ok (ms[i := m])"
  unfolding mounts_ok_def
  by (metis length_list_update nth_list_update_eq nth_list_update_neq)

lemma mount_spec:
  assumes "vfs_ok V" "vfs_mount F p d f V = (r, V')"
  shows "vfs_ok V' \<and> v_fds V' = v_fds V"
  using assms by (auto simp: vfs_mount_def Let_def vfs_ok_def intro!: mounts_ok_upd split: option.splits prod.splits if_splits)

lemma unmount_spec:
  assumes "vfs_ok V" "vfs_unmount F p V = (r, V')"
  shows "vfs_ok V' \<and> v_fds V' = v_fds V"
  using assms by (auto simp: vfs_unmount_def vfs_ok_def empty_mount_def intro!: mounts_ok_upd split: option.splits prod.splits if_splits)

lemma close_spec:
  assumes "vfs_ok V" "vfs_close fd V = (r, V')"
  shows "vfs_ok V' \<and> (\<forall>i. int i \<noteq> fd \<longrightarrow> v_fds V' ! i = v_fds V ! i)"
proof (cases "fd_valid fd \<and> fd_in_use (v_fds V ! nat fd)")
  case True
  then have "3 \<le> nat fd" "nat fd < MAX_FILE_DESCRIPTORS" "0 \<le> fd"
    using assms(1) fds_okD(2)[of "v_fds V" "nat fd"] by (auto simp: vfs_ok_def fd_valid_def)
  moreover have "V' = V\<lparr>v_fds := (v_fds V)[nat fd := empty_fd]\<rparr>" using assms(2) True by (simp add: vfs_close_def empty_fd_def)
  ultimately show ?thesis using assms(1) by (auto simp: vfs_ok_def nth_list_update empty_fd_def intro!: fds_ok_upd)
qed (use assms in \<open>auto simp: vfs_close_def split: if_splits\<close>)

lemma read_spec:
  assumes "vfs_ok V" "vfs_read D fd dst n V = (r, buf, V')"
  shows "vfs_ok V' \<and> (\<forall>i. int i \<noteq> fd \<longrightarrow> v_fds V' ! i = v_fds V ! i)"
  using assms advance_ok[OF assms(1), of fd]
  by (auto simp: vfs_read_def vfs_ok_def split: option.splits prod.splits if_splits)

lemma write_spec:
  assumes "vfs_ok V" "vfs_write D fd src V = (r, V')"
  shows "vfs_ok V' \<and> (\<forall>i. int i \<noteq> fd \<longrightarrow> v_fds V' ! i = v_fds V ! i)"
  using assms advance_ok[OF assms(1), of fd]
  by (auto simp: vfs_write_def vfs_ok_def split: option.splits prod.splits if_splits)

lemma seek_spec:
  assumes "vfs_ok V" "vfs_seek D fd off org V = (r, V')"
  shows "vfs_ok V' \<and> (\<forall>i. int i \<noteq> fd \<longrightarrow> v_fds V' ! i = v_fds V ! i)"
proof (cases "open_vnode fd V")
  case (Some node)
  note o = open_vnode_Some[OF assms(1) Some]
  define d where "d = (v_fds V ! nat fd)\<lparr>fd_offset := seek_target D node (fd_offset (v_fds V ! nat fd)) off org (v_store V)\<rparr>"
  have "V' = V \<or> V' = V\<lparr>v_fds := (v_fds V)[nat fd := d]\<rparr>"
    using assms(2) Some by (auto simp: vfs_seek_def Let_def d_def split: if_splits)
  moreover have "fds_ok ((v_fds V)[nat fd := d])" using assms(1) o by (intro fds_ok_upd) (auto simp: vfs_ok_def d_def)
  ultimately show ?thesis using assms(1) o by (auto simp: vfs_ok_def nth_list_update)
qed (use assms in \<open>simp add: vfs_seek_def\<close>)

lemma path_ops_spec:
  assumes "vfs_ok V"
  shows "vfs_stat D p b V = (r, x, V') \<Longrightarrow> vfs_ok V' \<and> v_fds V' = v_fds V"
    and "vfs_mkdir D p V = (r, V') \<Longrightarrow> vfs_ok V' \<and> v_fds V' = v_fds V"
    and "vfs_unlink D p V = (r, V') \<Longrightarrow> vfs_ok V' \<and> v_fds V' = v_fds V"
    and "vfs_fstat D fd b V = (r, x, V') \<Longrightarrow> vfs_ok V' \<and> v_fds V' = v_fds V"
    and "vfs_readdir D fd i b V = (r, y, V') \<Longrightarrow> vfs_ok V' \<and> v_fds V' = v_fds V"
proof -
  obtain rs V1 where e: "resolve_path D p V = (rs, V1)" by (meson surj_pair)
  obtain st where V1: "V1 = V\<lparr>v_store := st\<rparr>" using resolve_path_state[OF e] by blast
  show "vfs_stat D p b V = (r, x, V') \<Longrightarrow> vfs_ok V' \<and> v_fds V' = v_fds V"
    using assms e by (auto simp: vfs_stat_def V1 split: if_splits prod.splits)
  show "vfs_mkdir D p V = (r, V') \<Longrightarrow> vfs_ok V' \<and> v_fds V' = v_fds V"
    using assms e by (auto simp: vfs_mkdir_def V1 split: if_splits prod.splits option.splits)
  show "vfs_unlink D p V = (r, V') \<Longrightarrow> vfs_ok V' \<and> v_fds V' = v_fds V"
    using assms e by (auto simp: vfs_unlink_def V1 split: if_splits prod.splits option.splits)
  show "vfs_fstat D fd b V = (r, x, V') \<Longrightarrow> vfs_ok V' \<and> v_fds V' = v_fds V"
    using assms by (auto simp: vfs_fstat_def split: if_splits prod.splits option.splits)
  show "vfs_readdir D fd i b V = (r, y, V') \<Longrightarrow> vfs_ok V' \<and> v_fds V' = v_fds V"
    using assms by (auto simp: vfs_readdir_def split: if_splits prod.splits option.splits)
qed

lemma exec_spec:
  assumes V: "vfs_ok V" and e: "vfs_exec F D op V = (r, V')"
  shows "vfs_ok V' \<and> (\<forall>i. op_fd op r \<noteq> Some (int i) \<longrightarrow> v_fds V' ! i = v_fds V ! i)"
proof (cases op)
  case (Op_Mount p d f) then show ?thesis using e mount_spec[OF V] by simp
next
  case (Op_Unmount p) then show ?thesis using e unmount_spec[OF V] by simp
next
  case (Op_Open p fl) then show ?thesis using e open_spec[OF V] by fastforce
next
  case (Op_Close fd) then show ?thesis using e close_spec[OF V] by fastforce
next
  case (Op_Read fd dst n) then show ?thesis using e read_spec[OF V, of D fd dst n] by (fastforce split: prod.splits)
next
  case (Op_Write fd src) then show ?thesis using e write_spec[OF V, of D fd src] by fastforce
next
  case (Op_Seek fd off org) then show ?thesis using e seek_spec[OF V, of D fd off org] by fastforce
next
  case (Op_Stat p b) then show ?thesis using e path_ops_spec(1)[OF V] by (auto split: prod.splits)
next
  case (Op_Fstat fd b) then show ?thesis using e path_ops_spec(4)[OF V] by (auto split: prod.splits)
next
  case (Op_Mkdir p) then show ?thesis using e path_ops_spec(2)[OF V] by auto
next
  case (Op_Readdir fd i b) then show ?thesis using e path_ops_spec(5)[OF V] by (auto split: prod.splits)
next
  case (Op_Unlink p) then show ?thesis using e path_ops_spec(3)[OF V] by auto
qed

lemma init_ok: "vfs_ok (vfs_init V)"
  by (auto simp: MAX_FILE_DESCRIPTORS_def vfs_ok_def vfs_init_def fds_ok_def mounts_ok_def empty_fd_def empty_mount_def)

lemma vfs_reach_ok: "vfs_reach F D V \<Longrightarrow> vfs_ok V"
  by (induction rule: vfs_reach.induct) (auto intro: init_ok dest: exec_spec)


text \<open>Resolution walks the names of the canonical path one lookup at a time.\<close>

fun walk_names :: "('v, 's) vnode_ops \<Rightarrow> 'v \<Rightarrow> string list \<Rightarrow> 's \<Rightarrow> 'v resolved \<times> 's" where
  "walk_names D cur [] st = (unresolved (-1), st)"
| "walk_names D cur [f] st =
     (case vn_lookup D cur f st of (res, child, st') \<Rightarrow>
        (\<lparr>rs_code = (if res = 0 \<and> child \<noteq> None then 0 else 1), rs_vnode = child, rs_basename = f, rs_parent = Some cur\<rparr>, st'))"
| "walk_names D cur (f # g # fs) st =
     (case vn_lookup D cur f st of (res, child, st') \<Rightarrow>
        if res \<noteq> 0 \<or> child = None then (unresolved (-3), st') else walk_names D (the child) (g # fs) st')"

lemma resolve_walk_cons:
  assumes "plain_name f" "u \<noteq> []" "hd u = CHR ''/''"
  shows "resolve_walk D cur (f @ u) st = (case vn_lookup D cur f st of (res, child, st') \<Rightarrow>
    if res \<noteq> 0 \<or> child = None then (unresolved (-3), st') else resolve_walk D (the child) (tl u) st')"
  using plain_takeWhile[OF assms(1), of u] assms(2,3) by (subst resolve_walk.simps) (simp add: Let_def split: prod.split)

lemma resolve_walk_last:
  assumes "plain_name f"
  shows "resolve_walk D cur f st = walk_names D cur [f] st"
proof -
  have "takeWhile (\<lambda>c. c \<noteq> CHR ''/'') f = f" "dropWhile (\<lambda>c. c \<noteq> CHR ''/'') f = []" "f \<noteq> []" "take 63 f = f"
    using plain_takeWhile[OF assms, of "[]"] assms by (auto simp: plain_name_def)
  then show ?thesis by (subst resolve_walk.simps) (simp only: Let_def if_False walk_names.simps simp_thms split: prod.split)
qed

lemma resolve_walk_names:
  "segs \<noteq> [] \<Longrightarrow> \<forall>f\<in>set segs. plain_name f \<Longrightarrow> resolve_walk D cur (tl (join segs)) st = walk_names D cur segs st"
proof (induction D cur segs st rule: walk_names.induct)
  case (2 D cur f st)
  then show ?case using resolve_walk_last[of f] by simp
next
  case (3 D cur f g fs st)
  obtain res child st' where l: "vn_lookup D cur f st = (res, child, st')" by (meson prod_cases3)
  have "resolve_walk D (the child) (tl (join (g # fs))) st' = walk_names D (the child) (g # fs) st'" if "\<not> (res \<noteq> 0 \<or> child = None)"
    using 3(1)[OF l[symmetric] refl that] 3(3) by simp
  then have "resolve_walk D cur (f @ join (g # fs)) st = walk_names D cur (f # g # fs) st"
    unfolding walk_names.simps using 3(3) by (subst resolve_walk_cons) (auto simp: l)
  then show ?case by simp
qed simp

lemma resolve_path_names:
  assumes "normalize_path (Some p) PATH_MAX = Some r" "root_vnode V = Some root" "path_names p \<noteq> []"
  shows "resolve_path D (Some p) V =
    (case walk_names D root (path_names p) (v_store V) of (rs, st) \<Rightarrow> (rs, V\<lparr>v_store := st\<rparr>))"
proof -
  have r: "r = join (path_names p)" and P: "\<forall>f\<in>set (path_names p). plain_name f"
    using normalize_path_sound[OF order_refl assms(1)] assms(3) by (auto simp: render_def)
  obtain f fs where "path_names p = f # fs" using assms(3) by (cases "path_names p") auto
  then have "r \<noteq> ''/''" using r P by (auto simp: plain_name_def)
  then show ?thesis using assms(1,2) resolve_walk_names[OF assms(3) P, of D root "v_store V"] by (simp add: resolve_path_def r)
qed

text \<open>The access mode a descriptor was opened with is recorded and never read again: a write
  through a descriptor opened for reading only reaches the driver.\<close>

lemma write_ignores_mode:
  "vfs_write D fd src V = (bytes, V') \<Longrightarrow>
   \<exists>V''. vfs_write D fd src (V\<lparr>v_fds := map (\<lambda>d. d\<lparr>fd_flags := O_RDONLY\<rparr>) (v_fds V)\<rparr>) = (bytes, V'')"
  if "length (v_fds V) = MAX_FILE_DESCRIPTORS"
  using that by (cases "fd_valid fd") (auto simp: vfs_write_def open_vnode_def fd_valid_def split: option.splits prod.splits)

text \<open>C34.  In every state reached from \<open>init\<close> by mounts, unmounts and file operations, whatever the
  drivers do: the standard descriptors are never handed out, an open descriptor has a node and a
  closed one is cleared, and every active mount has a file system and a root.  An operation
  changes no descriptor but the one it is given or returns, and a successful \<open>open\<close> returns a
  descriptor that was free and is now open with the requested flags.\<close>

theorem descriptors_isolated:
  assumes "vfs_reach F D V" "vfs_exec F D op V = (r, V')"
  shows "vfs_ok V' \<and> (\<forall>i. op_fd op r \<noteq> Some (int i) \<longrightarrow> v_fds V' ! i = v_fds V ! i)
    \<and> (\<forall>p flags. op = Op_Open p flags \<and> 0 \<le> r \<longrightarrow>
         3 \<le> r \<and> nat r < MAX_FILE_DESCRIPTORS \<and> \<not> fd_in_use (v_fds V ! nat r)
         \<and> fd_in_use (v_fds V' ! nat r) \<and> fd_flags (v_fds V' ! nat r) = flags)"
  using exec_spec[OF vfs_reach_ok[OF assms(1)] assms(2)] open_spec[OF vfs_reach_ok[OF assms(1)]] assms(2)
  by (metis vfs_exec.simps(3))

text \<open>A driver of one directory whose every name exists.\<close>

definition example_driver :: "(nat, unit) vnode_ops" where
  "example_driver = \<lparr>vn_size = \<lambda>_ _. 0, vn_read = \<lambda>_ _ _ s. (0, [], s), vn_write = \<lambda>_ _ b s. (int (length b), s),
     vn_truncate = \<lambda>_ _ s. (0, s), vn_lookup = \<lambda>_ _ s. (0, Some 1, s), vn_create = \<lambda>_ _ _ s. (0, Some 2, s),
     vn_mkdir = \<lambda>_ _ s. (0, Some 3, s), vn_unlink = \<lambda>_ _ s. (0, s),
     vn_readdir = \<lambda>_ _ s. (1, \<lparr>de_name = [], de_type = NT_Unknown, de_size = 0, de_inode = 0\<rparr>, s),
     vn_stat = \<lambda>_ s. (0, \<lparr>st_type = NT_File, st_size = 0, st_inode = 0, st_block_size = 512, st_blocks = 0\<rparr>, s)\<rparr>"

definition example_fs :: "(nat, nat, nat, unit) fs_ops" where
  "example_fs = \<lparr>fs_mount = \<lambda>_ _ s. (0, Some 0, s), fs_unmount = \<lambda>_ s. (0, s)\<rparr>"

definition example_vfs :: "(nat, nat, nat, unit) vfs" where
  "example_vfs = snd (vfs_mount example_fs (Some ''/'') (Some 0) (Some 0)
     (vfs_init \<lparr>v_mounts = [], v_fds = [], v_initialized = False, v_store = ()\<rparr>))"

theorem descriptors_isolated_witness:
  "\<exists>V'. vfs_reach example_fs example_driver example_vfs
    \<and> vfs_exec example_fs example_driver (Op_Open (Some ''/etc/motd'') O_RDONLY) example_vfs = (3, V')
    \<and> vfs_ok V' \<and> v_fds V' ! 5 = v_fds example_vfs ! 5 \<and> fd_in_use (v_fds V' ! 3) \<and> fd_flags (v_fds V' ! 3) = O_RDONLY"
proof -
  have m: "vfs_reach example_fs example_driver example_vfs"
    unfolding example_vfs_def by (rule vfs_reach.step[OF vfs_reach.init, where op = "Op_Mount (Some ''/'') (Some 0) (Some 0)"])
      (simp add: prod_eq_iff)
  let ?r = "vfs_exec example_fs example_driver (Op_Open (Some ''/etc/motd'') O_RDONLY) example_vfs"
  have "fst ?r = 3" by code_simp
  then obtain V' where e: "?r = (3, V')" by (metis prod.collapse)
  have "op_fd (Op_Open (Some ''/etc/motd'') O_RDONLY :: (nat, nat) vfs_op) 3 \<noteq> Some (int 5)" by simp
  then show ?thesis using descriptors_isolated[OF m e] m e by fastforce
qed

end
