(* ===== verification/Data_Pages.thy ===== *)
theory Data_Pages
  imports User_Memory
begin

text \<open>
  Pages that hold data: byte writes to physical memory, and the frame conditions that keep the
  contents of a data page while pages are allocated, cleared and mapped.  The theory serves the
  components that fill user memory (\<open>src/kernel/userland\<close>); the byte writes model \<open>memcpy\<close> through
  the direct map.
\<close>

unbundle bit_operations_syntax

section \<open>Byte writes\<close>

definition put_byte :: "u64 \<Rightarrow> u8 \<Rightarrow> page_mem \<Rightarrow> page_mem" where
  "put_byte a b mem =
     (let pg = a AND NOT 0xFFF; i = unat a mod 4096 div 8; sh = 8 * (unat a mod 8)
      in write_entry mem pg i ((mem pg i AND NOT (push_bit sh (mask 8))) OR push_bit sh (ucast b)))"

definition put_bytes :: "u64 \<Rightarrow> u8 list \<Rightarrow> page_mem \<Rightarrow> page_mem" where
  "put_bytes a bs = fold (\<lambda>i. put_byte (a + of_nat i) (bs ! i)) [0..<length bs]"

lemma byte_of_word_put:
  fixes w :: u64 and b :: u8
  assumes "j < 8" "k < 8"
  shows "ucast (drop_bit (8 * j) ((w AND NOT (push_bit (8 * k) (mask 8))) OR push_bit (8 * k) (ucast b)))
    = (if j = k then b else (ucast (drop_bit (8 * j) w) :: u8))"
proof (rule bit_word_eqI)
  fix n assume "n < LENGTH(8)"
  then have n: "n < 8" by simp
  have jk: "8 * k \<le> 8 * j + n \<and> 8 * j + n - 8 * k < 8 \<longleftrightarrow> j = k" using n by linarith
  have "8 * j + n < 64" using n assms(1) by linarith
  then show "bit (ucast (drop_bit (8 * j) ((w AND NOT (push_bit (8 * k) (mask 8))) OR push_bit (8 * k) (ucast b))) :: u8) n
    = bit (if j = k then b else (ucast (drop_bit (8 * j) w) :: u8)) n"
    using n jk
    by (auto simp: bit_simps split: if_splits dest: bit_imp_le_length)
qed

lemma same_byte:
  "a = a' \<longleftrightarrow> (a AND NOT 0xFFF = a' AND NOT 0xFFF \<and> unat a mod 4096 div 8 = unat a' mod 4096 div 8 \<and> unat a mod 8 = unat a' mod 8)"
  for a a' :: u64
proof
  assume r: "a AND NOT 0xFFF = a' AND NOT 0xFFF \<and> unat a mod 4096 div 8 = unat a' mod 4096 div 8 \<and> unat a mod 8 = unat a' mod 8"
  have "x mod 4096 = 8 * (x mod 4096 div 8) + x mod 8" for x :: nat
  proof -
    have "x mod 4096 mod 8 = x mod 8" by (rule mod_mod_cancel) simp
    then show ?thesis using div_mult_mod_eq[of "x mod 4096" 8] by linarith
  qed
  then have "unat a mod 4096 = unat a' mod 4096" using r by metis
  then have "page_offset a = page_offset a'" by (simp add: word_unat_eq_iff unat_page_offset)
  then show "a = a'" using r unfolding low_page by simp
qed simp

lemma phys_byte_put: "phys_byte (put_byte a b mem) x = (if x = a then b else phys_byte mem x)"
proof (cases "a AND NOT 0xFFF = x AND NOT 0xFFF \<and> unat a mod 4096 div 8 = unat x mod 4096 div 8")
  case True
  then have "x = a \<longleftrightarrow> unat x mod 8 = unat a mod 8" using same_byte[of x a] by auto
  then show ?thesis using True byte_of_word_put[of "unat x mod 8" "unat a mod 8"]
    by (simp add: phys_byte_def put_byte_def Let_def write_entry_def)
next
  case False
  then have "x \<noteq> a" by auto
  then show ?thesis using False by (auto simp: phys_byte_def put_byte_def Let_def write_entry_def)
qed

lemma put_byte_other: "pg \<noteq> a AND NOT 0xFFF \<Longrightarrow> put_byte a b mem pg = mem pg"
  by (simp add: put_byte_def Let_def write_entry_def)

lemma phys_byte_puts:
  assumes "length bs \<le> 2 ^ 64"
  shows "phys_byte (put_bytes a bs mem) x = (if unat (x - a) < length bs then bs ! unat (x - a) else phys_byte mem x)"
proof -
  have "n \<le> length bs \<Longrightarrow> phys_byte (fold (\<lambda>i. put_byte (a + of_nat i) (bs ! i)) [0..<n] mem) x
      = (if unat (x - a) < n then bs ! unat (x - a) else phys_byte mem x)" for n
  proof (induction n)
    case (Suc n)
    have "unat (of_nat n :: u64) = n" using Suc.prems assms by (simp add: unat_of_nat)
    then have "x = a + of_nat n \<longleftrightarrow> unat (x - a) = n" by (metis add_diff_cancel_left' diff_add_cancel add.commute word_unat_eq_iff)
    then show ?case using Suc by (auto simp: phys_byte_put less_Suc_eq)
  qed simp
  then show ?thesis by (simp add: put_bytes_def)
qed

lemma put_bytes_other: "\<forall>i<length bs. pg \<noteq> (a + of_nat i) AND NOT 0xFFF \<Longrightarrow> put_bytes a bs mem pg = mem pg"
proof -
  assume d: "\<forall>i<length bs. pg \<noteq> (a + of_nat i) AND NOT 0xFFF"
  have "n \<le> length bs \<Longrightarrow> fold (\<lambda>i. put_byte (a + of_nat i) (bs ! i)) [0..<n] mem pg = mem pg" for n
    using d by (induction n) (auto simp: put_byte_other)
  then show ?thesis by (simp add: put_bytes_def)
qed

section \<open>Data pages\<close>

text \<open>A page that is neither free nor a page table of the address space.\<close>

definition data_page :: "u64 \<Rightarrow> pmm \<times> page_mem \<Rightarrow> u64 \<Rightarrow> bool" where
  "data_page root s x \<longleftrightarrow> x \<notin> free_addrs (fst s) \<and> (\<forall>q. path_ok q \<longrightarrow> tbl (snd s) 4 root q \<noteq> Some x)"

abbreviation keeps_page :: "u64 \<Rightarrow> pmm \<times> page_mem \<Rightarrow> pmm \<times> page_mem \<Rightarrow> u64 \<Rightarrow> bool" where
  "keeps_page root s s' x \<equiv> data_page root s' x \<and> snd s' x = snd s x"

lemma alloc_data_page:
  assumes inv: "vm_inv root s" and a: "alloc_page s = (pa, s')" "pa \<noteq> 0"
  shows "vm_inv root s'" "data_page root s' pa" "pa \<in> free_addrs (fst s)" "is_page_aligned pa" "is_direct_mapped pa"
    "snd s' = zero_page (snd s) pa" "\<And>va. walk (snd s') root va = walk (snd s) root va"
    "\<And>x. data_page root s x \<Longrightarrow> keeps_page root s s' x"
proof -
  obtain p mem p' mem' where s: "s = (p, mem)" "s' = (p', mem')" by (cases s, cases s')
  note I = vm_invD[OF inv, unfolded s fst_conv snd_conv]
  note A = pages.acquire_page[of "(p, mem)", OF _ a(1)[unfolded s] a(2), unfolded fst_conv, OF I(1)]
  have pa: "pa \<in> free_addrs p" "free_addrs p' = free_addrs p - {pa}" "pmm_inv p'" using A by auto
  show "pa \<in> free_addrs (fst s)" using pa(1) s by simp
  show al: "is_page_aligned pa" using pages.avail_aligned[of "(p, mem)"] I(1) pa(1) by simp
  show dm: "is_direct_mapped pa" by (rule I(4)[OF pa(1)])
  have m: "mem' = zero_page mem pa" using alloc_page_spec[OF I(1) a(1)[unfolded s]] a(2) dm by auto
  then show "snd s' = zero_page (snd s) pa" using s by simp
  have fr: "tbl mem 4 root q \<noteq> Some pa" if "path_ok q" for q using I(3) pa(1) that by (auto simp: tables_off_def)
  have T: "tbl mem' 4 root q = tbl mem 4 root q" if "path_ok q" for q unfolding m by (rule tbl_zero_page[OF fr that])
  have ag: "\<forall>q a. path_ok q \<longrightarrow> tbl mem 4 root q = Some a \<longrightarrow> mem' a = mem a"
    using fr unfolding m zero_page_def by auto
  show "walk (snd s') root va = walk (snd s) root va" for va using walk_agree[OF ag] s by simp
  show "vm_inv root s'" using I pa T unfolding s vm_inv_def table_tree_def tables_off_def by auto
  show "data_page root s' pa" using fr T pa(2) unfolding data_page_def s by auto
  show "keeps_page root s s' x" if "data_page root s x" for x
  proof -
    have "x \<noteq> pa" using that pa(1) by (auto simp: data_page_def s)
    then show ?thesis using that T pa(2) unfolding data_page_def s by (auto simp: m zero_page_def)
  qed
qed

lemma next_table_keeps:
  assumes inv: "vm_inv root s" and p: "path_ok (path @ [i])" "tbl (snd s) 4 root path = Some t"
    and h: "length path = 2 \<Longrightarrow> \<not> pte_is_huge (snd s t i)" and tf: "table_flags_ok tf"
    and n: "next_table flags tf t i s = (r, s')" and x: "data_page root s x"
  shows "keeps_page root s s' x"
proof -
  obtain pm mem where s: "s = (pm, mem)" by (cases s)
  note I = vm_invD[OF inv, unfolded s fst_conv snd_conv]
  have pp: "path_ok path" "length path \<le> 2" using p(1) by (auto simp: path_ok_def)
  have t: "tbl mem 4 root path = Some t" using p(2) s by simp
  then have xt: "x \<noteq> t" using x pp(1) by (auto simp: data_page_def s)
  consider (new) "\<not> pte_is_present (mem t i)"
    | (upgrade) "pte_is_present (mem t i)" "test_flag flags PF_User \<and> \<not> pte_is_user (mem t i)"
    | (keep) "pte_is_present (mem t i)" "\<not> (test_flag flags PF_User \<and> \<not> pte_is_user (mem t i))" by blast
  then show ?thesis
  proof cases
    case new
    obtain pa s1 where a: "alloc_page s = (pa, s1)" by (meson surj_pair)
    show ?thesis
    proof (cases "pa = 0")
      case True
      then have "s1 = s" using pages.acquire_fail[of s] a I(1) s by simp
      then show ?thesis using n new a True x s by (auto simp: next_table_def Let_def split: prod.splits)
    next
      case False
      note A = alloc_data_page[OF inv a False]
      define e' where "e' = pte_set pa tf"
      have e': "pte_is_present e'" "\<not> pte_is_huge e'" "pte_physical_address e' = pa"
        using tf pte_addr_set[OF A(4) direct_small[OF A(5)]] by (simp_all add: e'_def table_flags_ok_def)
      have rs: "s' = (fst s1, write_entry (zero_page mem pa) t i e')"
        using n new a False s A(6) by (auto simp: next_table_def Let_def e'_def split: prod.splits)
      have fr: "\<forall>q. path_ok q \<longrightarrow> tbl mem 4 root q \<noteq> Some pa" using I(3) A(3) s by (auto simp: tables_off_def)
      note T = new_table[OF I(2) p(1) t new fr e']
      have xpa: "x \<noteq> pa" using x A(3) by (auto simp: data_page_def)
      have "data_page root s1 x" using A(8)[OF x] by simp
      then have "data_page root s' x" using x xpa T(1) unfolding data_page_def rs s by auto
      moreover have "snd s' x = snd s x" using xt xpa by (simp add: rs s write_entry_def zero_page_def)
      ultimately show ?thesis by simp
    qed
  next
    case upgrade
    define e' where "e' = pte_set (pte_physical_address (mem t i)) (pte_flags (mem t i) OR PF_User)"
    have e': "pte_is_present e'" "pte_physical_address e' = pte_physical_address (mem t i)"
      "pte_is_huge e' = pte_is_huge (mem t i)"
      using upgrade(1) by (simp_all add: e'_def)
    have rs: "s' = (pm, write_entry mem t i e')"
      using n upgrade s by (auto simp: next_table_def Let_def e'_def)
    have "length path = 2 \<Longrightarrow> \<not> pte_is_huge (mem t i)" using h s by simp
    note W = walk_same_links[OF I(2) pp t upgrade(1) e' this]
    show ?thesis using x W(1) xt by (simp add: data_page_def rs s write_entry_def[of mem t i e'] del: tbl.simps)
  next
    case keep
    then show ?thesis using n x s by (auto simp: next_table_def Let_def)
  qed
qed


lemma leaf_table_keeps:
  assumes inv: "vm_inv root s" and tfo: "table_flags_ok tf" and m: "leaf_table flags tf root va s = (r, s')" and x: "data_page root s x"
  shows "keeps_page root s s' x"
proof -
  note [simp del] = tbl.simps
  obtain r1 s1 where n1: "next_table flags tf root (pml4_index va) s = (r1, s1)" by (meson surj_pair)
  have p1: "path_ok ([] @ [pml4_index va])" "tbl (snd s) 4 root [] = Some root" by (simp_all add: path_ok_def tbl.simps)
  note L1 = next_table_spec[OF inv p1 _ tfo n1, simplified]
  have K1: "keeps_page root s s1 x" by (rule next_table_keeps[OF inv p1 _ tfo n1 x]) simp
  show ?thesis
  proof (cases r1)
    case None
    then show ?thesis using m n1 K1 by (auto simp: leaf_table_def)
  next
    case r1: (Some pdpt)
    obtain r2 s2 where n2: "next_table flags tf pdpt (pdpt_index va) s1 = (r2, s2)" by (meson surj_pair)
    have i1: "vm_inv root s1" "tbl (snd s1) 4 root [pml4_index va] = Some pdpt" using L1 r1 by (auto)
    have p2: "path_ok ([pml4_index va] @ [pdpt_index va])" using path_ok_vpath(2) by simp
    note L2 = next_table_spec[OF i1(1) p2 i1(2) _ tfo n2, simplified]
    have K2: "keeps_page root s s2 x" using next_table_keeps[OF i1(1) p2 i1(2) _ tfo n2 conjunct1[OF K1]] K1 by simp
    show ?thesis
    proof (cases "\<exists>pd. r2 = Some pd \<and> \<not> pte_is_huge (snd s2 pd (pd_index va))")
      case False
      then have "s' = s2" using m n1 n2 r1 by (auto simp: leaf_table_def split: option.splits)
      then show ?thesis using K2 by simp
    next
      case True
      then obtain pd where r2: "r2 = Some pd" "\<not> pte_is_huge (snd s2 pd (pd_index va))" by blast
      obtain r3 s3 where n3: "next_table flags tf pd (pd_index va) s2 = (r3, s3)" by (meson surj_pair)
      have i2: "vm_inv root s2" "tbl (snd s2) 4 root [pml4_index va, pdpt_index va] = Some pd" using L2 r2 by (auto)
      have p3: "path_ok ([pml4_index va, pdpt_index va] @ [pd_index va])" using path_ok_vpath(1) by simp
      have "keeps_page root s2 s3 x" by (rule next_table_keeps[OF i2(1) p3 i2(2) r2(2) tfo n3 conjunct1[OF K2]])
      moreover have "s' = s3" using m n1 n2 n3 r1 r2 by (auto simp: leaf_table_def split: option.splits)
      ultimately show ?thesis using K2 by simp
    qed
  qed
qed

lemma tbl_leaf_write:
  assumes "table_tree mem root" "tbl mem 4 root (vpath va) = Some pt" "path_ok q"
  shows "tbl (write_entry mem pt (pt_index va) e) 4 root q = tbl mem 4 root q"
proof (rule tbl_write_other[OF assms(1) path_ok_vpath(1) assms(2,3)])
  show "take (Suc (length (vpath va))) q \<noteq> vpath va @ [pt_index va]"
    using assms(3) by (auto simp: path_ok_def dest!: arg_cong[where f = length])
qed

lemma map_page_keeps:
  assumes inv: "vm_inv root s" and root: "root = (if pml4_pa = 0 then the (m_root_pml4 v) else pml4_pa)"
    and m: "map_page_in_table v s pml4_pa va pa flags = (st, s')" and x: "data_page root s x"
  shows "keeps_page root s s' x"
proof (cases "\<not> m_vmm_initialized v \<or> \<not> is_canonical va \<or> \<not> is_page_aligned va \<or> \<not> is_page_aligned pa")
  case True
  then have "s' = s" using m by (auto simp: map_page_in_table_def split: if_splits)
  then show ?thesis using x by simp
next
  case False
  define tf where "tf = (if test_flag flags PF_User then PF_Present OR PF_Writable OR PF_User else PF_Present OR PF_Writable)"
  have tfo: "table_flags_ok tf" unfolding tf_def table_flags_ok_def by (auto simp only: bit_or_iff bit_PF split: if_splits)
  obtain r s1 where l: "leaf_table flags tf root va s = (r, s1)" by (meson surj_pair)
  note L = leaf_table_spec[OF inv tfo l]
  note K = leaf_table_keeps[OF inv tfo l x]
  have m': "(st, s') = (case r of Inl st \<Rightarrow> (st, s1) | Inr pt \<Rightarrow>
      if pte_is_present (snd s1 pt (pt_index va)) then (AlreadyMapped, s1)
      else (Success, fst s1, write_entry (snd s1) pt (pt_index va) (pte_set pa (flags OR PF_Present))))"
    using m False l root unfolding map_page_in_table_def Let_def tf_def[symmetric] by (auto split: sum.splits)
  show ?thesis
  proof (cases "s' = s1")
    case True
    then show ?thesis using K by simp
  next
    case nm: False
    then obtain pt where r: "r = Inr pt" "s' = (fst s1, write_entry (snd s1) pt (pt_index va) (pte_set pa (flags OR PF_Present)))"
      using m' by (auto split: sum.splits if_splits)
    have t: "tbl (snd s1) 4 root (vpath va) = Some pt" and i: "vm_inv root s1" using L r by (auto simp del: tbl.simps)
    have "x \<noteq> pt" using K t path_ok_vpath(1) by (auto simp: data_page_def simp del: tbl.simps)
    then show ?thesis using K tbl_leaf_write[OF vm_invD(2)[OF i] t] unfolding r(2) data_page_def
      by (simp add: write_entry_def[of _ pt _ _] del: tbl.simps)
  qed
qed

end
