(* ===== verification/Elf_Loader.thy ===== *)
theory Elf_Loader
  imports Data_Pages Kalloc Vfs
begin

text \<open>
  The ELF loader (\<open>src/kernel/userland/elf_loader.hpp\<close>, \<open>elf_loader.cpp\<close>): validation of the header
  and of the program headers, loading of the segments and of the user stack into an address
  space, and loading from the virtual file system.  A file is the list of its bytes; headers are
  read from it in little-endian order, as the packed structures of the code are.  A byte outside
  the file reads as zero here, and the theorems on validation show that none is read.
\<close>

unbundle bit_operations_syntax

section \<open>Headers\<close>

definition file_byte :: "u8 list \<Rightarrow> nat \<Rightarrow> u8" where
  "file_byte f i = (if i < length f then f ! i else 0)"

fun le_word :: "u8 list \<Rightarrow> nat \<Rightarrow> nat \<Rightarrow> u64" where
  "le_word f i 0 = 0"
| "le_word f i (Suc n) = ucast (file_byte f i) OR push_bit 8 (le_word f (Suc i) n)"

record elf_header =
  e_ident :: "u8 list"
  e_type :: u16
  e_machine :: u16
  e_version :: u32
  e_entry :: u64
  e_phoff :: u64
  e_shoff :: u64
  e_flags :: u32
  e_ehsize :: u16
  e_phentsize :: u16
  e_phnum :: u16
  e_shentsize :: u16
  e_shnum :: u16
  e_shstrndx :: u16

record program_header =
  p_type :: u32
  p_flags :: u32
  p_offset :: u64
  p_vaddr :: u64
  p_paddr :: u64
  p_filesz :: u64
  p_memsz :: u64
  p_align :: u64

definition read_header :: "u8 list \<Rightarrow> elf_header" where
  "read_header f = \<lparr>e_ident = map (file_byte f) [0..<16], e_type = ucast (le_word f 16 2), e_machine = ucast (le_word f 18 2),
     e_version = ucast (le_word f 20 4), e_entry = ucast (le_word f 24 8), e_phoff = ucast (le_word f 32 8),
     e_shoff = ucast (le_word f 40 8), e_flags = ucast (le_word f 48 4), e_ehsize = ucast (le_word f 52 2),
     e_phentsize = ucast (le_word f 54 2), e_phnum = ucast (le_word f 56 2), e_shentsize = ucast (le_word f 58 2),
     e_shnum = ucast (le_word f 60 2), e_shstrndx = ucast (le_word f 62 2)\<rparr>"

definition read_program_header :: "u8 list \<Rightarrow> nat \<Rightarrow> program_header" where
  "read_program_header f pos = \<lparr>p_type = ucast (le_word f pos 4), p_flags = ucast (le_word f (pos + 4) 4),
     p_offset = ucast (le_word f (pos + 8) 8), p_vaddr = ucast (le_word f (pos + 16) 8), p_paddr = ucast (le_word f (pos + 24) 8),
     p_filesz = ucast (le_word f (pos + 32) 8), p_memsz = ucast (le_word f (pos + 40) 8), p_align = ucast (le_word f (pos + 48) 8)\<rparr>"

definition program_headers :: "u8 list \<Rightarrow> elf_header \<Rightarrow> program_header list" where
  "program_headers f h = map (\<lambda>i. read_program_header f (unat (e_phoff h) + 56 * i)) [0..<unat (e_phnum h)]"

definition ELF_MAGIC :: "u8 list" where "ELF_MAGIC = [0x7F, 0x45, 0x4C, 0x46]"
definition ELFCLASS64 :: u8 where "ELFCLASS64 = 2"
definition ELFDATA2LSB :: u8 where "ELFDATA2LSB = 1"
definition EV_CURRENT :: u8 where "EV_CURRENT = 1"
definition ET_EXEC :: u16 where "ET_EXEC = 2"
definition EM_X86_64 :: u16 where "EM_X86_64 = 0x3E"
definition PT_LOAD :: u32 where "PT_LOAD = 1"
definition PF_X :: u32 where "PF_X = 1"
definition PF_W :: u32 where "PF_W = 2"
definition USER_STACK_TOP_VA :: u64 where "USER_STACK_TOP_VA = 0x00007FFFFFFFE000"
definition USER_STACK_PAGES :: nat where "USER_STACK_PAGES = 4"
definition USER_STACK_SIZE_BYTES :: u64 where "USER_STACK_SIZE_BYTES = of_nat USER_STACK_PAGES * 4096"
definition USER_STACK_BOTTOM_VA :: u64 where "USER_STACK_BOTTOM_VA = USER_STACK_TOP_VA - USER_STACK_SIZE_BYTES"
definition USER_STACK_GUARD_VA :: u64 where "USER_STACK_GUARD_VA = USER_STACK_BOTTOM_VA - 4096"

datatype elf_status =
  ES_Success | ES_NullPointer | ES_BufferTooSmall | ES_InvalidMagic | ES_InvalidClass | ES_InvalidDataEncoding
| ES_InvalidMachine | ES_InvalidType | ES_InvalidVersion | ES_InvalidHeaderSize | ES_InvalidPhSize
| ES_PhTableOutOfBounds | ES_SegmentOutOfBounds | ES_IntegerOverflow | ES_KernelAddressOverlap
| ES_NonCanonicalAddress | ES_NoLoadableSegments | ES_EntryNotExecutable | ES_AllocationFailed | ES_MappingFailed

record elf_result =
  er_status :: elf_status
  er_entry_point :: u64
  er_stack_top :: u64
  er_pages_mapped :: nat

abbreviation elf_failed :: "elf_status \<Rightarrow> elf_result" where
  "elf_failed st \<equiv> \<lparr>er_status = st, er_entry_point = 0, er_stack_top = 0, er_pages_mapped = 0\<rparr>"

section \<open>Validation\<close>

definition validate_header :: "elf_header option \<Rightarrow> u64 \<Rightarrow> elf_status" where
  "validate_header header file_size =
     (case header of
        None \<Rightarrow> ES_NullPointer
      | Some h \<Rightarrow>
          if file_size < 64 then ES_BufferTooSmall
          else if take 4 (e_ident h) \<noteq> ELF_MAGIC then ES_InvalidMagic
          else if e_ident h ! 4 \<noteq> ELFCLASS64 then ES_InvalidClass
          else if e_ident h ! 5 \<noteq> ELFDATA2LSB then ES_InvalidDataEncoding
          else if e_ident h ! 6 \<noteq> EV_CURRENT \<or> e_version h \<noteq> ucast EV_CURRENT then ES_InvalidVersion
          else if e_machine h \<noteq> EM_X86_64 then ES_InvalidMachine
          else if e_type h \<noteq> ET_EXEC then ES_InvalidType
          else if e_ehsize h \<noteq> 64 then ES_InvalidHeaderSize
          else if e_phentsize h \<noteq> 56 then ES_InvalidPhSize
          else if e_phnum h = 0 then ES_NoLoadableSegments
          else let ph_table_size = ucast (e_phnum h) * 56; ph_table_end = e_phoff h + ph_table_size in
            if ph_table_end < e_phoff h \<or> ph_table_end > file_size then ES_PhTableOutOfBounds
            else ES_Success)"

text \<open>The loop over the program headers, with \<open>load_count\<close> and \<open>entry_found_in_executable\<close>.\<close>

fun check_segments :: "u64 \<Rightarrow> u64 \<Rightarrow> program_header list \<Rightarrow> nat \<Rightarrow> bool \<Rightarrow> elf_status" where
  "check_segments entry file_size [] load_count found =
     (if load_count = 0 then ES_NoLoadableSegments else if \<not> found then ES_EntryNotExecutable else ES_Success)"
| "check_segments entry file_size (ph # phs) load_count found =
     (if p_type ph \<noteq> PT_LOAD then check_segments entry file_size phs load_count found
      else let file_end = p_offset ph + p_filesz ph; mem_end = p_vaddr ph + p_memsz ph in
        if file_end < p_offset ph \<or> file_end > file_size then ES_SegmentOutOfBounds
        else if p_memsz ph < p_filesz ph then ES_IntegerOverflow
        else if mem_end < p_vaddr ph then ES_IntegerOverflow
        else if p_vaddr ph < 0x1000 \<or> mem_end > 0x0000800000000000 then ES_KernelAddressOverlap
        else check_segments entry file_size phs (load_count + 1)
               (found \<or> (p_flags ph AND PF_X \<noteq> 0 \<and> entry \<ge> p_vaddr ph \<and> entry < mem_end)))"

definition validate_segments :: "elf_header option \<Rightarrow> u8 list \<Rightarrow> u64 \<Rightarrow> elf_status" where
  "validate_segments header f file_size =
     (let status = validate_header header file_size in
      if status \<noteq> ES_Success then status
      else check_segments (e_entry (the header)) file_size (program_headers f (the header)) 0 False)"

section \<open>Loading\<close>

definition segment_flags :: "program_header \<Rightarrow> u64" where
  "segment_flags ph =
     PF_Present OR PF_User
       OR (if p_flags ph AND PF_W \<noteq> 0 then PF_Writable else PF_None)
       OR (if p_flags ph AND PF_X = 0 then PF_NoExecute else PF_None)"

definition user_stack_flags :: u64 where
  "user_stack_flags = PF_Present OR PF_User OR PF_Writable OR PF_NoExecute"

text \<open>The part both page loops share: a frame is allocated, cleared and mapped.\<close>

definition elf_page :: "vmm \<Rightarrow> u64 \<Rightarrow> u64 \<Rightarrow> u64 \<Rightarrow> pmm \<times> page_mem \<Rightarrow> elf_status \<times> u64 \<times> pmm \<times> page_mem" where
  "elf_page v pml4 va flags s =
     (case alloc_page s of (pa, s1) \<Rightarrow>
        if pa = 0 then (ES_AllocationFailed, 0, s1)
        else case map_page_in_table v (fst s1, zero_page (snd s1) pa) pml4 va pa flags of (st, s2) \<Rightarrow>
          if st \<noteq> Success then (ES_MappingFailed, pa, s2) else (ES_Success, pa, s2))"

text \<open>The file-backed bytes of the page at \<open>va\<close>: where they start in the page, and the bytes.\<close>

definition page_payload :: "u8 list \<Rightarrow> program_header \<Rightarrow> u64 \<Rightarrow> (u64 \<times> u8 list) option" where
  "page_payload f ph va =
     (let page_min = va; page_max = va + PAGE_SIZE;
          file_start = p_vaddr ph; file_end = p_vaddr ph + p_filesz ph in
      if page_max > file_start \<and> page_min < file_end
      then let copy_start = (if page_min < file_start then file_start else page_min);
               copy_end = (if page_max > file_end then file_end else page_max);
               copy_len = copy_end - copy_start;
               file_offset = p_offset ph + (copy_start - file_start)
           in Some (copy_start - page_min, map (\<lambda>i. file_byte f (unat file_offset + i)) [0..<unat copy_len])
      else None)"

fun load_pages ::
  "vmm \<Rightarrow> u64 \<Rightarrow> u8 list \<Rightarrow> program_header \<Rightarrow> u64 list \<Rightarrow> nat \<Rightarrow> pmm \<times> page_mem \<Rightarrow> elf_status \<times> nat \<times> pmm \<times> page_mem" where
  "load_pages v pml4 f ph [] n s = (ES_Success, n, s)"
| "load_pages v pml4 f ph (va # vas) n s =
     (case elf_page v pml4 va (segment_flags ph) s of (st, pa, s1) \<Rightarrow>
        if st \<noteq> ES_Success then (st, n, s1)
        else load_pages v pml4 f ph vas (n + 1)
               (case page_payload f ph va of
                  None \<Rightarrow> s1
                | Some (off, bytes) \<Rightarrow> (fst s1, put_bytes (pa + off) bytes (snd s1))))"

definition segment_pages :: "program_header \<Rightarrow> u64 list" where
  "segment_pages ph =
     (let seg_start = p_vaddr ph; seg_end = p_vaddr ph + p_memsz ph in
      loop_pages (seg_start AND NOT (PAGE_SIZE - 1)) ((seg_end + PAGE_SIZE - 1) AND NOT (PAGE_SIZE - 1)))"

fun load_segments ::
  "vmm \<Rightarrow> u64 \<Rightarrow> u8 list \<Rightarrow> program_header list \<Rightarrow> nat \<Rightarrow> pmm \<times> page_mem \<Rightarrow> elf_status \<times> nat \<times> pmm \<times> page_mem" where
  "load_segments v pml4 f [] n s = (ES_Success, n, s)"
| "load_segments v pml4 f (ph # phs) n s =
     (if p_type ph \<noteq> PT_LOAD then load_segments v pml4 f phs n s
      else case load_pages v pml4 f ph (segment_pages ph) n s of (st, n', s') \<Rightarrow>
        if st \<noteq> ES_Success then (st, n', s') else load_segments v pml4 f phs n' s')"

fun load_stack :: "vmm \<Rightarrow> u64 \<Rightarrow> nat list \<Rightarrow> nat \<Rightarrow> pmm \<times> page_mem \<Rightarrow> elf_status \<times> nat \<times> pmm \<times> page_mem" where
  "load_stack v pml4 [] n s = (ES_Success, n, s)"
| "load_stack v pml4 (p # ps) n s =
     (case elf_page v pml4 (USER_STACK_BOTTOM_VA + of_nat p * PAGE_SIZE) user_stack_flags s of (st, pa, s1) \<Rightarrow>
        if st \<noteq> ES_Success then (st, n, s1) else load_stack v pml4 ps (n + 1) s1)"

definition elf_load :: "vmm \<Rightarrow> u8 list option \<Rightarrow> u64 \<Rightarrow> pmm \<times> page_mem \<Rightarrow> elf_result \<times> pmm \<times> page_mem" where
  "elf_load v data pml4_pa s =
     (case data of
        None \<Rightarrow> (elf_failed ES_NullPointer, s)
      | Some f \<Rightarrow>
          let target_pml4 = (if pml4_pa = 0 then m_root_pml4_paddr v else pml4_pa);
              header = read_header f;
              status = validate_segments (Some header) f (of_nat (length f)) in
          if status \<noteq> ES_Success then (elf_failed status, s)
          else case load_segments v target_pml4 f (program_headers f header) 0 s of (st, n, s1) \<Rightarrow>
            if st \<noteq> ES_Success then (elf_failed st, s1)
            else case load_stack v target_pml4 [0..<USER_STACK_PAGES] n s1 of (st', n', s2) \<Rightarrow>
              if st' \<noteq> ES_Success then (elf_failed st', s2)
              else (\<lparr>er_status = ES_Success, er_entry_point = e_entry header, er_stack_top = USER_STACK_TOP_VA,
                     er_pages_mapped = n'\<rparr>, s2))"

text \<open>Loading from the file system: the file is read into a heap buffer, whose bytes are then
  loaded from physical memory.\<close>

definition heap_bytes :: "u64 \<Rightarrow> nat \<Rightarrow> kheap \<Rightarrow> u8 list" where
  "heap_bytes ptr n H = map (\<lambda>i. phys_byte (snd (h_mem H)) (virt_to_phys ptr + of_nat i)) [0..<n]"

definition load_from_vfs ::
  "('n, 's) vnode_ops \<Rightarrow> vmm \<Rightarrow> string option \<Rightarrow> u64 \<Rightarrow> ('d, 'f, 'n, 's) vfs \<Rightarrow> kheap \<Rightarrow> elf_result \<times> ('d, 'f, 'n, 's) vfs \<times> kheap" where
  "load_from_vfs D v path pml4_pa V H =
     (if path = None then (elf_failed ES_NullPointer, V, H)
      else case vfs_open D path O_RDONLY V of (fd, V1) \<Rightarrow>
        if fd < 0 then (elf_failed ES_BufferTooSmall, V1, H)
        else case vfs_fstat D fd True V1 of (r, st, V2) \<Rightarrow>
          if r \<noteq> 0 \<or> st_size (the st) = 0
          then (elf_failed ES_BufferTooSmall, snd (vfs_close fd V2), H)
          else case kmalloc (st_size (the st)) H of (buffer, H1) \<Rightarrow>
            if buffer = 0 then (elf_failed ES_AllocationFailed, snd (vfs_close fd V2), H1)
            else case vfs_read D fd True (st_size (the st)) V2 of (bytes_read, buf, V3) \<Rightarrow>
              let V4 = snd (vfs_close fd V3);
                  H2 = H1\<lparr>h_mem := (fst (h_mem H1), put_bytes (virt_to_phys buffer) buf (snd (h_mem H1)))\<rparr> in
              if bytes_read \<noteq> sint (st_size (the st)) then (elf_failed ES_BufferTooSmall, V4, kfree buffer H2)
              else case elf_load v (Some (heap_bytes buffer (unat (st_size (the st))) H2)) pml4_pa (h_mem H2) of (res, s) \<Rightarrow>
                (res, V4, kfree buffer (H2\<lparr>h_mem := s\<rparr>)))"


section \<open>Mapped bytes\<close>

text \<open>What an address of the address space at \<open>root\<close> maps to, and that it holds a byte on a data
  page.\<close>

definition space_ok :: "vmm \<Rightarrow> u64 \<Rightarrow> bool" where
  "space_ok v root \<longleftrightarrow> m_vmm_initialized v \<and> root \<noteq> 0 \<and> is_page_aligned root"

abbreviation maps :: "vmm \<Rightarrow> u64 \<Rightarrow> pmm \<times> page_mem \<Rightarrow> u64 \<Rightarrow> (u64 \<times> u64) option" where
  "maps v root s x \<equiv> translate (v\<lparr>hw_cr3 := root\<rparr>) (snd s) x"

definition holds :: "vmm \<Rightarrow> u64 \<Rightarrow> pmm \<times> page_mem \<Rightarrow> u64 \<Rightarrow> u64 \<Rightarrow> u8 \<Rightarrow> bool" where
  "holds v root s x fl b \<longleftrightarrow> (\<exists>pa. maps v root s x = Some (pa, fl) \<and> data_page root s (pa AND NOT 0xFFF) \<and> phys_byte (snd s) pa = b)"

text \<open>A step that maps only addresses of \<open>A\<close> that were unmapped and keeps every byte that was held.\<close>

definition extends :: "vmm \<Rightarrow> u64 \<Rightarrow> u64 set \<Rightarrow> pmm \<times> page_mem \<Rightarrow> pmm \<times> page_mem \<Rightarrow> bool" where
  "extends v root A s s' \<longleftrightarrow> vm_inv root s' \<and> (\<forall>x. maps v root s' x = maps v root s x \<or> x \<in> A \<and> maps v root s x = None)
     \<and> (\<forall>x fl b. holds v root s x fl b \<longrightarrow> holds v root s' x fl b)"

lemma extends_refl: "vm_inv root s \<Longrightarrow> extends v root A s s"
  by (simp add: extends_def)

lemma extends_trans: "extends v root A s s1 \<Longrightarrow> extends v root A s1 s2 \<Longrightarrow> extends v root A s s2"
  unfolding extends_def by metis

lemma extends_mono: "extends v root A s s' \<Longrightarrow> A \<subseteq> B \<Longrightarrow> extends v root B s s'"
  unfolding extends_def by blast

lemma map_page_cr3: "map_page_in_table (v\<lparr>hw_cr3 := r\<rparr>) = map_page_in_table v"
  by (intro ext) (simp add: map_page_in_table_def)

lemma maps_walk:
  assumes "space_ok v root"
  shows "maps v root s x = (if is_canonical x then map_option (\<lambda>(e, pa). (pa, pte_flags e)) (walk (snd s) root x) else None)"
  using assms translate_root[of "v\<lparr>hw_cr3 := root\<rparr>" root] by (simp add: space_ok_def)

lemma holds_keep:
  assumes "\<And>x. maps v root s' x = maps v root s x \<or> maps v root s x = None" "\<And>x. data_page root s x \<Longrightarrow> keeps_page root s s' x"
    "holds v root s x fl b"
  shows "holds v root s' x fl b"
proof -
  obtain pa where pa: "maps v root s x = Some (pa, fl)" "data_page root s (pa AND NOT 0xFFF)" "phys_byte (snd s) pa = b"
    using assms(3) by (auto simp: holds_def)
  have "maps v root s' x = Some (pa, fl)" using assms(1)[of x] pa(1) by auto
  moreover have "phys_byte (snd s') pa = b" using assms(2)[OF pa(2)] pa(3) by (simp add: phys_byte_def)
  ultimately show ?thesis using assms(2)[OF pa(2)] unfolding holds_def by blast
qed

definition page_of :: "u64 \<Rightarrow> u64 set" where
  "page_of va = {x. is_canonical x \<and> x div PAGE_SIZE = va div PAGE_SIZE}"

lemma elf_page_spec:
  assumes ok: "space_ok v root" and inv: "vm_inv root s" and e: "elf_page v root va flags s = (st, pa, s')"
  shows "extends v root (if st = ES_Success then page_of va else {}) s s'"
    and "st = ES_Success \<Longrightarrow> is_page_aligned pa \<and> \<not> data_page root s pa \<and> data_page root s' pa \<and> snd s' pa = (\<lambda>_. 0)
      \<and> (\<forall>x\<in>page_of va. maps v root s' x = Some (pa + page_offset x, (flags OR PF_Present) AND (PF_NoExecute OR 0x1FF)))"
proof -
  obtain pa1 s1 where a: "alloc_page s = (pa1, s1)" by (meson surj_pair)
  have both: "extends v root (if st = ES_Success then page_of va else {}) s s' \<and>
    (st = ES_Success \<longrightarrow> is_page_aligned pa \<and> \<not> data_page root s pa \<and> data_page root s' pa \<and> snd s' pa = (\<lambda>_. 0)
      \<and> (\<forall>x\<in>page_of va. maps v root s' x = Some (pa + page_offset x, (flags OR PF_Present) AND (PF_NoExecute OR 0x1FF))))"
  proof (cases "pa1 = 0")
    case True
    then have "s1 = s" using pages.acquire_fail[of s] a vm_invD(1)[OF inv] by simp
    then show ?thesis using e a True inv by (simp add: elf_page_def extends_refl)
  next
    case False
    note A = alloc_data_page[OF inv a False]
    have z: "(fst s1, zero_page (snd s1) pa1) = s1" using A(6) by (cases s1) (auto simp: zero_page_def)
    obtain mst s2 where m: "map_page_in_table v s1 root va pa1 flags = (mst, s2)" by (meson surj_pair)
    have r: "root = (if root = 0 then the (m_root_pml4 v) else root)" using ok by (simp add: space_ok_def)
    have res: "st = (if mst = Success then ES_Success else ES_MappingFailed)" "pa = pa1" "s' = s2"
      using e a False m z by (auto simp: elf_page_def split: if_splits)
    note M = map_page_in_table_spec[OF A(1) r m]
    have K: "keeps_page root s s2 x" if "data_page root s x" for x
      using A(8)[OF that] map_page_keeps[OF A(1) r m] by auto
    have w1: "maps v root s1 x = maps v root s x" for x using A(7) by (simp add: maps_walk[OF ok])
    show ?thesis
    proof (cases "mst = Success")
      case False
      then have "walk (snd s2) root x = walk (snd s1) root x" for x using M by blast
      then have w: "maps v root s' x = maps v root s x" for x using w1[of x] by (simp only: res maps_walk[OF ok])
      have "holds v root s' x fl b" if "holds v root s x fl b" for x fl b
        by (rule holds_keep[OF _ _ that]) (use w K in \<open>auto simp: res\<close>)
      then show ?thesis using False M w by (simp add: res extends_def)
    next
      case True
      have T: "vm_inv root s2" "maps v root s1 va = None"
        "\<And>x. maps v root s2 x = (if is_canonical x \<and> x div PAGE_SIZE = va div PAGE_SIZE
          then Some (pa1 + page_offset x, (flags OR PF_Present) AND (PF_NoExecute OR 0x1FF)) else maps v root s1 x)"
        using map_translate[of "v\<lparr>hw_cr3 := root\<rparr>" root s1 pa1 va flags s2] ok A(1) direct_small[OF A(5)] m True
        by (simp_all add: space_ok_def map_page_cr3)
      have cva: "is_canonical va" using M True by simp
      have un: "maps v root s x = None" if "x \<in> page_of va" for x
      proof -
        have "vpath x = vpath va \<and> pt_index x = pt_index va"
          using that same_page_indices[of x va] by (simp add: page_of_def)
        moreover have "walk (snd s1) root va = None" using M True by simp
        ultimately have "walk (snd s1) root x = None" by (auto simp: walk_def Let_def split: if_splits)
        then have "maps v root s1 x = None" by (simp add: maps_walk[OF ok])
        then show ?thesis using w1[of x] by simp
      qed
      have w: "maps v root s' x = maps v root s x \<or> x \<in> page_of va \<and> maps v root s x = None" for x
        using T(3)[of x] w1[of x] un[of x] by (auto simp: res page_of_def)
      have "holds v root s' x fl b" if "holds v root s x fl b" for x fl b
      proof (rule holds_keep[OF _ _ that])
        show "maps v root s' x = maps v root s x \<or> maps v root s x = None" for x using w[of x] by argo
        show "data_page root s x \<Longrightarrow> keeps_page root s s' x" for x using K[of x] by (simp only: res)
      qed
      moreover have "keeps_page root s1 s2 pa1" by (rule map_page_keeps[OF A(1) r m A(2)])
      moreover have "snd s1 pa1 = (\<lambda>_. 0)" using A(6) by (auto simp: zero_page_def)
      moreover have "\<not> data_page root s pa1" using A(3) by (simp add: data_page_def)
      ultimately show ?thesis using True T w A(4) by (simp add: res extends_def page_of_def)
    qed
  qed
  from both show "extends v root (if st = ES_Success then page_of va else {}) s s'" by simp
  from both show "st = ES_Success \<Longrightarrow> is_page_aligned pa \<and> \<not> data_page root s pa \<and> data_page root s' pa \<and> snd s' pa = (\<lambda>_. 0)
      \<and> (\<forall>x\<in>page_of va. maps v root s' x = Some (pa + page_offset x, (flags OR PF_Present) AND (PF_NoExecute OR 0x1FF)))" by simp
qed


text \<open>Writes to a data page that nothing held yet.\<close>

lemma data_write:
  assumes ok: "space_ok v root" and inv: "vm_inv root (p, mem)" and d: "data_page root (p, mem) pa"
    and m: "\<forall>x. x \<noteq> pa \<longrightarrow> mem' x = mem x"
  shows "vm_inv root (p, mem')" "maps v root (p, mem') x = maps v root (p, mem) x"
    "data_page root (p, mem) y \<Longrightarrow> data_page root (p, mem') y"
proof -
  have nt: "tbl mem 4 root q \<noteq> Some pa" if "path_ok q" for q using d that by (simp add: data_page_def del: tbl.simps)
  have ag: "\<forall>q a. path_ok q \<longrightarrow> tbl mem 4 root q = Some a \<longrightarrow> mem' a = mem a"
    using nt m by metis
  note T = tbl_agree[OF ag]
  show "vm_inv root (p, mem')" using inv T unfolding vm_inv_def table_tree_def tables_off_def by auto
  show "maps v root (p, mem') x = maps v root (p, mem) x" 
    using maps_walk[OF ok, of "(p, mem')" x] maps_walk[OF ok, of "(p, mem)" x] by (simp only: snd_conv walk_agree[OF ag])
  show "data_page root (p, mem) y \<Longrightarrow> data_page root (p, mem') y" using T by (simp add: data_page_def del: tbl.simps)
qed

lemma put_bytes_page:
  assumes "is_page_aligned pa" "unat off + length bs \<le> 4096" "pg \<noteq> pa"
  shows "put_bytes (pa + off) bs mem pg = mem pg"
proof (rule put_bytes_other, intro allI impI)
  fix i assume "i < length bs"
  then have "unat (off + of_nat i) < 4096" using assms(2) by (subst unat_add_nowrap) (simp_all add: unat_of_nat)
  from page_plus_offset(2)[OF assms(1) this] show "pg \<noteq> (pa + off + of_nat i) AND NOT 0xFFF"
    using assms(3) by (simp add: add.assoc)
qed

text \<open>The bounds validation establishes for a segment, and the byte it puts at an address.\<close>

definition segment_ok :: "nat \<Rightarrow> program_header \<Rightarrow> bool" where
  "segment_ok n ph \<longleftrightarrow> unat (p_offset ph) + unat (p_filesz ph) \<le> n \<and> unat (p_filesz ph) \<le> unat (p_memsz ph)
     \<and> 4096 \<le> unat (p_vaddr ph) \<and> unat (p_vaddr ph) + unat (p_memsz ph) \<le> 2 ^ 47"

definition segment_byte :: "u8 list \<Rightarrow> program_header \<Rightarrow> u64 \<Rightarrow> u8" where
  "segment_byte f ph x =
     (if unat (p_vaddr ph) \<le> unat x \<and> unat x < unat (p_vaddr ph) + unat (p_filesz ph)
      then f ! (unat (p_offset ph) + (unat x - unat (p_vaddr ph))) else 0)"

lemma unat_diff_wrap:
  fixes a b :: u64
  assumes "unat a < unat b"
  shows "unat (a - b) + unat b = 2 ^ 64 + unat a"
proof -
  let ?S = "unat (a - b) + unat b"
  have "unat ((a - b) + b) = ?S mod 2 ^ 64" using unat_word_ariths(1)[of "a - b" b] by simp
  then have m: "unat a = ?S mod 2 ^ 64" by simp
  have lt: "unat (a - b) < 2 ^ 64" "unat b < 2 ^ 64" using unat_below[of "a - b"] unat_below[of b] by simp_all
  have ge: "2 ^ 64 \<le> ?S"
  proof (rule ccontr)
    assume "\<not> 2 ^ 64 \<le> ?S"
    then have "unat a = ?S" using m by (simp only: not_le mod_less)
    then show False using assms by linarith
  qed
  have "?S - 2 ^ 64 < 2 ^ 64" using lt by linarith
  then have "unat a = ?S - 2 ^ 64" using m ge by (simp only: le_mod_geq mod_less)
  then show ?thesis using ge by linarith
qed

lemma payload_bounds:
  assumes ok: "segment_ok n ph" "n < 2 ^ 64" and va: "unat va + 4096 \<le> 2 ^ 47"
  defines "A \<equiv> unat va" and "V \<equiv> unat (p_vaddr ph)" and "E \<equiv> unat (p_vaddr ph) + unat (p_filesz ph)"
  shows "page_payload f ph va = (if V < A + 4096 \<and> A < E
    then Some (of_nat (max A V - A), map (\<lambda>i. file_byte f (unat (p_offset ph) + (max A V - V) + i)) [0..<min (A + 4096) E - max A V])
    else None)"
proof -
  note K = ok(1)[unfolded segment_ok_def]
  have pmax: "unat (va + PAGE_SIZE) = A + 4096" using va unfolding A_def by (subst unat_add_nowrap) simp_all
  have fend: "unat (p_vaddr ph + p_filesz ph) = E" using K unfolding E_def by (subst unat_add_nowrap) simp_all
  have vs: "unat (p_vaddr ph) = V" "unat va = A" by (simp_all add: V_def A_def)
  show ?thesis
  proof (cases "V < A + 4096 \<and> A < E")
    case False
    then have "\<not> (va + PAGE_SIZE > p_vaddr ph \<and> va < p_vaddr ph + p_filesz ph)" by (simp add: word_less_nat_alt pmax fend vs)
    then show ?thesis unfolding page_payload_def Let_def using False by (simp only: if_False)
  next
    case True
    define cs where "cs = (if va < p_vaddr ph then p_vaddr ph else va)"
    define ce where "ce = (if va + PAGE_SIZE > p_vaddr ph + p_filesz ph then p_vaddr ph + p_filesz ph else va + PAGE_SIZE)"
    have cs: "unat cs = max A V" by (simp add: cs_def word_less_nat_alt vs max_def)
    have ce: "unat ce = min (A + 4096) E" by (simp add: ce_def word_less_nat_alt pmax fend min_def)
    have "V \<le> E" by (simp add: V_def E_def)
    then have le: "max A V \<le> min (A + 4096) E" using True by auto
    have l: "unat (ce - cs) = min (A + 4096) E - max A V"
      using le unfolding cs[symmetric] ce[symmetric] by (intro unat_sub_nowrap) (simp add: word_le_nat_alt)
    have o: "cs - va = of_nat (max A V - A)"
    proof -
      have "unat (cs - va) = max A V - A" unfolding cs[symmetric] by (subst unat_sub_nowrap) (simp_all add: word_le_nat_alt cs vs)
      moreover have "max A V - A < 2 ^ 64" using unat_below[of cs] cs by (intro less_imp_diff_less) simp
      ultimately show ?thesis by (metis unat_of_small word_unat_eq_iff)
    qed
    have fo: "unat (p_offset ph + (cs - p_vaddr ph)) = unat (p_offset ph) + (max A V - V)"
    proof -
      have "unat (cs - p_vaddr ph) = max A V - V" unfolding cs[symmetric] by (subst unat_sub_nowrap) (simp_all add: word_le_nat_alt cs vs)
      moreover have "unat (p_offset ph) + (max A V - V) < 2 ^ 64" using True K ok(2) unfolding E_def V_def[symmetric] by linarith
      ultimately show ?thesis by (subst unat_add_nowrap) simp_all
    qed
    have c: "va + PAGE_SIZE > p_vaddr ph \<and> va < p_vaddr ph + p_filesz ph"
      using True by (simp add: word_less_nat_alt pmax fend vs)
    show ?thesis using True c l o fo unfolding page_payload_def Let_def cs_def[symmetric] ce_def[symmetric] by simp
  qed
qed


lemma payload_fits:
  assumes "segment_ok n ph" "n < 2 ^ 64" "unat va + 4096 \<le> 2 ^ 47" "page_payload f ph va = Some (off, bs)"
  shows "unat off + length bs \<le> 4096"
proof -
  let ?A = "unat va" and ?V = "unat (p_vaddr ph)" and ?E = "unat (p_vaddr ph) + unat (p_filesz ph)"
  note P = assms(4)[unfolded payload_bounds[OF assms(1-3)]]
  have c: "?V < ?A + 4096 \<and> ?A < ?E" by (rule ccontr) (use P in \<open>simp only: if_False option.simps\<close>)
  have b: "off = of_nat (max ?A ?V - ?A)" "length bs = min (?A + 4096) ?E - max ?A ?V"
    using P unfolding if_P[OF c] by (simp_all only: option.inject prod.inject) auto
  have "max ?A ?V - ?A < 4096" using c by linarith
  moreover have "(4096::nat) < 2 ^ 64" by simp
  ultimately have "unat off = max ?A ?V - ?A" unfolding b(1) by (intro unat_of_small) (rule less_trans)
  then show ?thesis using b(2) c by linarith
qed

lemma payload_byte:
  assumes ok: "segment_ok (length f) ph" "length f < 2 ^ 64" and va: "unat va + 4096 \<le> 2 ^ 47" "is_page_aligned va"
    and pa: "is_page_aligned pa" "mem pa = (\<lambda>_. 0)" and x: "x div PAGE_SIZE = va div PAGE_SIZE"
  defines "mem' \<equiv> (case page_payload f ph va of None \<Rightarrow> mem | Some (off, bs) \<Rightarrow> put_bytes (pa + off) bs mem)"
  shows "phys_byte mem' (pa + page_offset x) = segment_byte f ph x"
proof -
  let ?A = "unat va" and ?V = "unat (p_vaddr ph)" and ?E = "unat (p_vaddr ph) + unat (p_filesz ph)" and ?X = "unat x"
  have po: "unat (page_offset x) < 4096" by (simp add: unat_page_offset)
  have X: "?X = ?A + unat (page_offset x)"
  proof -
    have "?X div 4096 = ?A div 4096" using x by (metis unat_PAGE_SIZE unat_div_distrib)
    moreover have "4096 dvd ?A" using va(2) by (simp add: is_page_aligned_iff)
    ultimately show ?thesis unfolding unat_page_offset by (metis dvd_div_mult_self div_mult_mod_eq mult.commute)
  qed
  have zero: "phys_byte mem (pa + page_offset x) = 0"
    using page_plus_offset(2)[OF pa(1) po] pa(2) by (simp add: phys_byte_def)
  show ?thesis
  proof (cases "?V < ?A + 4096 \<and> ?A < ?E")
    case False
    then have "\<not> (?V \<le> ?X \<and> ?X < ?E)" using X po by linarith
    moreover have "mem' = mem" unfolding mem'_def payload_bounds[OF ok va(1)] by (simp only: if_not_P[OF False] option.case)
    ultimately show ?thesis using zero by (simp only: segment_byte_def if_False)
  next
    case True
    define o' where "o' = max ?A ?V - ?A"
    define bs where "bs = map (\<lambda>i. file_byte f (unat (p_offset ph) + (max ?A ?V - ?V) + i)) [0..<min (?A + 4096) ?E - max ?A ?V]"
    have m: "mem' = put_bytes (pa + of_nat o') bs mem"
      unfolding mem'_def payload_bounds[OF ok va(1)] o'_def bs_def by (simp only: if_P[OF True] option.case prod.case)
    have len: "length bs = min (?A + 4096) ?E - max ?A ?V" by (simp add: bs_def)
    have o4: "o' < 4096" using True unfolding o'_def by linarith
    have uo: "unat (of_nat o' :: u64) = o'" using o4 by (intro unat_of_small) simp
    have d: "pa + page_offset x - (pa + of_nat o') = page_offset x - of_nat o'" by simp
    have bl: "length bs \<le> 2 ^ 64" unfolding len by simp
    note B = phys_byte_puts[OF bl, of "pa + of_nat o'" mem "pa + page_offset x", folded m, unfolded d]
    show ?thesis
    proof (cases "o' \<le> unat (page_offset x)")
      case le: True
      have u: "unat (page_offset x - of_nat o') = unat (page_offset x) - o'" using le uo by (subst unat_sub_nowrap) (simp_all add: word_le_nat_alt)
      show ?thesis
      proof (cases "?X < ?E")
        case True
        then have "unat (page_offset x) - o' < length bs" "?V \<le> ?X" using le po X unfolding len o'_def by linarith+
        moreover have "bs ! (unat (page_offset x) - o') = file_byte f (unat (p_offset ph) + (?X - ?V))"
        proof -
          have "max ?A ?V - ?V + (unat (page_offset x) - o') = ?X - ?V" using X le calculation(2) unfolding o'_def by linarith
          moreover have "bs ! (unat (page_offset x) - o') = file_byte f (unat (p_offset ph) + (max ?A ?V - ?V) + (unat (page_offset x) - o'))"
            using calculation(1) \<open>unat (page_offset x) - o' < length bs\<close>[unfolded len] unfolding bs_def by (subst nth_map) simp_all
          ultimately show ?thesis by (simp only: add.assoc)
        qed
        moreover have "unat (p_offset ph) + (?X - ?V) < length f" using ok(1) True calculation(2) unfolding segment_ok_def by linarith
        ultimately show ?thesis using B u True by (simp add: segment_byte_def file_byte_def)
      next
        case False
        then have "\<not> unat (page_offset x) - o' < length bs" using X unfolding len o'_def by linarith
        then show ?thesis using B u False zero by (simp add: segment_byte_def)
      qed
    next
      case lt: False
      have "?X < ?V" using lt X unfolding o'_def by linarith
      moreover have "\<not> unat (page_offset x - of_nat o') < length bs"
      proof -
        have "unat (page_offset x - of_nat o') + o' = 2 ^ 64 + unat (page_offset x)"
          using unat_diff_wrap[of "page_offset x" "of_nat o'"] lt by (simp only: uo not_le)
        moreover have "length bs \<le> 4096" unfolding len by linarith
        moreover have "(8192::nat) \<le> 2 ^ 64" by simp
        ultimately show ?thesis using o4 by linarith
      qed
      ultimately show ?thesis using B zero by (simp add: segment_byte_def)
    qed
  qed
qed

section \<open>The page loops\<close>

lemma segment_flags_pte: "(segment_flags ph OR PF_Present) AND (PF_NoExecute OR 0x1FF) = segment_flags ph"
  by (simp add: segment_flags_def PF_Present_def PF_User_def PF_Writable_def PF_NoExecute_def PF_None_def)

lemma load_page_step:
  assumes ok: "space_ok v root" and seg: "segment_ok (length f) ph" "length f < 2 ^ 64"
    and va: "unat va + 4096 \<le> 2 ^ 47" "is_page_aligned va" and inv: "vm_inv root s"
    and e: "elf_page v root va (segment_flags ph) s = (ES_Success, pa, s1)"
  defines "s2 \<equiv> (case page_payload f ph va of None \<Rightarrow> s1 | Some (off, bytes) \<Rightarrow> (fst s1, put_bytes (pa + off) bytes (snd s1)))"
  shows "extends v root (page_of va) s s2"
    and "\<forall>x\<in>page_of va. holds v root s2 x (segment_flags ph) (segment_byte f ph x)"
proof -
  note E1 = elf_page_spec(1)[OF ok inv e, unfolded if_P[OF refl]]
  note E2 = elf_page_spec(2)[OF ok inv e refl, unfolded segment_flags_pte]
  obtain p mem where s1: "s1 = (p, mem)" by (cases s1)
  define mem' where "mem' = (case page_payload f ph va of None \<Rightarrow> mem | Some (off, bs) \<Rightarrow> put_bytes (pa + off) bs mem)"
  have s2: "s2 = (p, mem')" by (auto simp: s2_def mem'_def s1 split: option.splits)
  have inv1: "vm_inv root (p, mem)" using E1 by (simp add: extends_def s1)
  have al: "is_page_aligned pa" and d1: "data_page root (p, mem) pa" and z: "mem pa = (\<lambda>_. 0)" using E2 by (simp_all add: s1)
  have oth: "mem' y = mem y" if "y \<noteq> pa" for y
    using put_bytes_page[OF al payload_fits[OF seg va(1)] that] by (auto simp: mem'_def split: option.splits)
  have "\<forall>y. y \<noteq> pa \<longrightarrow> mem' y = mem y" using oth by blast
  note W = data_write[OF ok inv1 d1 this]
  have M: "maps v root s2 x = maps v root s1 x" for x using W(2)[of x] by (simp only: s1 s2)
  show "\<forall>x\<in>page_of va. holds v root s2 x (segment_flags ph) (segment_byte f ph x)"
  proof
    fix x assume x: "x \<in> page_of va"
    then have "maps v root s2 x = Some (pa + page_offset x, segment_flags ph)" using E2 M[of x] by simp
    moreover have "unat (page_offset x) < 4096" by (simp add: unat_page_offset)
    from page_plus_offset(2)[OF al this] have "(pa + page_offset x) AND NOT 0xFFF = pa" .
    moreover have "phys_byte mem' (pa + page_offset x) = segment_byte f ph x"
      unfolding mem'_def by (rule payload_byte[where mem = mem and pa = pa, OF seg va al z]) (use x in \<open>simp add: page_of_def\<close>)
    ultimately show "holds v root s2 x (segment_flags ph) (segment_byte f ph x)"
      using W(3)[OF d1] unfolding holds_def by (simp add: s2)
  qed
  have "holds v root s2 x fl b" if h: "holds v root s x fl b" for x fl b
  proof -
    obtain q where q: "maps v root s x = Some (q, fl)" "data_page root s (q AND NOT 0xFFF)"
      using h by (auto simp: holds_def)
    have "holds v root s1 x fl b" using E1 h by (simp add: extends_def)
    moreover have "maps v root s1 x = Some (q, fl)" using E1 q(1) unfolding extends_def by (metis option.distinct(1))
    ultimately have q1: "data_page root (p, mem) (q AND NOT 0xFFF)" "phys_byte mem q = b" by (auto simp: holds_def s1)
    have "q AND NOT 0xFFF \<noteq> pa" using q(2) E2 by auto
    then have "phys_byte mem' q = b" using q1(2) oth by (simp add: phys_byte_def)
    moreover have "maps v root s2 x = Some (q, fl)" using M[of x] \<open>maps v root s1 x = Some (q, fl)\<close> by simp
    ultimately show ?thesis using W(3)[OF q1(1)] unfolding holds_def by (auto simp: s2)
  qed
  moreover have "vm_inv root s2" using W(1) by (simp add: s2)
  ultimately show "extends v root (page_of va) s s2" using E1 M by (simp add: extends_def)
qed

lemma load_pages_spec:
  assumes "space_ok v root" "segment_ok (length f) ph" "length f < 2 ^ 64" "vm_inv root s"
    "\<forall>va\<in>set vas. unat va + 4096 \<le> 2 ^ 47 \<and> is_page_aligned va" "load_pages v root f ph vas n s = (st, n', s')"
  shows "extends v root (\<Union>va\<in>set vas. page_of va) s s'"
    and "st = ES_Success \<Longrightarrow> \<forall>va\<in>set vas. \<forall>x\<in>page_of va. holds v root s' x (segment_flags ph) (segment_byte f ph x)"
proof -
  have "extends v root (\<Union>va\<in>set vas. page_of va) s s' \<and>
    (st = ES_Success \<longrightarrow> (\<forall>va\<in>set vas. \<forall>x\<in>page_of va. holds v root s' x (segment_flags ph) (segment_byte f ph x)))"
    using assms(4-6)
  proof (induction vas arbitrary: n s)
    case Nil
    then show ?case by (simp add: extends_refl)
  next
    case (Cons va vas)
    obtain st1 pa s1 where e: "elf_page v root va (segment_flags ph) s = (st1, pa, s1)" by (meson prod_cases3)
    let ?U = "\<Union>va\<in>set (va # vas). page_of va"
    show ?case
    proof (cases "st1 = ES_Success")
      case False
      then have "extends v root {} s s'" "st \<noteq> ES_Success"
        using elf_page_spec(1)[OF assms(1) Cons.prems(1) e] Cons.prems(3) e by auto
      then show ?thesis using extends_mono[of v root "{}" s s' ?U] by simp
    next
      case True
      define s2 where "s2 = (case page_payload f ph va of None \<Rightarrow> s1 | Some (off, bytes) \<Rightarrow> (fst s1, put_bytes (pa + off) bytes (snd s1)))"
      have va: "unat va + 4096 \<le> 2 ^ 47" "is_page_aligned va" using Cons.prems(2) by simp_all
      note S = load_page_step[OF assms(1-3) va Cons.prems(1) e[unfolded True], folded s2_def]
      have r: "load_pages v root f ph vas (n + 1) s2 = (st, n', s')" using Cons.prems(3) e True by (simp add: s2_def)
      have i2: "vm_inv root s2" using S(1) by (simp add: extends_def)
      have IH: "extends v root (\<Union>va\<in>set vas. page_of va) s2 s'"
        "st = ES_Success \<longrightarrow> (\<forall>va\<in>set vas. \<forall>x\<in>page_of va. holds v root s' x (segment_flags ph) (segment_byte f ph x))"
        using Cons.IH[OF i2 _ r] Cons.prems(2) by simp_all
      have "extends v root ?U s s2" "extends v root ?U s2 s'"
        using S(1) IH(1) by (auto elim!: extends_mono)
      then have "extends v root ?U s s'" by (rule extends_trans)
      moreover have "\<forall>x\<in>page_of va. holds v root s' x (segment_flags ph) (segment_byte f ph x)"
        using S(2) IH(1) by (simp add: extends_def)
      ultimately show ?thesis using IH(2) by simp
    qed
  qed
  then show "extends v root (\<Union>va\<in>set vas. page_of va) s s'"
    "st = ES_Success \<Longrightarrow> \<forall>va\<in>set vas. \<forall>x\<in>page_of va. holds v root s' x (segment_flags ph) (segment_byte f ph x)" by simp_all
qed

lemma segment_pages_eq:
  assumes "segment_ok n ph"
  defines "S \<equiv> unat (p_vaddr ph) div 4096" and "T \<equiv> (unat (p_vaddr ph) + unat (p_memsz ph) + 4095) div 4096"
  shows "set (segment_pages ph) = (\<lambda>k. of_nat (4096 * k)) ` {S..<T}"
proof -
  let ?e = "p_vaddr ph + p_memsz ph"
  note R = assms(1)[unfolded segment_ok_def]
  have e: "unat ?e = unat (p_vaddr ph) + unat (p_memsz ph)" using R by (subst unat_add_nowrap) simp_all
  have "unat (?e + 0xFFF) = unat ?e + 4095" using R by (subst unat_add_nowrap) (simp_all add: e)
  moreover have "?e + PAGE_SIZE - 1 = ?e + 0xFFF" by (simp add: PAGE_SIZE_def)
  ultimately have e1: "unat (?e + PAGE_SIZE - 1) = unat ?e + 4095" by (simp only:)
  define ps pe where "ps = p_vaddr ph AND NOT (PAGE_SIZE - 1)" and "pe = (?e + PAGE_SIZE - 1) AND NOT (PAGE_SIZE - 1)"
  have ps: "unat ps = 4096 * S" unfolding ps_def page_mask page_base(1) S_def ..
  have pe: "unat pe = 4096 * T" unfolding pe_def page_mask page_base(1) e1 e T_def ..
  have l: "segment_pages ph = loop_pages ps pe" by (simp only: segment_pages_def Let_def ps_def pe_def)
  show ?thesis
  proof (cases "S < T")
    case False
    then have "\<not> ps < pe" by (simp add: word_less_nat_alt ps pe)
    then show ?thesis using False by (simp add: l loop_pages_def)
  next
    case True
    then have lt: "ps < pe" by (simp add: word_less_nat_alt ps pe)
    then have n: "unat (pe - ps) div 4096 = T - S" using ps pe True by (simp add: unat_sub_nowrap diff_mult_distrib2[symmetric])
    have "ps = of_nat (4096 * S)" unfolding ps[symmetric] by simp
    then have "segment_pages ph = map (\<lambda>i. of_nat (4096 * (S + i))) [0..<T - S]"
      using lt n by (simp add: l loop_pages_def PAGE_SIZE_def algebra_simps)
    then have "set (segment_pages ph) = (\<lambda>k. of_nat (4096 * k)) ` ((+) S ` {0..<T - S})"
      by (simp only: set_map set_upt image_image)
    also have "(+) S ` {0..<T - S} = {S..<T}" using True by (simp add: image_add_atLeastLessThan)
    finally show ?thesis .
  qed
qed

lemma segment_pages_user:
  assumes "segment_ok n ph" "va \<in> set (segment_pages ph)"
  shows "unat va + 4096 \<le> 2 ^ 47" "is_page_aligned va" "page_of va \<subseteq> Collect is_user_address"
proof -
  obtain k where k: "va = of_nat (4096 * k)" "unat (p_vaddr ph) div 4096 \<le> k"
      "k < (unat (p_vaddr ph) + unat (p_memsz ph) + 4095) div 4096"
    using assms(2) unfolding segment_pages_eq[OF assms(1)] by auto
  have "(unat (p_vaddr ph) + unat (p_memsz ph) + 4095) div 4096 \<le> (2 ^ 47 + 4095) div 4096"
    using assms(1) by (intro div_le_mono) (simp add: segment_ok_def)
  then have k2: "k < 2 ^ 35" using k(3) by simp
  then have u: "unat va = 4096 * k" unfolding k(1) by (intro unat_of_small) simp
  then show h: "unat va + 4096 \<le> 2 ^ 47" using k2 by simp
  show "is_page_aligned va" by (simp add: is_page_aligned_iff u)
  have "4096 div 4096 \<le> unat (p_vaddr ph) div 4096" using assms(1) by (intro div_le_mono) (simp add: segment_ok_def)
  then have k1: "1 \<le> k" using k(2) by simp
  have "is_user_address x" if "x \<in> page_of va" for x
  proof -
    have "unat x div 4096 = k" using that u by (metis (mono_tags, lifting) mem_Collect_eq nonzero_mult_div_cancel_left page_of_def
      unat_PAGE_SIZE unat_div_distrib zero_neq_numeral)
    moreover have "(2::nat) ^ 47 = 4096 * 2 ^ 35" by simp
    ultimately show ?thesis using k1 k2 unfolding user_address_iff by linarith
  qed
  then show "page_of va \<subseteq> Collect is_user_address" by blast
qed

lemma segment_pages_cover:
  assumes "segment_ok n ph" "unat (p_vaddr ph) \<le> unat x" "unat x < unat (p_vaddr ph) + unat (p_memsz ph)"
  shows "\<exists>va\<in>set (segment_pages ph). x \<in> page_of va"
proof
  let ?k = "unat x div 4096"
  have x47: "unat x < 2 ^ 47" using assms by (simp add: segment_ok_def)
  have "unat (p_vaddr ph) div 4096 \<le> ?k" using assms(2) by (rule div_le_mono)
  moreover have "?k < (unat (p_vaddr ph) + unat (p_memsz ph) + 4095) div 4096" using assms(3) by linarith
  ultimately show "of_nat (4096 * ?k) \<in> set (segment_pages ph)" unfolding segment_pages_eq[OF assms(1)] by auto
  have "of_nat (4096 * ?k) = x - page_offset x" unfolding page_base(1)[symmetric] by simp
  then show "x \<in> page_of (of_nat (4096 * ?k))" using x47 by (simp add: page_of_def page_base(2) is_canonical_iff)
qed

lemma load_segments_spec:
  assumes "space_ok v root" "length f < 2 ^ 64" "vm_inv root s"
    "\<forall>ph\<in>set phs. p_type ph = PT_LOAD \<longrightarrow> segment_ok (length f) ph" "load_segments v root f phs n s = (st, n', s')"
  shows "extends v root (Collect is_user_address) s s' \<and> (st = ES_Success \<longrightarrow>
    (\<forall>ph\<in>set phs. p_type ph = PT_LOAD \<longrightarrow>
      (\<forall>x. unat (p_vaddr ph) \<le> unat x \<and> unat x < unat (p_vaddr ph) + unat (p_memsz ph) \<longrightarrow>
        holds v root s' x (segment_flags ph) (segment_byte f ph x))))"
  using assms(3-5)
proof (induction phs arbitrary: n s)
  case Nil
  then show ?case by (simp add: extends_refl)
next
  case (Cons ph phs)
  show ?case
  proof (cases "p_type ph = PT_LOAD")
    case False
    then show ?thesis using Cons.IH[OF Cons.prems(1), of n] Cons.prems(2,3) by auto
  next
    case True
    obtain st1 n1 s1 where l: "load_pages v root f ph (segment_pages ph) n s = (st1, n1, s1)" by (meson prod_cases3)
    have ok: "segment_ok (length f) ph" using Cons.prems(2) True by simp
    have p: "\<forall>va\<in>set (segment_pages ph). unat va + 4096 \<le> 2 ^ 47 \<and> is_page_aligned va"
      using segment_pages_user[OF ok] by blast
    note L = load_pages_spec[OF assms(1) ok assms(2) Cons.prems(1) p l]
    have E: "extends v root (Collect is_user_address) s s1"
      using segment_pages_user(3)[OF ok] by (intro extends_mono[OF L(1)]) blast
    show ?thesis
    proof (cases "st1 = ES_Success")
      case False
      then show ?thesis using Cons.prems(3) True l E by simp
    next
      case s1: True
      have r: "load_segments v root f phs n1 s1 = (st, n', s')" using Cons.prems(3) True l s1 by simp
      have "vm_inv root s1" using E by (simp add: extends_def)
      note IH = Cons.IH[OF this _ r]
      have "\<forall>x. unat (p_vaddr ph) \<le> unat x \<and> unat x < unat (p_vaddr ph) + unat (p_memsz ph) \<longrightarrow>
        holds v root s1 x (segment_flags ph) (segment_byte f ph x)"
        using L(2)[OF s1] segment_pages_cover[OF ok] by blast
      moreover have "extends v root (Collect is_user_address) s1 s'" using IH Cons.prems(2) by simp
      ultimately show ?thesis using IH Cons.prems(2) extends_trans[OF E] by (auto simp: extends_def)
    qed
  qed
qed

abbreviation stack_va :: "nat \<Rightarrow> u64" where
  "stack_va p \<equiv> USER_STACK_BOTTOM_VA + of_nat p * PAGE_SIZE"

lemma stack_va_page:
  assumes "p < USER_STACK_PAGES"
  shows "x \<in> page_of (stack_va p) \<longleftrightarrow> unat x div 4096 = 0x7FFFFFFFA + p"
proof -
  have "p = 0 \<or> p = 1 \<or> p = 2 \<or> p = 3" using assms by (auto simp: USER_STACK_PAGES_def)
  then have "unat (stack_va p) div 4096 = 0x7FFFFFFFA + p"
    by (auto simp: USER_STACK_BOTTOM_VA_def USER_STACK_TOP_VA_def USER_STACK_SIZE_BYTES_def USER_STACK_PAGES_def PAGE_SIZE_def)
  moreover have "x div PAGE_SIZE = stack_va p div PAGE_SIZE \<longleftrightarrow> unat x div 4096 = unat (stack_va p) div 4096"
    by (metis unat_PAGE_SIZE unat_div_distrib word_unat_eq_iff)
  moreover have "is_canonical x" if "unat x div 4096 = 0x7FFFFFFFA + p"
  proof -
    have "(2::nat) ^ 47 = 0x800000000000" by simp
    then show ?thesis using that assms unfolding is_canonical_iff USER_STACK_PAGES_def by linarith
  qed
  ultimately show ?thesis unfolding page_of_def by (simp only: mem_Collect_eq) blast
qed

lemma stack_va_cover:
  assumes "USER_STACK_BOTTOM_VA \<le> x" "x < USER_STACK_TOP_VA"
  shows "\<exists>p<USER_STACK_PAGES. x \<in> page_of (stack_va p)"
proof -
  have "0x7FFFFFFFA000 \<le> unat x" "unat x < 0x7FFFFFFFE000"
    using assms by (simp_all add: word_le_nat_alt word_less_nat_alt USER_STACK_BOTTOM_VA_def USER_STACK_TOP_VA_def
      USER_STACK_SIZE_BYTES_def USER_STACK_PAGES_def)
  then have "unat x div 4096 = 0x7FFFFFFFA + (unat x div 4096 - 0x7FFFFFFFA)"
    "unat x div 4096 - 0x7FFFFFFFA < USER_STACK_PAGES" unfolding USER_STACK_PAGES_def by linarith+
  then show ?thesis using stack_va_page by blast
qed

lemma user_stack_flags_pte: "(user_stack_flags OR PF_Present) AND (PF_NoExecute OR 0x1FF) = user_stack_flags"
  by (simp add: user_stack_flags_def PF_Present_def PF_User_def PF_Writable_def PF_NoExecute_def)

lemma load_stack_spec:
  assumes "space_ok v root" "vm_inv root s" "\<forall>p\<in>set ps. p < USER_STACK_PAGES" "load_stack v root ps n s = (st, n', s')"
  shows "extends v root (Collect is_user_address) s s' \<and> (st = ES_Success \<longrightarrow>
    (\<forall>p\<in>set ps. \<forall>x\<in>page_of (stack_va p). holds v root s' x user_stack_flags 0))"
  using assms(2-4)
proof (induction ps arbitrary: n s)
  case Nil
  then show ?case by (simp add: extends_refl)
next
  case (Cons p ps)
  obtain st1 pa s1 where e: "elf_page v root (stack_va p) user_stack_flags s = (st1, pa, s1)" by (meson prod_cases3)
  have p: "p < USER_STACK_PAGES" using Cons.prems(2) by simp
  have "(2::nat) ^ 47 = 0x800000000000" by simp
  then have "4096 \<le> unat x \<and> unat x < 2 ^ 47" if "unat x div 4096 = 0x7FFFFFFFA + p" for x :: u64
    using that p unfolding USER_STACK_PAGES_def by linarith
  then have "page_of (stack_va p) \<subseteq> Collect is_user_address"
    unfolding subset_iff stack_va_page[OF p] mem_Collect_eq user_address_iff by blast
  then have E: "extends v root (Collect is_user_address) s s1"
    by (intro extends_mono[OF elf_page_spec(1)[OF assms(1) Cons.prems(1) e]]) simp
  show ?case
  proof (cases "st1 = ES_Success")
    case False
    then show ?thesis using E Cons.prems(3) e by simp
  next
    case True
    note P = elf_page_spec(2)[OF assms(1) Cons.prems(1) e True, unfolded user_stack_flags_pte]
    have "holds v root s1 x user_stack_flags 0" if "x \<in> page_of (stack_va p)" for x
    proof -
      have "unat (page_offset x) < 4096" by (simp add: unat_page_offset)
      from page_plus_offset(2)[OF _ this, of pa] have "(pa + page_offset x) AND NOT 0xFFF = pa" using P by simp
      then show ?thesis using P that by (auto simp: holds_def phys_byte_def)
    qed
    moreover have r: "load_stack v root ps (n + 1) s1 = (st, n', s')" using Cons.prems(3) e True by simp
    moreover have "vm_inv root s1" using E by (simp add: extends_def)
    note IH = Cons.IH[OF this _ r]
    moreover have "extends v root (Collect is_user_address) s1 s'" using IH Cons.prems(2) by simp
    ultimately show ?thesis using Cons.prems(2) extends_trans[OF E] by (auto simp: extends_def)
  qed
qed

section \<open>What validation establishes\<close>

lemma check_segments_sound:
  assumes "check_segments entry (of_nat n) phs c found = ES_Success" "n < 2 ^ 64"
  shows "(\<forall>ph\<in>set phs. p_type ph = PT_LOAD \<longrightarrow> segment_ok n ph) \<and>
    (found \<or> (\<exists>ph\<in>set phs. p_type ph = PT_LOAD \<and> p_flags ph AND PF_X \<noteq> 0 \<and> unat (p_vaddr ph) \<le> unat entry
       \<and> unat entry < unat (p_vaddr ph) + unat (p_memsz ph)))"
  using assms
proof (induction entry "of_nat n :: u64" phs c found rule: check_segments.induct)
  case (1 entry c found)
  then show ?case by (auto split: if_splits)
next
  case (2 entry ph phs c found)
  show ?case
  proof (cases "p_type ph = PT_LOAD")
    case False
    then show ?thesis using 2 by auto
  next
    case True
    have g: "\<not> (p_offset ph + p_filesz ph < p_offset ph \<or> p_offset ph + p_filesz ph > of_nat n)" "\<not> p_memsz ph < p_filesz ph"
      "\<not> p_vaddr ph + p_memsz ph < p_vaddr ph" "\<not> (p_vaddr ph < 0x1000 \<or> p_vaddr ph + p_memsz ph > 0x0000800000000000)"
      and r: "check_segments entry (of_nat n) phs (c + 1) (found \<or> (p_flags ph AND PF_X \<noteq> 0 \<and> entry \<ge> p_vaddr ph
        \<and> entry < p_vaddr ph + p_memsz ph)) = ES_Success"
      using 2(3) True by (simp_all add: Let_def split: if_splits)
    have a: "unat (p_offset ph + p_filesz ph) = unat (p_offset ph) + unat (p_filesz ph)"
      using g(1) unat_plus_simple[of "p_offset ph" "p_filesz ph"] by (simp add: not_less)
    have b: "unat (p_vaddr ph + p_memsz ph) = unat (p_vaddr ph) + unat (p_memsz ph)"
      using g(3) unat_plus_simple[of "p_vaddr ph" "p_memsz ph"] by (simp add: not_less)
    have un: "unat (of_nat n :: u64) = n" using 2(4) by (rule unat_of_small)
    have "segment_ok n ph" using g unfolding segment_ok_def not_less de_Morgan_disj word_le_nat_alt a b un by simp
    moreover note IH = "2.hyps"(2)[OF _ refl refl _ _ _ _ r 2(4)]
    ultimately show ?thesis using IH g True by (auto simp: word_le_nat_alt word_less_nat_alt b)
  qed
qed

lemma validate_header_bounds:
  assumes "validate_header (Some h) (of_nat n) = ES_Success" "n < 2 ^ 64"
  shows "64 \<le> n \<and> 0 < unat (e_phnum h) \<and> unat (e_phoff h) + 56 * unat (e_phnum h) \<le> n"
proof -
  let ?t = "ucast (e_phnum h) * 56 :: u64"
  have g: "\<not> (of_nat n :: u64) < 64" "e_phnum h \<noteq> 0" "\<not> (e_phoff h + ?t < e_phoff h \<or> e_phoff h + ?t > of_nat n)"
    using assms(1) by (simp_all add: validate_header_def Let_def split: if_splits)
  have un: "unat (of_nat n :: u64) = n" using assms(2) by (rule unat_of_small)
  have "unat (e_phnum h) < 2 ^ 16" using unat_below[of "e_phnum h"] by simp
  then have "unat (ucast (e_phnum h) :: u64) = unat (e_phnum h)" by (simp add: unsigned_ucast_eq take_bit_nat_eq_self)
  then have t: "unat ?t = 56 * unat (e_phnum h)"
    using \<open>unat (e_phnum h) < 2 ^ 16\<close> by (subst unat_mult_nowrap) simp_all
  have "unat (e_phoff h + ?t) = unat (e_phoff h) + 56 * unat (e_phnum h)"
    using g(3) unat_plus_simple[of "e_phoff h" ?t] by (simp add: not_less t)
  then show ?thesis using g unfolding not_less de_Morgan_disj word_le_nat_alt un by (simp add: unat_gt_0)
qed

text \<open>C35. Loading an executable into an address space, whatever the outcome, keeps the page-table
  invariant (which places the free pages below 2 GiB), only adds mappings at user addresses that
  were unmapped, and leaves every byte of a data page that was mapped before in place.  When it succeeds, every byte of every loadable segment is mapped
  with the segment's permissions and holds the byte of the file, or zero beyond the file-backed
  part; the user stack is mapped, writable and not executable, and zero; the header and the
  program headers lie inside the file, and the entry point lies in an executable segment.\<close>

theorem elf_load_image:
  assumes "space_ok v root" "vm_inv root s" "length f < 2 ^ 64" "elf_load v (Some f) root s = (res, s')"
  shows "extends v root (Collect is_user_address) s s' \<and>
    (er_status res = ES_Success \<longrightarrow>
      64 \<le> length f \<and> unat (e_phoff (read_header f)) + 56 * unat (e_phnum (read_header f)) \<le> length f
      \<and> (\<forall>ph\<in>set (program_headers f (read_header f)). p_type ph = PT_LOAD \<longrightarrow> segment_ok (length f) ph
          \<and> (\<forall>x. unat (p_vaddr ph) \<le> unat x \<and> unat x < unat (p_vaddr ph) + unat (p_memsz ph) \<longrightarrow>
               holds v root s' x (segment_flags ph) (segment_byte f ph x)))
      \<and> (\<forall>x. USER_STACK_BOTTOM_VA \<le> x \<and> x < USER_STACK_TOP_VA \<longrightarrow> holds v root s' x user_stack_flags 0)
      \<and> er_stack_top res = USER_STACK_TOP_VA
      \<and> (\<exists>ph\<in>set (program_headers f (read_header f)). p_type ph = PT_LOAD \<and> p_flags ph AND PF_X \<noteq> 0
          \<and> unat (p_vaddr ph) \<le> unat (er_entry_point res)
          \<and> unat (er_entry_point res) < unat (p_vaddr ph) + unat (p_memsz ph)))"
proof -
  let ?h = "read_header f" and ?U = "Collect is_user_address"
  let ?phs = "program_headers f ?h"
  define vs where "vs = validate_segments (Some ?h) f (of_nat (length f))"
  have root: "(if root = 0 then m_root_pml4_paddr v else root) = root" using assms(1) by (simp add: space_ok_def)
  obtain st1 n1 s1 where l: "load_segments v root f ?phs 0 s = (st1, n1, s1)" by (meson prod_cases3)
  obtain st2 n2 s2 where k: "load_stack v root [0..<USER_STACK_PAGES] n1 s1 = (st2, n2, s2)" by (meson prod_cases3)
  have e: "(res, s') = (if vs \<noteq> ES_Success then (elf_failed vs, s) else if st1 \<noteq> ES_Success then (elf_failed st1, s1)
      else if st2 \<noteq> ES_Success then (elf_failed st2, s2)
      else (\<lparr>er_status = ES_Success, er_entry_point = e_entry ?h, er_stack_top = USER_STACK_TOP_VA, er_pages_mapped = n2\<rparr>, s2))"
    using assms(4) unfolding elf_load_def Let_def option.case root vs_def[symmetric] l prod.case k by simp
  show ?thesis
  proof (cases "vs = ES_Success")
    case False
    then show ?thesis using e extends_refl[OF assms(2)] by simp
  next
    case True
    then have vh: "validate_header (Some ?h) (of_nat (length f)) = ES_Success"
      and vc: "check_segments (e_entry ?h) (of_nat (length f)) ?phs 0 False = ES_Success"
      by (auto simp: vs_def validate_segments_def Let_def split: if_splits)
    note H = validate_header_bounds[OF vh assms(3)]
    note C = check_segments_sound[OF vc assms(3)]
    note L = load_segments_spec[OF assms(1,3,2) conjunct1[OF C] l]
    show ?thesis
    proof (cases "st1 = ES_Success")
      case False
      then show ?thesis using e True L by simp
    next
      case s1: True
      have "vm_inv root s1" using L by (simp add: extends_def)
      note K = load_stack_spec[OF assms(1) this _ k, simplified atLeast_upt[symmetric] set_upt atLeastLessThan_iff]
      have K1: "extends v root ?U s1 s2" using K by simp
      have E: "extends v root ?U s s2" using L K1 extends_trans by blast
      show ?thesis
      proof (cases "st2 = ES_Success")
        case False
        then show ?thesis using e True s1 E by simp
      next
        case s2: True
        have r: "s' = s2" "er_status res = ES_Success" "er_entry_point res = e_entry ?h" "er_stack_top res = USER_STACK_TOP_VA"
          using e True s1 s2 by simp_all
        have "\<forall>x. USER_STACK_BOTTOM_VA \<le> x \<and> x < USER_STACK_TOP_VA \<longrightarrow> holds v root s2 x user_stack_flags 0"
          using K s2 stack_va_cover by fastforce
        then show ?thesis using E H C L K1 s1 unfolding r by (auto simp: extends_def)
      qed
    qed
  qed
qed

definition example_elf :: "u8 list" where
  "example_elf = [0x7F, 0x45, 0x4C, 0x46, 2, 1, 1, 0, 0, 0, 0, 0, 0, 0, 0, 0,  2, 0, 0x3E, 0, 1, 0, 0, 0,
     0x78, 0, 0x40, 0, 0, 0, 0, 0,  0x40, 0, 0, 0, 0, 0, 0, 0,  0, 0, 0, 0, 0, 0, 0, 0,
     0, 0, 0, 0, 0x40, 0, 0x38, 0,  1, 0, 0, 0, 0, 0, 0, 0,
     1, 0, 0, 0, 5, 0, 0, 0,  0x78, 0, 0, 0, 0, 0, 0, 0,  0x78, 0, 0x40, 0, 0, 0, 0, 0,
     0, 0, 0, 0, 0, 0, 0, 0,  2, 0, 0, 0, 0, 0, 0, 0,  0x10, 0, 0, 0, 0, 0, 0, 0,
     0, 0x10, 0, 0, 0, 0, 0, 0,  0xEB, 0xFE]"

lemma write_entry_code [code]: "write_entry mem pg i e = (\<lambda>x j. if x = pg \<and> j = i then e else mem x j)"
  by (auto simp: write_entry_def fun_eq_iff)

definition example_load :: "elf_result \<times> pmm \<times> page_mem" where
  "example_load = elf_load example_vmm (Some example_elf) 0x2000 (roomy_pmm, \<lambda>_ _. 0)"

lemma example_load_result: "er_status (fst example_load) = ES_Success"
  by code_simp

definition example_segment :: program_header where
  "example_segment = \<lparr>p_type = 1, p_flags = 5, p_offset = 0x78, p_vaddr = 0x400078, p_paddr = 0, p_filesz = 2,
     p_memsz = 0x10, p_align = 0x1000\<rparr>"

lemma example_segments: "program_headers example_elf (read_header example_elf) = [example_segment]"
  by code_simp

theorem elf_load_image_witness:
  "er_status (fst example_load) = ES_Success
   \<and> holds example_vmm 0x2000 (snd example_load) 0x400079 (PF_Present OR PF_User) 0xFE
   \<and> holds example_vmm 0x2000 (snd example_load) 0x40007A (PF_Present OR PF_User) 0
   \<and> holds example_vmm 0x2000 (snd example_load) 0x7FFFFFFFD000 user_stack_flags 0
   \<and> maps example_vmm 0x2000 (snd example_load) 0xFFFFFFFF80000000 = None"
proof -
  have l: "length example_elf < 2 ^ 64" by (simp add: example_elf_def)
  have ok: "space_ok example_vmm 0x2000" by (simp add: space_ok_def example_vmm_facts)
  note E = elf_load_image[OF ok roomy_vm_inv l, of "fst example_load" "snd example_load", folded example_load_def,
      unfolded prod.collapse, OF refl, unfolded example_segments]
  have S: "\<forall>x. unat (p_vaddr example_segment) \<le> unat x \<and> unat x < unat (p_vaddr example_segment) + unat (p_memsz example_segment) \<longrightarrow>
      holds example_vmm 0x2000 (snd example_load) x (segment_flags example_segment) (segment_byte example_elf example_segment x)"
    and T: "holds example_vmm 0x2000 (snd example_load) 0x7FFFFFFFD000 user_stack_flags 0"
    using E example_load_result by (simp_all add: example_segment_def PT_LOAD_def word_le_nat_alt word_less_nat_alt
      USER_STACK_BOTTOM_VA_def USER_STACK_TOP_VA_def USER_STACK_SIZE_BYTES_def USER_STACK_PAGES_def)
  have "\<not> is_user_address 0xFFFFFFFF80000000" by (simp add: user_address_iff)
  then have K: "maps example_vmm 0x2000 (snd example_load) 0xFFFFFFFF80000000 = maps example_vmm 0x2000 (roomy_pmm, \<lambda>_ _. 0) 0xFFFFFFFF80000000"
    using E unfolding extends_def mem_Collect_eq by blast
  have "segment_byte example_elf example_segment 0x400079 = 0xFE" "segment_byte example_elf example_segment 0x40007A = 0"
    by (simp_all add: segment_byte_def example_segment_def example_elf_def)
  moreover have "segment_flags example_segment = PF_Present OR PF_User"
    "translate (example_vmm\<lparr>hw_cr3 := 0x2000\<rparr>) (\<lambda>_ _. 0) 0xFFFFFFFF80000000 = None"
    by code_simp+
  ultimately show ?thesis using S[rule_format, of "0x400079"] S[rule_format, of "0x40007A"] T K example_load_result
    by (simp add: example_segment_def)
qed
end
