(* ===== verification/Spec2Isabelle.thy ===== *)
theory Spec2Isabelle
  imports Keyboard_Driver Core_String User_Memory Kalloc Vfs Elf_Loader
begin

text \<open>
  A verification library for the LlamaOS/A kernel (\<open>src/kernel\<close>), an x86-64 kernel in C++.

  \<^bold>\<open>The program.\<close>  The boot loader's memory map is turned into a table of reserved and
  available regions (\<open>memory/reserved_regions.cpp\<close>), from which the physical memory manager
  builds its frame bitmap (\<open>memory/pmm.cpp\<close>).  The virtual memory manager takes its page tables
  from there (\<open>memory/vmm.cpp\<close>), and so do the stacks of kernel threads
  (\<open>threading/stack_allocator.cpp\<close>), the kernel heap (\<open>memory/kalloc.cpp\<close>) and the loader of user
  programs (\<open>userland/elf_loader.cpp\<close>).  The scheduler (\<open>threading/scheduler.cpp\<close>) runs threads
  round robin and is driven by the timer interrupt (\<open>arch/x86_64/cpu/timer.cpp\<close>, \<open>pic.cpp\<close>).  The
  keyboard interrupt decodes scan codes into a lock-free queue that the kernel reads with
  interrupts enabled (\<open>drivers/ps2\<close>).  The virtual file system layer (\<open>fs/vfs.cpp\<close>) dispatches to
  file system drivers, and pointers from user programs are checked against the page tables
  (\<open>userland/user_memory.cpp\<close>).

  \<^bold>\<open>The theories.\<close>  Static members and objects are records, one definition stands for each
  function of the source under its name (a suffix or prefix avoids clashes), machine integers
  are words of their width, and every early return is a branch.

  \<^item> \<open>Kernel_Prelude\<close>: word types, rule collections and the facts on lists and words that the
    components share.  \<open>Core_Types\<close> (\<open>core/types.hpp\<close>), \<open>Memory_Types\<close> (\<open>memory_types.hpp\<close>,
    \<open>memory_layout.hpp\<close>) and \<open>Boot_Info\<close> (\<open>boot/boot_info.cpp\<close>): address arithmetic, alignment with
    overflow checks, page flags and the boot record.
  \<^item> \<open>Reserved_Regions\<close>: the tracker with the whole normalisation pipeline.  The table it yields is
    disjoint, ordered and page-aligned; reservations win over availability; the free addresses
    are exactly those of whole available pages that no reservation touches; the kernel image,
    the first MiB and the boot block are always protected; and a reservation at the very top of
    the address space is lost.
  \<^item> \<open>Pmm\<close>: the frame bitmap.  Allocations are fresh, distinct, unreserved and undone by
    release; single allocations succeed while frames are left; contiguous ones succeed exactly when
    a free run lies on one side of the search hint; initialisation protects what the tracker
    and its arguments protect.  The locale \<open>page_source\<close> is the contract its clients use.
  \<^item> \<open>Vmm\<close>, \<open>Vmm_Boot\<close>: four-level page tables in a memory of 512-entry pages.  Mapping and
    unmapping change the translation of exactly one page; after initialisation the translation of
    every address is known; a new user address space is empty below and shares the kernel above.
  \<^item> \<open>Bounded_Fifo\<close>, \<open>Threads\<close>, \<open>Stack_Allocator\<close>, \<open>Scheduler\<close>: the queue contract as a locale
    (interpreted by the ready queue and by the keyboard queue), thread control blocks and ready
    queue, guarded stacks, and the scheduler.  Its self-check holds in every state that is reached
    within the usage rules that \<open>sched_reach\<close> spells out, and every ready thread gets its turn.
  \<^item> \<open>Port_Io\<close>, \<open>Interrupt_Controller\<close>, \<open>Keyboard_Events\<close>, \<open>Keyboard_Driver\<close>: drivers as programs
    of the state monad over a bus of ports.  Initialisation touches only its own interrupt lines;
    commands to the keyboard controller wait for it a bounded number of polls; the timer
    divisor is the best representable one; key events are delivered in order under every
    interleaving of interrupts with the single accesses of the reader, by refinement of a
    list machine.
  \<^item> \<open>Core_String\<close>: the memory and string routines over a byte memory.
  \<^item> \<open>User_Memory\<close>: acceptance of a user buffer is exactly accessibility of all its bytes.
  \<^item> \<open>Kalloc\<close>: slab bins with free lists threaded through the blocks; live blocks stay disjoint
    and intact.
  \<^item> \<open>Vfs\<close>: path normalisation and the descriptor and mount tables, for arbitrary drivers.
  \<^item> \<open>Data_Pages\<close>, \<open>Elf_Loader\<close>: bytes on mapped pages, and the loader: what is mapped after a
    load, with which permissions and which contents.

  \<^bold>\<open>Parameters and hypotheses.\<close>  Hardware behind the ports is a \<open>port_bus\<close>: two arbitrary
  functions on a device state.  The theorem on interrupt lines assumes of it that the mask
  registers of the interrupt controllers are readable and change only through their own ports.
  File system drivers are arbitrary operations.  Linker symbols, the processor feature flags and
  the contents of the extended feature register are arguments.

  \<^bold>\<open>Bounds and termination.\<close>  Loops with a bound in the source recurse on that bound:
  the polling loops on the number of polls left (100000 and 64), scans of tables on their
  length.  No fuel is used.  String scans that stop only at a terminator are partial functions,
  defined on terminated strings; the scan of a memory-map entry is one too and is shown to
  return when the entry ends clear of the end of the address space.  The functions over paths
  come with termination proofs.

  \<^bold>\<open>Restrictions.\<close>  The invariant \<open>vm_inv\<close> of the page-table theorems requires all free frames
  below 2 GiB, the extent of the direct map; the kernel reaches page tables and page contents
  only there, and frames above it are handed out without being cleared.  In the loader's theorem
  \<open>holds\<close> and \<open>extends\<close> speak about bytes on data pages, that is on frames that are neither free
  nor page tables.  Scheduler operations run with interrupts disabled and are single steps; the
  keyboard handler runs through an interrupt gate and is a single step between two accesses of
  the reader.  Heap and file system calls hold their lock throughout and are single steps.
  \<open>normalize_path\<close> returns its result only on success; the partial contents of the output buffer
  after a failure are left out.

  \<^bold>\<open>Not modelled.\<close>  Log messages, and with them the console, screen and serial drivers; the
  invalidation of cached translations and the register save of a context switch; assembly,
  descriptor tables and the entry paths of interrupts and system calls; the Multiboot2 parser,
  whose result is the input of the region tracker; the PCI and VirtIO drivers, block storage, the
  FAT32 driver and the network stack; the process table and the system call dispatcher; boot-time
  self-tests and the user programs.
\<close>

end
